(* ===== verification/Prelude.thy ===== *)
theory Prelude
  imports Main "HOL-Library.Word" "HOL-Library.Finite_Map" "HOL-Library.Monad_Syntax"
begin

text \<open>
  Shared vocabulary of the development: the machine integers of the crate with Rust's
  saturating and ceiling operations on them, the result of a call that may panic, and a few
  facts on lists and finite maps. Nothing here mentions the rate limiter.
\<close>

named_theorems run_simps \<open>how a call that may panic computes\<close>
named_theorems unat_simps \<open>machine operations read as natural numbers\<close>
named_theorems eval_simps \<open>rules that evaluate the model on concrete input\<close>

section \<open>Machine integers\<close>

type_synonym u32 = "32 word"
type_synonym u64 = "64 word"
type_synonym u128 = "128 word"

text \<open>
  Rust's \<open>saturating_add\<close>, \<open>saturating_sub\<close>, \<open>saturating_mul\<close> and \<open>div_ceil\<close> on unsigned
  integers. The largest value of a width is the word \<open>- 1\<close>.
\<close>

definition sat_add :: "'w::len word \<Rightarrow> 'w word \<Rightarrow> 'w word" where
  "sat_add a b = (if unat a + unat b < 2 ^ LENGTH('w) then a + b else - 1)"

definition sat_sub :: "'w::len word \<Rightarrow> 'w word \<Rightarrow> 'w word" where
  "sat_sub a b = (if b \<le> a then a - b else 0)"

definition sat_mul :: "'w::len word \<Rightarrow> 'w word \<Rightarrow> 'w word" where
  "sat_mul a b = (if unat a * unat b < 2 ^ LENGTH('w) then a * b else - 1)"

definition div_ceil :: "'w::len word \<Rightarrow> 'w word \<Rightarrow> 'w word" where
  "div_ceil a b = (if a mod b = 0 then a div b else a div b + 1)"

lemma unat_word_less: "unat (a :: 'w::len word) < 2 ^ LENGTH('w)"
  by (rule unsigned_less)

lemma unat_max_value: "unat (- 1 :: 'w::len word) = 2 ^ LENGTH('w) - 1"
  by (simp add: unsigned_minus_1_eq_mask mask_eq_exp_minus_1)

lemma unat_le_max: "unat (a :: 'w::len word) \<le> 2 ^ LENGTH('w) - 1"
  using unat_word_less [of a] by linarith

lemma unat_plus_fits:
  "unat a + unat b < 2 ^ LENGTH('w) \<Longrightarrow> unat (a + b) = unat a + unat b"
  for a b :: "'w::len word"
  by (simp add: unat_word_ariths)

lemma unat_times_fits:
  "unat a * unat b < 2 ^ LENGTH('w) \<Longrightarrow> unat (a * b) = unat a * unat b"
  for a b :: "'w::len word"
  by (simp add: unat_word_ariths)

lemma unat_minus_fits: "b \<le> a \<Longrightarrow> unat (a - b) = unat a - unat b"
  by (simp add: unat_sub_if_size word_le_nat_alt)

lemma unat_sat_add [unat_simps]:
  "unat (sat_add a b) = min (unat a + unat b) (2 ^ LENGTH('w) - 1)"
  for a b :: "'w::len word"
  using unat_plus_fits [of a b] by (simp add: sat_add_def unat_max_value not_less)

lemma unat_sat_sub [unat_simps]: "unat (sat_sub a b) = unat a - unat b"
  using unat_minus_fits [of b a] by (simp add: sat_sub_def word_le_nat_alt)

lemma unat_sat_mul [unat_simps]:
  "unat (sat_mul a b) = min (unat a * unat b) (2 ^ LENGTH('w) - 1)"
  for a b :: "'w::len word"
  using unat_times_fits [of a b] by (simp add: sat_mul_def unat_max_value not_less)

lemma unat_min [unat_simps]: "unat (min a b) = min (unat a) (unat b)"
  by (simp add: min_def word_le_nat_alt)

lemma unat_max_word [unat_simps]: "unat (max a b) = max (unat a) (unat b)"
  by (simp add: max_def word_le_nat_alt)

lemma sat_add_0 [simp]: "sat_add x 0 = x" "sat_add 0 x = x"
  using unat_word_less [of x] by (simp_all add: sat_add_def)

text \<open>The ceiling of a quotient of naturals, and its adjunction with the floor.\<close>

definition ceil_div :: "nat \<Rightarrow> nat \<Rightarrow> nat" where
  "ceil_div a b = (if a mod b = 0 then a div b else a div b + 1)"

lemma ceil_div_le_iff: "0 < b \<Longrightarrow> ceil_div a b \<le> t \<longleftrightarrow> a \<le> t * b"
proof -
  assume b: "0 < b"
  have a: "a = a div b * b + a mod b" by simp
  have lt: "a mod b < b" using b by simp
  show ?thesis
  proof (cases "a mod b = 0")
    case True
    then have "a = a div b * b" using a by simp
    with b True show ?thesis
      by (metis ceil_div_def mult_le_cancel2)
  next
    case False
    have "Suc (a div b) \<le> t \<longleftrightarrow> a \<le> t * b"
    proof
      assume "Suc (a div b) \<le> t"
      then have "Suc (a div b) * b \<le> t * b" by (rule mult_le_mono1)
      moreover have "a \<le> Suc (a div b) * b" using div_mult_mod_eq [of a b] lt by (simp only: mult_Suc)
      ultimately show "a \<le> t * b" by simp
    next
      assume "a \<le> t * b"
      then have "a div b * b < t * b" using a False by linarith
      then show "Suc (a div b) \<le> t" by simp
    qed
    with False show ?thesis by (simp add: ceil_div_def)
  qed
qed

text \<open>
  The smallest amount \<open>t\<close> for which a quantity that grows as \<open>m * t div u\<close> reaches \<open>c\<close>.
\<close>

lemma reach_iff_ceil:
  assumes "0 < m" and "0 < u"
  shows "c \<le> m * t div u \<longleftrightarrow> ceil_div (c * u) m \<le> t"
proof -
  have "c \<le> m * t div u \<longleftrightarrow> c * u \<le> m * t"
    using assms(2) by (simp add: less_eq_div_iff_mult_less_eq)
  also have "\<dots> \<longleftrightarrow> ceil_div (c * u) m \<le> t"
    using assms(1) by (simp add: ceil_div_le_iff mult.commute)
  finally show ?thesis .
qed

lemma unat_div_ceil [unat_simps]:
  assumes "0 < unat b"
  shows "unat (div_ceil a b) = ceil_div (unat a) (unat b)"
proof -
  have z: "a mod b = 0 \<longleftrightarrow> unat a mod unat b = 0"
    by (metis unat_eq_zero unat_mod_distrib)
  show ?thesis
  proof (cases "a mod b = 0")
    case True
    then show ?thesis using z by (simp add: div_ceil_def ceil_div_def unat_div_distrib)
  next
    case False
    have "unat b \<noteq> 1" using False z by auto
    then have "2 \<le> unat b" using assms by simp
    have "unat a \<noteq> 0" using False z by (metis mod_0)
    then have "unat a div unat b < unat a"
      using \<open>2 \<le> unat b\<close> by simp
    then have "unat a div unat b + 1 < 2 ^ LENGTH('a)"
      using unat_word_less [of a] by linarith
    then have "unat (a div b + 1) = unat a div unat b + 1"
      by (simp add: unat_word_ariths unat_div_distrib)
    with False z show ?thesis by (simp add: div_ceil_def ceil_div_def)
  qed
qed

text \<open>Widening a word keeps its value; narrowing keeps a value that fits.\<close>

lemma unat_ucast_wide:
  "LENGTH('a) \<le> LENGTH('b) \<Longrightarrow> unat (ucast (a :: 'a::len word) :: 'b::len word) = unat a"
  by (simp add: unsigned_ucast_eq take_bit_nat_eq_self
    less_le_trans [OF unat_word_less power_increasing])

lemma unat_ucast_fits:
  "unat (a :: 'a::len word) < 2 ^ LENGTH('b) \<Longrightarrow> unat (ucast a :: 'b::len word) = unat a"
  by (simp add: unsigned_ucast_eq take_bit_nat_eq_self)

text \<open>\<open>x.min(u64::MAX as u128) as u64\<close> clamps a \<open>u128\<close> to \<open>u64\<close>.\<close>

lemma unat_u64_max [unat_simps, simp]: "unat (ucast (- 1 :: u64) :: u128) = 18446744073709551615"
  using unat_ucast_wide [of "- 1 :: u64", where 'b = 128] by (simp add: unat_max_value)

lemma unat_clamp_u64 [unat_simps]:
  "unat (ucast (min x (ucast (- 1 :: u64))) :: u64) = min (unat x) 18446744073709551615"
  for x :: u128
proof -
  have "unat (min x (ucast (- 1 :: u64))) = min (unat x) 18446744073709551615"
    by (simp only: unat_min unat_u64_max)
  then show ?thesis by (subst unat_ucast_fits) simp_all
qed

section \<open>Calls that may panic\<close>

text \<open>
  A call of the crate that can panic returns an option, \<open>None\<close> for the panic. Rust has two
  build profiles: with debug assertions and overflow checks (\<open>dbg\<close> is \<open>True\<close>) a failed
  \<open>debug_assert!\<close> or an overflowing \<open>+\<close> panics; without them the assertion is skipped and
  \<open>+\<close> wraps.
\<close>

definition debug_assert :: "bool \<Rightarrow> bool \<Rightarrow> unit option" where
  "debug_assert dbg p = (if dbg \<and> \<not> p then None else Some ())"

definition checked_plus :: "bool \<Rightarrow> 'w::len word \<Rightarrow> 'w word \<Rightarrow> 'w word option" where
  "checked_plus dbg a b =
     (if dbg \<and> 2 ^ LENGTH('w) \<le> unat a + unat b then None else Some (a + b))"

lemma debug_assert_simps [run_simps, simp]:
  "debug_assert dbg True = Some ()"
  "debug_assert False p = Some ()"
  "debug_assert True False = None"
  by (simp_all add: debug_assert_def)

lemma checked_plus_fits [run_simps]:
  "unat a + unat b < 2 ^ LENGTH('w) \<Longrightarrow> checked_plus dbg a b = Some (a + b)"
  for a b :: "'w::len word"
  by (simp add: checked_plus_def)

lemma bind_Some_eq [run_simps]: "Option.bind (Some x) f = f x"
  by simp

section \<open>Lists and finite maps\<close>

text \<open>\<open>VecDeque::remove\<close>: the list without the element at an index that is in range.\<close>

definition remove_at :: "nat \<Rightarrow> 'a list \<Rightarrow> 'a list" where
  "remove_at i xs = take i xs @ drop (Suc i) xs"

lemma remove_at_split:
  "i < length xs \<Longrightarrow> \<exists>ys zs. xs = ys @ xs ! i # zs \<and> remove_at i xs = ys @ zs"
  unfolding remove_at_def by (metis id_take_nth_drop)

lemma set_remove_at:
  "distinct xs \<Longrightarrow> i < length xs \<Longrightarrow> set (remove_at i xs) = set xs - {xs ! i}"
proof -
  assume d: "distinct xs" and i: "i < length xs"
  obtain ys zs where s: "xs = ys @ xs ! i # zs" "remove_at i xs = ys @ zs"
    using remove_at_split [OF i] by blast
  have "set xs = insert (xs ! i) (set ys \<union> set zs)" by (subst s(1)) simp
  moreover have "xs ! i \<notin> set ys \<union> set zs" using d by (subst (asm) s(1)) simp
  ultimately show ?thesis using s(2) by auto
qed

lemma distinct_remove_at:
  "distinct xs \<Longrightarrow> i < length xs \<Longrightarrow> distinct (remove_at i xs)"
  by (auto simp: remove_at_def set_take_disj_set_drop_if_distinct)

lemma length_remove_at: "i < length xs \<Longrightarrow> length (remove_at i xs) = length xs - 1"
  by (simp add: remove_at_def)

text \<open>
  A hash map is a finite map; its length is the cardinality of its domain. \<open>fm_any\<close> is
  \<open>values().any(p)\<close> and \<open>fm_update_all\<close> a loop over \<open>values_mut()\<close> whose body may panic: it
  panics when one of its turns does, in whatever order the map is walked.
\<close>

definition fm_len :: "('k, 'v) fmap \<Rightarrow> nat" where
  "fm_len m = fcard (fmdom m)"

definition fm_any :: "('v \<Rightarrow> bool) \<Rightarrow> ('k, 'v) fmap \<Rightarrow> bool" where
  "fm_any p m = fBex (fmdom m) (\<lambda>k. p (the (fmlookup m k)))"

definition fm_update_all :: "('v \<Rightarrow> 'v option) \<Rightarrow> ('k, 'v) fmap \<Rightarrow> ('k, 'v) fmap option" where
  "fm_update_all f m =
     (if fBall (fmdom m) (\<lambda>k. f (the (fmlookup m k)) \<noteq> None)
      then Some (fmmap (\<lambda>v. the (f v)) m) else None)"

lemma fm_any_iff: "fm_any p m \<longleftrightarrow> (\<exists>k v. fmlookup m k = Some v \<and> p v)"
  unfolding fm_any_def by (metis fmdomE fmdomI option.sel)

lemma fm_update_all_Some:
  assumes "fm_update_all f m = Some m'"
  shows "fmdom m' = fmdom m"
    and "fmlookup m' k = Option.bind (fmlookup m k) f"
proof -
  have m': "m' = fmmap (\<lambda>v. the (f v)) m"
    and nn: "fBall (fmdom m) (\<lambda>k. f (the (fmlookup m k)) \<noteq> None)"
    using assms by (auto simp: fm_update_all_def split: if_splits)
  show "fmdom m' = fmdom m" using m' by simp
  show "fmlookup m' k = Option.bind (fmlookup m k) f"
  proof (cases "fmlookup m k")
    case None
    then show ?thesis using m' by simp
  next
    case (Some v)
    then have "k |\<in>| fmdom m" by (rule fmdomI)
    with nn Some have "f v \<noteq> None" by fastforce
    with m' Some show ?thesis by auto
  qed
qed

lemma fm_update_all_total:
  assumes "\<And>k v. fmlookup m k = Some v \<Longrightarrow> f v \<noteq> None"
  shows "\<exists>m'. fm_update_all f m = Some m'"
  using assms unfolding fm_update_all_def by (fastforce elim: fmdomE)

lemma fm_len_fmupd:
  "fm_len (fmupd k v m) = (if k |\<in>| fmdom m then fm_len m else Suc (fm_len m))"
  by (auto simp: fm_len_def fcard_finsert_if finsert_absorb)

lemma fm_len_fmdrop:
  "fm_len (fmdrop k m) = (if k |\<in>| fmdom m then fm_len m - 1 else fm_len m)"
  by (auto simp: fm_len_def fcard_fminus_fsingleton_if)

lemma fm_len_fmempty [simp]: "fm_len fmempty = 0"
  by (simp add: fm_len_def)

section \<open>Evaluation\<close>

lemma u64_max_u128 [eval_simps]: "(ucast (- 1 :: u64) :: u128) = 18446744073709551615"
  by (rule word_unat_eq_iff [THEN iffD2]) simp

lemma min_word [eval_simps]: "min a b = (if a \<le> b then a else b)"
  for a b :: "'w::len word"
  by (simp add: min_def)

lemma word_one_less [eval_simps]:
  "numeral m \<le> (1 :: 'w::len word) \<longleftrightarrow> unat (numeral m :: 'w word) \<le> unat (1 :: 'w word)"
  "numeral m < (1 :: 'w::len word) \<longleftrightarrow> unat (numeral m :: 'w word) < unat (1 :: 'w word)"
  by (simp_all only: word_le_nat_alt word_less_nat_alt)

lemmas prelude_eval [eval_simps] =
  sat_add_def sat_sub_def sat_mul_def div_ceil_def ceil_div_def debug_assert_def checked_plus_def
  remove_at_def fm_any_def fm_update_all_def fm_len_fmupd fm_len_fmdrop Let_def

end
