(* ===== verification/Duration.thy ===== *)
theory Duration
  imports Prelude
begin

text \<open>
  \<open>std::time::Duration\<close>, the only notion of time of the limiter. A duration is a \<open>u64\<close> of seconds and fewer than \<open>10^9\<close> nanoseconds; the model
  keeps the total number of nanoseconds, a natural number up to \<open>max_nanos\<close>, which determines
  the two and orders durations as Rust does.
\<close>

section \<open>The type\<close>

definition nanos_per_sec :: nat where
  "nanos_per_sec = 1000000000"

definition max_nanos :: nat where
  "max_nanos = 18446744073709551615999999999"

typedef duration = "{n :: nat. n \<le> max_nanos}"
  morphisms nanos_of Abs_duration
  by (rule exI [of _ 0]) simp

lemma nanos_of_le [simp, intro]: "nanos_of d \<le> max_nanos"
  using nanos_of [of d] by simp

lemma duration_eq_iff: "d = e \<longleftrightarrow> nanos_of d = nanos_of e"
  by (simp add: nanos_of_inject)

lemma max_nanos_parts: "max_nanos = (2 ^ 64 - 1) * nanos_per_sec + (nanos_per_sec - 1)"
  by (simp add: max_nanos_def nanos_per_sec_def)

text \<open>A number of nanoseconds as a duration, at most the largest one.\<close>

definition dur :: "nat \<Rightarrow> duration" where
  "dur n = Abs_duration (min n max_nanos)"

lemma nanos_of_dur [simp]: "nanos_of (dur n) = min n max_nanos"
  by (simp add: dur_def Abs_duration_inverse)

lemma dur_nanos_of [simp]: "dur (nanos_of d) = d"
  by (simp add: duration_eq_iff)

instantiation duration :: linorder
begin

definition less_eq_duration :: "duration \<Rightarrow> duration \<Rightarrow> bool" where
  "less_eq_duration d e \<longleftrightarrow> nanos_of d \<le> nanos_of e"

definition less_duration :: "duration \<Rightarrow> duration \<Rightarrow> bool" where
  "less_duration d e \<longleftrightarrow> nanos_of d < nanos_of e"

instance
  by standard (auto simp: less_eq_duration_def less_duration_def duration_eq_iff)

end

lemmas duration_order = less_eq_duration_def less_duration_def

lemma nanos_of_max: "nanos_of (max d e) = max (nanos_of d) (nanos_of e)"
  by (simp add: max_def less_eq_duration_def)

section \<open>Constants, constructors and conversions\<close>

definition dur_zero :: duration where
  "dur_zero = dur 0"

definition dur_max :: duration where
  "dur_max = dur max_nanos"

definition is_zero :: "duration \<Rightarrow> bool" where
  "is_zero d \<longleftrightarrow> nanos_of d = 0"

text \<open>
  \<open>Duration::new\<close> carries whole seconds out of its nanoseconds and panics when the seconds
  overflow; every call of the crate passes a remainder modulo \<open>10^9\<close>, so nothing is carried.
\<close>

definition duration_new :: "u64 \<Rightarrow> u32 \<Rightarrow> duration" where
  "duration_new secs nanos = dur (unat secs * nanos_per_sec + unat nanos)"

definition from_secs :: "nat \<Rightarrow> duration" where
  "from_secs s = dur (s * nanos_per_sec)"

definition from_millis :: "u64 \<Rightarrow> duration" where
  "from_millis ms = dur (unat ms * 1000000)"

definition as_nanos :: "duration \<Rightarrow> u128" where
  "as_nanos d = of_nat (nanos_of d)"

definition as_millis :: "duration \<Rightarrow> u128" where
  "as_millis d = of_nat (nanos_of d div 1000000)"

definition saturating_add :: "duration \<Rightarrow> duration \<Rightarrow> duration" where
  "saturating_add d e = dur (nanos_of d + nanos_of e)"

definition saturating_sub :: "duration \<Rightarrow> duration \<Rightarrow> duration" where
  "saturating_sub d e = dur (nanos_of d - nanos_of e)"

text \<open>
  The operator \<open>d - e\<close> panics when \<open>e > d\<close>. The crate subtracts only below a test that
  \<open>e\<close> is smaller, where it is exact.
\<close>

definition dur_minus :: "duration \<Rightarrow> duration \<Rightarrow> duration" where
  "dur_minus d e = dur (nanos_of d - nanos_of e)"

lemma nanos_of_zero [simp]: "nanos_of dur_zero = 0"
  by (simp add: dur_zero_def)

lemma nanos_of_dur_max [simp]: "nanos_of dur_max = max_nanos"
  by (simp add: dur_max_def)

lemma nanos_of_saturating_add [simp]:
  "nanos_of (saturating_add d e) = min (nanos_of d + nanos_of e) max_nanos"
  by (simp add: saturating_add_def)

lemma nanos_of_saturating_sub [simp]:
  "nanos_of (saturating_sub d e) = nanos_of d - nanos_of e"
  by (simp add: saturating_sub_def min_absorb1 le_trans [OF diff_le_self])

lemma nanos_of_dur_minus [simp]:
  "nanos_of (dur_minus d e) = nanos_of d - nanos_of e"
  by (simp add: dur_minus_def min_absorb1 le_trans [OF diff_le_self])

lemma max_nanos_fits_u128: "max_nanos < 2 ^ 94"
  by (simp add: max_nanos_def)

lemma nanos_of_less_94: "nanos_of d < 2 ^ 94"
  using nanos_of_le [of d] max_nanos_fits_u128 by linarith

lemma unat_as_nanos [unat_simps, simp]: "unat (as_nanos d) = nanos_of d"
proof -
  have "nanos_of d < 2 ^ 128"
    using nanos_of_less_94 [of d] by simp
  then show ?thesis by (simp add: as_nanos_def unat_of_nat)
qed

lemma unat_as_millis [unat_simps]: "unat (as_millis d) = nanos_of d div 1000000"
proof -
  have "nanos_of d div 1000000 < 2 ^ 128"
    using nanos_of_less_94 [of d] by simp
  then show ?thesis by (simp add: as_millis_def unat_of_nat)
qed

text \<open>
  Splitting a number of nanoseconds into seconds and a remainder and building the duration
  again gives the number back: the two narrowing casts of the crate lose nothing.
\<close>

lemma nanos_of_duration_new_split:
  fixes n :: u128
  assumes "unat n \<le> max_nanos"
  shows "nanos_of (duration_new (ucast (n div 1000000000)) (ucast (n mod 1000000000))) = unat n"
    (is "nanos_of (duration_new ?s ?r) = _")
proof -
  have s: "unat (n div 1000000000) = unat n div 1000000000"
    and r: "unat (n mod 1000000000) = unat n mod 1000000000"
    by (simp_all add: unat_div_distrib unat_mod_distrib)
  have "unat n div 1000000000 < 2 ^ 64"
    using assms by (simp add: max_nanos_def)
  then have s': "unat ?s = unat n div 1000000000"
    using s by (subst unat_ucast_fits) simp_all
  have "unat n mod 1000000000 < 2 ^ 32" by (rule less_trans [of _ 1000000000]) simp_all
  then have r': "unat ?r = unat n mod 1000000000"
    using r by (subst unat_ucast_fits) simp_all
  have "unat ?s * nanos_per_sec + unat ?r = unat n"
    by (simp add: s' r' nanos_per_sec_def)
  with assms show ?thesis by (simp add: duration_new_def)
qed

lemmas duration_eval [eval_simps] =
  duration_eq_iff duration_order dur_zero_def dur_max_def is_zero_def duration_new_def
  from_secs_def from_millis_def saturating_add_def saturating_sub_def dur_minus_def
  nanos_of_max max_nanos_def nanos_per_sec_def as_nanos_def as_millis_def

end
