(* ===== verification/Types.thy ===== *)
theory Types
  imports Duration
begin

text \<open>
  The public types of the crate: keys, costs, permits, denials and outcomes
  (\<open>src/types.rs\<close>), server feedback (\<open>src/feedback.rs\<close>) and the events an observer
  receives (\<open>src/observer.rs\<close>).
\<close>

section \<open>Keys, costs, permits, outcomes (src/types.rs)\<close>

type_synonym key = u64

text \<open>A cost is a \<open>NonZeroU32\<close>.\<close>

typedef cost = "{w :: u32. w \<noteq> 0}"
  morphisms cost_get Cost
  by (rule exI [of _ 1]) simp

lemma cost_get_nonzero [simp]: "cost_get c \<noteq> 0"
  using cost_get [of c] by simp

lemma cost_pos [simp, intro]: "0 < unat (cost_get c)"
  by (simp add: unat_gt_0)

lemma cost_get_Cost [eval_simps]: "w \<noteq> 0 \<Longrightarrow> cost_get (Cost w) = w"
  by (simp add: Cost_inverse)

definition cost_new :: "u32 \<Rightarrow> cost option" where
  "cost_new raw = (if raw = 0 then None else Some (Cost raw))"

definition cost_one :: cost where
  "cost_one = Cost 1"

lemma cost_get_one [simp]: "cost_get cost_one = 1"
  by (simp add: cost_one_def cost_get_Cost)

text \<open>The weight of a cost as a natural number.\<close>

definition weight :: "cost \<Rightarrow> nat" where
  "weight c = unat (cost_get c)"

lemma weight_pos [simp, intro]: "0 < weight c"
  by (simp add: weight_def)

lemma weight_nonzero [simp]: "weight c \<noteq> 0"
  using weight_pos [of c] by linarith

lemma weight_less: "weight c < 2 ^ 32"
  using unat_word_less [of "cost_get c"] by (simp add: weight_def)

lemma cost_new_get: "cost_new raw = Some c \<longleftrightarrow> raw \<noteq> 0 \<and> cost_get c = raw"
  by (auto simp: cost_new_def Cost_inverse cost_get_inverse)

datatype permit_meta =
    MetaFixedWindow (meta_window_start: duration)
  | MetaTokenBucket

record permit =
  p_key :: key
  p_cost :: cost
  p_window_start :: duration
  p_issued_at :: duration
  p_deadline :: duration
  p_meta :: permit_meta

record deny =
  retry_after :: duration

datatype scope = ScopeGlobal | ScopeKey

datatype outcome =
    Confirmed
  | NotSent
  | SentNoConfirm
  | RateLimitedFeedback duration scope "key option"

section \<open>Server feedback (src/feedback.rs)\<close>

datatype feedback_scope = FbGlobal | FbKey | FbRoute

text \<open>
  The crate reads feedback through the five methods of the trait \<open>RateLimitFeedback\<close>; a
  record of their five results is what any implementation gives it. The struct \<open>Feedback\<close>
  implements each method by the field of the same name.
\<close>

record feedback =
  fb_retry_after :: duration
  fb_scope :: feedback_scope
  fb_remaining :: "u32 option"
  fb_reset_after :: "duration option"
  fb_bucket_remap :: "key option"

definition feedback_new :: "duration \<Rightarrow> feedback_scope \<Rightarrow> feedback" where
  "feedback_new ra sc =
     \<lparr>fb_retry_after = ra, fb_scope = sc, fb_remaining = None, fb_reset_after = None,
      fb_bucket_remap = None\<rparr>"

section \<open>Observer events (src/observer.rs)\<close>

datatype deny_reason =
    SlowStartDeny
  | KeyCardinalityBound
  | FeedbackBackoff
  | WindowExhaustedDeny
  | DisabledDeny

record deny_event =
  de_route_key :: key
  de_bucket_key :: key
  de_cost :: cost
  de_now :: duration
  de_deny :: deny
  de_reason :: deny_reason

record feedback_event =
  fe_route_key :: key
  fe_bucket_key :: key
  fe_now :: duration
  fe_retry_after :: duration
  fe_scope :: feedback_scope
  fe_bucket_remap :: "key option"

text \<open>
  An observer is code of the application, called with each event and returning nothing. The
  model records the calls, each with the identity of the observer attached at the time
  (\<open>0\<close> is the \<open>NoopObserver\<close> of a fresh limiter).
\<close>

datatype observer_call = OnDeny deny_event | OnFeedback feedback_event

type_synonym observer_id = nat

definition noop_observer :: observer_id where
  "noop_observer = 0"

lemmas types_eval [eval_simps] = cost_new_def cost_one_def weight_def feedback_new_def noop_observer_def

end
