(* ===== verification/Config.thy ===== *)
theory Config
  imports Types
begin

text \<open>
  Limiter configuration (\<open>src/config.rs\<close>) and the slow-start setting it may carry. The fields
  of \<open>Config\<close> are private to the crate, so every configuration a limiter sees was built by the
  constructors below; \<open>valid_config\<close> is what they guarantee.
\<close>

datatype algorithm_config =
    CfgFixedWindow u32 duration
  | CfgTokenBucket u64 u64

record slow_start =
  ss_ramp :: duration

definition slow_start_new :: "duration \<Rightarrow> slow_start" where
  "slow_start_new r = \<lparr>ss_ramp = r\<rparr>"

datatype overflow_policy = DenyNewKey | EvictOldestKey

datatype config_error = ZeroWindow

record config =
  cfg_algorithm :: algorithm_config
  cfg_max_keys :: "nat option"
  cfg_overflow_policy :: overflow_policy
  cfg_slow_start :: "slow_start option"

definition fixed_window_bounded :: "u32 \<Rightarrow> duration \<Rightarrow> nat option \<Rightarrow> config_error + config" where
  "fixed_window_bounded max_per_window window max_keys =
     (if is_zero window then Inl ZeroWindow
      else Inr \<lparr>cfg_algorithm = CfgFixedWindow max_per_window window,
                cfg_max_keys = max_keys,
                cfg_overflow_policy = DenyNewKey,
                cfg_slow_start = None\<rparr>)"

definition fixed_window :: "u32 \<Rightarrow> duration \<Rightarrow> config_error + config" where
  "fixed_window max_per_window window = fixed_window_bounded max_per_window window None"

definition token_bucket :: "u64 \<Rightarrow> u64 \<Rightarrow> config" where
  "token_bucket capacity refill_per_sec =
     \<lparr>cfg_algorithm = CfgTokenBucket capacity refill_per_sec,
      cfg_max_keys = None,
      cfg_overflow_policy = DenyNewKey,
      cfg_slow_start = None\<rparr>"

definition with_max_keys :: "config \<Rightarrow> nat option \<Rightarrow> config" where
  "with_max_keys c mk = c\<lparr>cfg_max_keys := mk\<rparr>"

definition with_slow_start :: "config \<Rightarrow> slow_start \<Rightarrow> config" where
  "with_slow_start c s = c\<lparr>cfg_slow_start := Some s\<rparr>"

definition with_overflow_policy :: "config \<Rightarrow> overflow_policy \<Rightarrow> config" where
  "with_overflow_policy c p = c\<lparr>cfg_overflow_policy := p\<rparr>"

definition config_window :: "config \<Rightarrow> duration" where
  "config_window c =
     (case cfg_algorithm c of CfgFixedWindow _ window \<Rightarrow> window | CfgTokenBucket _ _ \<Rightarrow> dur_zero)"

definition config_max_per_window :: "config \<Rightarrow> u32" where
  "config_max_per_window c =
     (case cfg_algorithm c of CfgFixedWindow m _ \<Rightarrow> m | CfgTokenBucket _ _ \<Rightarrow> 0)"

lemmas config_eval [eval_simps] =
  slow_start_new_def fixed_window_bounded_def fixed_window_def token_bucket_def with_max_keys_def
  with_slow_start_def with_overflow_policy_def config_window_def config_max_per_window_def

section \<open>What the constructors guarantee\<close>

text \<open>A fixed-window algorithm has a window that is not empty.\<close>

fun valid_algorithm :: "algorithm_config \<Rightarrow> bool" where
  "valid_algorithm (CfgFixedWindow m w) \<longleftrightarrow> \<not> is_zero w"
| "valid_algorithm (CfgTokenBucket c r) \<longleftrightarrow> True"

definition valid_config :: "config \<Rightarrow> bool" where
  "valid_config c \<longleftrightarrow> valid_algorithm (cfg_algorithm c)"

text \<open>The configurations an application can build: a constructor, then any of the setters.\<close>

inductive built :: "config \<Rightarrow> bool" where
  built_fixed: "fixed_window_bounded m w mk = Inr c \<Longrightarrow> built c"
| built_token: "built (token_bucket cap r)"
| built_keys: "built c \<Longrightarrow> built (with_max_keys c mk)"
| built_slow: "built c \<Longrightarrow> built (with_slow_start c s)"
| built_policy: "built c \<Longrightarrow> built (with_overflow_policy c p)"

lemma built_valid: "built c \<Longrightarrow> valid_config c"
  by (induction rule: built.induct)
     (auto simp: valid_config_def fixed_window_bounded_def token_bucket_def with_max_keys_def
       with_slow_start_def with_overflow_policy_def split: if_splits)

lemma valid_built:
  assumes "valid_config c"
  shows "built c"
proof -
  have base: "\<exists>b. built b \<and> cfg_algorithm b = cfg_algorithm c \<and>
      cfg_slow_start b = None \<and> built (with_max_keys b (cfg_max_keys c))"
  proof (cases "cfg_algorithm c")
    case (CfgFixedWindow m w)
    have "built \<lparr>cfg_algorithm = CfgFixedWindow m w, cfg_max_keys = None,
        cfg_overflow_policy = DenyNewKey, cfg_slow_start = None\<rparr>"
      by (rule built_fixed [of m w None])
         (use assms CfgFixedWindow in \<open>simp add: fixed_window_bounded_def valid_config_def\<close>)
    then show ?thesis using CfgFixedWindow built_keys by fastforce
  next
    case (CfgTokenBucket cap r)
    have "built (token_bucket cap r)" by (rule built_token)
    then show ?thesis using CfgTokenBucket built_keys by (fastforce simp: token_bucket_def)
  qed
  then obtain b where b: "built (with_max_keys b (cfg_max_keys c))"
      "cfg_algorithm b = cfg_algorithm c" "cfg_slow_start b = None" by blast
  define d where "d = with_overflow_policy (with_max_keys b (cfg_max_keys c)) (cfg_overflow_policy c)"
  have d: "built d" using b built_policy by (simp add: d_def)
  show ?thesis
  proof (cases "cfg_slow_start c")
    case None
    then have "c = d"
      using b by (simp add: d_def with_overflow_policy_def with_max_keys_def)
    with d show ?thesis by simp
  next
    case (Some s)
    then have "c = with_slow_start d s"
      using b by (simp add: d_def with_overflow_policy_def with_max_keys_def with_slow_start_def)
    with d built_slow show ?thesis by simp
  qed
qed

end
