(* ===== verification/Slow_Start.thy ===== *)
theory Slow_Start
  imports Config
begin

text \<open>
  The slow-start ramp (\<open>src/slow_start.rs\<close>): the share of a limit that is in force some time
  after the limiter started, for the \<open>u32\<close> limit of a fixed window and the \<open>u64\<close> limits of a
  token bucket, and how long to wait until a cost fits. The arithmetic is on \<open>u128\<close> as in the
  code, with its saturating and plain products and its narrowing casts.
\<close>

section \<open>The code\<close>

definition effective_max :: "u32 \<Rightarrow> slow_start \<Rightarrow> duration \<Rightarrow> duration \<Rightarrow> u32" where
  "effective_max max_per_window slow started_at now =
     (if is_zero (ss_ramp slow) then max_per_window
      else let elapsed = saturating_sub now started_at in
        if ss_ramp slow \<le> elapsed then max_per_window
        else let max_u128 = (ucast max_per_window :: u128);
                 e = as_nanos elapsed;
                 r = as_nanos (ss_ramp slow)
             in ucast ((max_u128 * e) div r))"

definition effective_u64 :: "u64 \<Rightarrow> slow_start \<Rightarrow> duration \<Rightarrow> duration \<Rightarrow> u64" where
  "effective_u64 max_lim slow started_at now =
     (if is_zero (ss_ramp slow) then max_lim
      else let elapsed = saturating_sub now started_at in
        if ss_ramp slow \<le> elapsed then max_lim
        else let max_u128 = (ucast max_lim :: u128);
                 e = as_nanos elapsed;
                 r = as_nanos (ss_ramp slow);
                 scaled = sat_mul max_u128 e div r
             in ucast (min scaled (ucast (- 1 :: u64))))"

definition duration_from_nanos :: "u128 \<Rightarrow> duration" where
  "duration_from_nanos n =
     (let secs_u128 = n div 1000000000 in
      if ucast (- 1 :: u64) < secs_u128 then dur_max
      else duration_new (ucast secs_u128) (ucast (n mod 1000000000)))"

definition retry_after_for_cost ::
  "u32 \<Rightarrow> slow_start \<Rightarrow> duration \<Rightarrow> duration \<Rightarrow> u32 \<Rightarrow> duration" where
  "retry_after_for_cost max_per_window slow started_at now c =
     (if is_zero (ss_ramp slow) \<or> max_per_window = 0 then dur_zero
      else let elapsed = saturating_sub now started_at in
        if ss_ramp slow \<le> elapsed then dur_zero
        else if max_per_window < c then saturating_sub (ss_ramp slow) elapsed
        else let r = as_nanos (ss_ramp slow);
                 needed = div_ceil ((ucast c :: u128) * r) (ucast max_per_window)
             in saturating_sub (duration_from_nanos needed) elapsed)"

definition retry_after_for_cost_u64 ::
  "u64 \<Rightarrow> slow_start \<Rightarrow> duration \<Rightarrow> duration \<Rightarrow> u64 \<Rightarrow> duration" where
  "retry_after_for_cost_u64 max_lim slow started_at now c =
     (if is_zero (ss_ramp slow) \<or> max_lim = 0 then dur_zero
      else let elapsed = saturating_sub now started_at in
        if ss_ramp slow \<le> elapsed then dur_zero
        else if max_lim < c then saturating_sub (ss_ramp slow) elapsed
        else let r = as_nanos (ss_ramp slow);
                 needed = div_ceil (sat_mul (ucast c :: u128) r) (ucast max_lim)
             in saturating_sub (duration_from_nanos needed) elapsed)"

lemmas slow_start_eval [eval_simps] =
  effective_max_def effective_u64_def duration_from_nanos_def retry_after_for_cost_def
  retry_after_for_cost_u64_def

section \<open>The ramp in natural numbers\<close>

text \<open>The share of a limit \<open>m\<close> in force when \<open>e\<close> of \<open>r\<close> nanoseconds have passed.\<close>

definition ramp_share :: "nat \<Rightarrow> nat \<Rightarrow> nat \<Rightarrow> nat" where
  "ramp_share m r e = (if r \<le> e then m else m * e div r)"

lemma ramp_share_le: "ramp_share m r e \<le> m"
proof (cases "r \<le> e")
  case False
  then have "m * e \<le> m * r" by simp
  then have "m * e div r \<le> m * r div r" by (rule div_le_mono)
  also have "\<dots> \<le> m" by simp
  finally show ?thesis using False by (simp add: ramp_share_def)
qed (simp add: ramp_share_def)

lemma ramp_share_mono:
  assumes "e \<le> e'"
  shows "ramp_share m r e \<le> ramp_share m r e'"
proof (cases "r \<le> e'")
  case True
  then show ?thesis using ramp_share_le [of m r e] by (simp add: ramp_share_def)
next
  case False
  with assms show ?thesis by (simp add: ramp_share_def div_le_mono)
qed

text \<open>The wait after which the share reaches a cost that the full limit allows.\<close>

lemma ramp_share_reach:
  assumes "0 < c" and "c \<le> m" and "0 < r"
  shows "c \<le> ramp_share m r e \<longleftrightarrow> ceil_div (c * r) m \<le> e"
proof (cases "r \<le> e")
  case True
  have "c * r \<le> e * m"
    using mult_le_mono [OF assms(2) True] by (simp add: mult.commute)
  then have "ceil_div (c * r) m \<le> e"
    using assms by (simp add: ceil_div_le_iff)
  with True assms show ?thesis by (simp add: ramp_share_def)
next
  case False
  then show ?thesis
    using assms reach_iff_ceil [of m r c e] by (simp add: ramp_share_def)
qed

lemma nanos_of_duration_from_nanos:
  assumes "unat n \<le> max_nanos"
  shows "nanos_of (duration_from_nanos n) = unat n"
proof -
  have "unat n div 1000000000 \<le> 2 ^ 64 - 1"
    using assms by (simp add: max_nanos_def)
  then have "\<not> ucast (- 1 :: u64) < n div 1000000000"
    by (simp add: word_less_nat_alt unat_div_distrib not_less)
  with assms show ?thesis
    by (simp add: duration_from_nanos_def Let_def nanos_of_duration_new_split)
qed

lemma is_zero_iff: "is_zero d \<longleftrightarrow> nanos_of d = 0"
  by (simp add: is_zero_def)

section \<open>The code computes the ramp\<close>

text \<open>
  For a \<open>u32\<close> limit the product fits in \<open>u128\<close> and the quotient in \<open>u32\<close>, whatever the
  instants are, so the code computes the share exactly.
\<close>

lemma product_fits:
  assumes "m < 2 ^ a" and "e < 2 ^ b" and "a + b \<le> n"
  shows "m * e < (2 ^ n :: nat)"
proof -
  have "m * e < 2 ^ a * 2 ^ b"
    using assms(1,2) by (intro mult_strict_mono) auto
  also have "\<dots> \<le> 2 ^ n"
    using assms(3) by (simp flip: power_add)
  finally show ?thesis .
qed

lemma unat_effective_max:
  "unat (effective_max m s st now) =
     ramp_share (unat m) (nanos_of (ss_ramp s)) (nanos_of now - nanos_of st)"
proof (cases "is_zero (ss_ramp s) \<or> ss_ramp s \<le> saturating_sub now st")
  case True
  then show ?thesis
    by (auto simp: effective_max_def ramp_share_def Let_def is_zero_iff less_eq_duration_def)
next
  case False
  let ?e = "nanos_of now - nanos_of st" and ?r = "nanos_of (ss_ramp s)"
  have lt: "\<not> ?r \<le> ?e" using False by (simp add: less_eq_duration_def)
  have "unat m * ?e < 2 ^ 128"
    using product_fits [OF unat_word_less [of m] nanos_of_less_94 [of "saturating_sub now st"], of 128]
    by simp
  then have prod: "unat ((ucast m :: u128) * as_nanos (saturating_sub now st)) = unat m * ?e"
    by (subst unat_times_fits) (simp_all add: unat_ucast_wide)
  have "ramp_share (unat m) ?r ?e < 2 ^ 32"
    using ramp_share_le [of "unat m" ?r ?e] unat_word_less [of m] by (simp add: le_less_trans)
  then show ?thesis
    using False lt prod
    by (simp add: effective_max_def Let_def ramp_share_def unat_ucast_fits unat_div_distrib)
qed

text \<open>
  For a \<open>u64\<close> limit the product saturates when it does not fit in \<open>u128\<close>; the share is then
  rounded down further. It is exact for every ramp shorter than \<open>2^64\<close> nanoseconds (584 years).
\<close>

lemma unat_effective_u64_sat:
  assumes "\<not> nanos_of (ss_ramp s) \<le> nanos_of now - nanos_of st"
  shows "unat (effective_u64 m s st now) =
    min (unat m * (nanos_of now - nanos_of st)) (2 ^ 128 - 1) div nanos_of (ss_ramp s)"
proof -
  let ?e = "nanos_of now - nanos_of st" and ?r = "nanos_of (ss_ramp s)"
  have "min (unat m * ?e) (2 ^ 128 - 1) div ?r \<le> unat m * ?e div ?r"
    by (rule div_le_mono) simp
  also have "\<dots> \<le> unat m"
    using ramp_share_le [of "unat m" ?r ?e] assms by (simp add: ramp_share_def)
  finally have "min (unat m * ?e) (2 ^ 128 - 1) div ?r < 2 ^ 64"
    using unat_word_less [of m] by simp
  moreover have "effective_u64 m s st now =
      ucast (min (sat_mul (ucast m) (as_nanos (saturating_sub now st)) div as_nanos (ss_ramp s))
        (ucast (- 1 :: u64)))"
    using assms by (auto simp: effective_u64_def Let_def is_zero_iff less_eq_duration_def)
  ultimately show ?thesis
    by (simp add: unat_clamp_u64 unat_div_distrib unat_sat_mul unat_ucast_wide)
qed

lemma effective_u64_after_ramp:
  "nanos_of (ss_ramp s) \<le> nanos_of now - nanos_of st \<Longrightarrow> effective_u64 m s st now = m"
  by (auto simp: effective_u64_def Let_def is_zero_iff less_eq_duration_def)

lemma effective_u64_le: "effective_u64 m s st now \<le> m"
proof (cases "nanos_of (ss_ramp s) \<le> nanos_of now - nanos_of st")
  case False
  let ?e = "nanos_of now - nanos_of st" and ?r = "nanos_of (ss_ramp s)"
  have "unat (effective_u64 m s st now) \<le> unat m * ?e div ?r"
    using unat_effective_u64_sat [OF False, of m] by (simp add: div_le_mono)
  also have "\<dots> \<le> unat m"
    using ramp_share_le [of "unat m" ?r ?e] False by (simp add: ramp_share_def)
  finally show ?thesis by (simp add: word_le_nat_alt)
qed (simp add: effective_u64_after_ramp)

lemma effective_max_le: "effective_max m s st now \<le> m"
  by (simp add: word_le_nat_alt unat_effective_max ramp_share_le)

definition short_ramp :: "slow_start \<Rightarrow> bool" where
  "short_ramp s \<longleftrightarrow> nanos_of (ss_ramp s) < 2 ^ 64"

lemma unat_effective_u64:
  assumes "short_ramp s"
  shows "unat (effective_u64 m s st now) =
    ramp_share (unat m) (nanos_of (ss_ramp s)) (nanos_of now - nanos_of st)"
proof (cases "nanos_of (ss_ramp s) \<le> nanos_of now - nanos_of st")
  case False
  then have "nanos_of now - nanos_of st < 2 ^ 64"
    using assms by (simp add: short_ramp_def)
  then have "unat m * (nanos_of now - nanos_of st) < 2 ^ 128"
    using product_fits [OF unat_word_less [of m], of _ 64 128] by simp
  with False show ?thesis by (simp add: unat_effective_u64_sat ramp_share_def)
qed (simp add: effective_u64_after_ramp ramp_share_def)

lemma nanos_of_needed:
  assumes "0 < m" and "c \<le> m" and "unat x = ceil_div (c * nanos_of r) m"
  shows "nanos_of (duration_from_nanos x) = ceil_div (c * nanos_of r) m"
proof -
  have "ceil_div (c * nanos_of r) m \<le> nanos_of r"
    using assms(1,2) by (simp add: ceil_div_le_iff mult.commute)
  then have "unat x \<le> max_nanos"
    using assms(3) nanos_of_le [of r] by linarith
  with assms(3) show ?thesis by (simp add: nanos_of_duration_from_nanos)
qed

lemma nanos_of_retry_after_for_cost:
  assumes "0 < unat m" and "unat c \<le> unat m"
    and "\<not> nanos_of (ss_ramp s) \<le> nanos_of now - nanos_of st"
  shows "nanos_of (retry_after_for_cost m s st now c) =
    ceil_div (unat c * nanos_of (ss_ramp s)) (unat m) - (nanos_of now - nanos_of st)"
proof -
  have "unat c * nanos_of (ss_ramp s) < 2 ^ 128"
    using product_fits [OF unat_word_less [of c] nanos_of_less_94 [of "ss_ramp s"], of 128] by simp
  then have "unat (div_ceil ((ucast c :: u128) * as_nanos (ss_ramp s)) (ucast m)) =
      ceil_div (unat c * nanos_of (ss_ramp s)) (unat m)"
    using assms(1) by (simp add: unat_div_ceil unat_times_fits unat_ucast_wide)
  from nanos_of_needed [OF assms(1,2) this] show ?thesis
    using assms
    by (simp add: retry_after_for_cost_def Let_def is_zero_iff less_eq_duration_def
        word_less_nat_alt unat_gt_0)
qed

lemma nanos_of_retry_after_for_cost_u64:
  assumes "0 < unat m" and "unat c \<le> unat m" and "short_ramp s"
    and "\<not> nanos_of (ss_ramp s) \<le> nanos_of now - nanos_of st"
  shows "nanos_of (retry_after_for_cost_u64 m s st now c) =
    ceil_div (unat c * nanos_of (ss_ramp s)) (unat m) - (nanos_of now - nanos_of st)"
proof -
  have "unat c * nanos_of (ss_ramp s) < 2 ^ 128"
    using product_fits [OF unat_word_less [of c], of "nanos_of (ss_ramp s)" 64 128] assms(3)
    by (simp add: short_ramp_def)
  then have "unat (div_ceil (sat_mul (ucast c :: u128) (as_nanos (ss_ramp s))) (ucast m)) =
      ceil_div (unat c * nanos_of (ss_ramp s)) (unat m)"
    using assms(1) by (simp add: unat_div_ceil unat_sat_mul unat_ucast_wide)
  from nanos_of_needed [OF assms(1,2) this] show ?thesis
    using assms
    by (simp add: retry_after_for_cost_u64_def Let_def is_zero_iff less_eq_duration_def
        word_less_nat_alt unat_gt_0)
qed

section \<open>The contract of a ramped limit\<close>

text \<open>
  What the limiter relies on, for either width: the limit in force is the ramp's share and the
  advised wait is the ceiling of the exact one. From these two laws: the limit in force never
  exceeds the configured one, never shrinks, and the advised wait is exact, neither too short
  nor too long.
\<close>

locale ramped_limit =
  fixes eff :: "'w::len word \<Rightarrow> slow_start \<Rightarrow> duration \<Rightarrow> duration \<Rightarrow> 'w word"
    and wait :: "'w word \<Rightarrow> slow_start \<Rightarrow> duration \<Rightarrow> duration \<Rightarrow> 'w word \<Rightarrow> duration"
    and ok :: "slow_start \<Rightarrow> bool"
  assumes eff_share: "ok s \<Longrightarrow>
      unat (eff m s st now) = ramp_share (unat m) (nanos_of (ss_ramp s)) (nanos_of now - nanos_of st)"
    and wait_ceil: "ok s \<Longrightarrow> 0 < unat m \<Longrightarrow> unat c \<le> unat m \<Longrightarrow>
      \<not> nanos_of (ss_ramp s) \<le> nanos_of now - nanos_of st \<Longrightarrow>
      nanos_of (wait m s st now c) =
        ceil_div (unat c * nanos_of (ss_ramp s)) (unat m) - (nanos_of now - nanos_of st)"
    and wait_done: "nanos_of (ss_ramp s) \<le> nanos_of now - nanos_of st \<Longrightarrow>
      wait m s st now c = dur_zero"
begin

lemma eff_le: "ok s \<Longrightarrow> eff m s st now \<le> m"
  by (simp add: word_le_nat_alt eff_share ramp_share_le)

lemma eff_mono: "ok s \<Longrightarrow> now \<le> now' \<Longrightarrow> eff m s st now \<le> eff m s st now'"
  by (simp add: word_le_nat_alt eff_share ramp_share_mono diff_le_mono less_eq_duration_def)

lemma eff_full: "ok s \<Longrightarrow> saturating_add st (ss_ramp s) \<le> now \<Longrightarrow>
    nanos_of st + nanos_of (ss_ramp s) \<le> max_nanos \<Longrightarrow> eff m s st now = m"
  by (rule word_unat_eq_iff [THEN iffD2])
     (auto simp: eff_share ramp_share_def less_eq_duration_def)

lemma wait_exact:
  assumes "ok s" and "0 < unat c" and "unat c \<le> unat m" and "st \<le> now" and "now \<le> now'"
  shows "c \<le> eff m s st now' \<longleftrightarrow>
    nanos_of now + nanos_of (wait m s st now c) \<le> nanos_of now'"
proof -
  let ?r = "nanos_of (ss_ramp s)"
  have m: "0 < unat m" using assms(2,3) by simp
  have ord: "nanos_of st \<le> nanos_of now" "nanos_of now \<le> nanos_of now'"
    using assms(4,5) by (simp_all add: less_eq_duration_def)
  show ?thesis
  proof (cases "?r \<le> nanos_of now - nanos_of st")
    case True
    then have "?r \<le> nanos_of now' - nanos_of st" using ord by linarith
    with True ord assms show ?thesis
      by (simp add: wait_done word_le_nat_alt eff_share ramp_share_def)
  next
    case False
    then have r: "0 < ?r" by simp
    have "c \<le> eff m s st now' \<longleftrightarrow>
        ceil_div (unat c * ?r) (unat m) \<le> nanos_of now' - nanos_of st"
      using assms(1) ramp_share_reach [OF assms(2,3) r] by (simp add: word_le_nat_alt eff_share)
    also have "\<dots> \<longleftrightarrow> nanos_of now + nanos_of (wait m s st now c) \<le> nanos_of now'"
      using wait_ceil [OF assms(1) m assms(3) False] ord by (simp only:) linarith
    finally show ?thesis .
  qed
qed

end

interpretation ramp32: ramped_limit effective_max retry_after_for_cost "\<lambda>_. True"
proof unfold_locales
  fix s :: slow_start and st now m c
  assume "nanos_of (ss_ramp s) \<le> nanos_of now - nanos_of st"
  then show "retry_after_for_cost m s st now c = dur_zero"
    by (auto simp: retry_after_for_cost_def Let_def less_eq_duration_def)
qed (simp_all add: unat_effective_max nanos_of_retry_after_for_cost)

interpretation ramp64: ramped_limit effective_u64 retry_after_for_cost_u64 short_ramp
proof unfold_locales
  fix s :: slow_start and st now m c
  assume "nanos_of (ss_ramp s) \<le> nanos_of now - nanos_of st"
  then show "retry_after_for_cost_u64 m s st now c = dur_zero"
    by (auto simp: retry_after_for_cost_u64_def Let_def less_eq_duration_def)
qed (simp_all add: unat_effective_u64 nanos_of_retry_after_for_cost_u64)

end
