(* ===== verification/Token_Bucket.thy ===== *)
theory Token_Bucket
  imports Slow_Start
begin

text \<open>
  The credit pool (\<open>src/token_bucket.rs\<close>): credits that are spent by reservations and refilled
  at a rate per second up to a capacity, and the credits of the permits in flight. Capacity and
  rate are arguments of every operation, as in the code: under slow start they grow with time.
\<close>

section \<open>The code\<close>

record token_state =
  tb_last_update :: duration
  tb_credits :: u64
  tb_in_flight :: u64

definition tb_new :: "duration \<Rightarrow> u64 \<Rightarrow> token_state" where
  "tb_new now capacity =
     \<lparr>tb_last_update = now, tb_credits = capacity, tb_in_flight = 0\<rparr>"

definition tb_has_outstanding :: "token_state \<Rightarrow> bool" where
  "tb_has_outstanding s \<longleftrightarrow> tb_in_flight s \<noteq> 0"

definition credits_added :: "duration \<Rightarrow> u64 \<Rightarrow> u64" where
  "credits_added delta refill_per_sec =
     (let nanos = as_nanos delta;
          add = sat_mul nanos (ucast refill_per_sec) div 1000000000
      in ucast (min add (ucast (- 1 :: u64))))"

definition retry_after_for_deficit :: "u64 \<Rightarrow> u64 \<Rightarrow> duration" where
  "retry_after_for_deficit deficit refill_per_sec =
     (let num = sat_mul (ucast deficit :: u128) 1000000000;
          denom = ucast refill_per_sec;
          nanos = div_ceil num denom;
          secs = ucast (nanos div 1000000000);
          sub = ucast (nanos mod 1000000000)
      in duration_new secs sub)"

definition tb_refill :: "token_state \<Rightarrow> u64 \<Rightarrow> u64 \<Rightarrow> duration \<Rightarrow> token_state" where
  "tb_refill s capacity refill_per_sec now =
     (if now \<le> tb_last_update s then s
      else if refill_per_sec = 0 \<or> capacity = 0 then
        s\<lparr>tb_last_update := now, tb_credits := min (tb_credits s) capacity\<rparr>
      else
        let delta = dur_minus now (tb_last_update s);
            add = credits_added delta refill_per_sec
        in s\<lparr>tb_credits := min (sat_add (tb_credits s) add) capacity, tb_last_update := now\<rparr>)"

definition tb_try_reserve ::
  "bool \<Rightarrow> token_state \<Rightarrow> u64 \<Rightarrow> u64 \<Rightarrow> cost \<Rightarrow> duration \<Rightarrow> (token_state \<times> (deny + unit)) option" where
  "tb_try_reserve dbg s0 capacity refill_per_sec c now =
     (let s = tb_refill s0 capacity refill_per_sec now;
          want = (ucast (cost_get c) :: u64)
      in if want = 0 then do { debug_assert dbg False; Some (s, Inr ()) }
         else if capacity < want then Some (s, Inl \<lparr>retry_after = dur_max\<rparr>)
         else if want \<le> tb_credits s then
           Some (s\<lparr>tb_credits := tb_credits s - want,
                   tb_in_flight := sat_add (tb_in_flight s) want\<rparr>, Inr ())
         else if refill_per_sec = 0 then Some (s, Inl \<lparr>retry_after = dur_max\<rparr>)
         else
           let deficit = want - tb_credits s in
           Some (s, Inl \<lparr>retry_after = retry_after_for_deficit deficit refill_per_sec\<rparr>))"

definition tb_refund ::
  "bool \<Rightarrow> token_state \<Rightarrow> u64 \<Rightarrow> cost \<Rightarrow> duration \<Rightarrow> u64 \<Rightarrow> token_state option" where
  "tb_refund dbg s0 capacity c now refill_per_sec =
     (let s = tb_refill s0 capacity refill_per_sec now;
          amt = (ucast (cost_get c) :: u64)
      in do {
        total \<leftarrow> checked_plus dbg (tb_credits s) amt;
        Some (s\<lparr>tb_in_flight := sat_sub (tb_in_flight s) amt, tb_credits := min total capacity\<rparr>)
      })"

definition tb_commit :: "token_state \<Rightarrow> cost \<Rightarrow> token_state" where
  "tb_commit s c = s\<lparr>tb_in_flight := sat_sub (tb_in_flight s) (ucast (cost_get c))\<rparr>"

definition tb_apply_capacity_change :: "token_state \<Rightarrow> u64 \<Rightarrow> u64 \<Rightarrow> token_state" where
  "tb_apply_capacity_change s old_capacity new_capacity =
     (if old_capacity \<le> new_capacity then
        let delta = new_capacity - old_capacity in
        s\<lparr>tb_credits := min (sat_add (tb_credits s) delta) new_capacity\<rparr>
      else s\<lparr>tb_credits := min (tb_credits s) new_capacity\<rparr>)"

lemmas token_bucket_eval [eval_simps] =
  tb_new_def tb_has_outstanding_def credits_added_def retry_after_for_deficit_def tb_refill_def
  tb_try_reserve_def tb_refund_def tb_commit_def tb_apply_capacity_change_def

section \<open>Credits in natural numbers\<close>

text \<open>
  The credits a rate adds in some nanoseconds. The product saturates at \<open>2^128 - 1\<close> in the code,
  but only where the quotient is already clamped to the largest \<open>u64\<close>, so the clamp alone
  describes the result.
\<close>

definition accrued :: "nat \<Rightarrow> nat \<Rightarrow> nat" where
  "accrued rate nanos = rate * nanos div nanos_per_sec"

lemma accrued_mono: "n \<le> n' \<Longrightarrow> accrued r n \<le> accrued r n'"
  by (simp add: accrued_def div_le_mono)

lemma accrued_mono_rate: "r \<le> r' \<Longrightarrow> accrued r n \<le> accrued r' n"
  by (simp add: accrued_def div_le_mono)

lemma accrued_superadditive: "accrued r a + accrued r b \<le> accrued r (a + b)"
proof -
  have "r * a div k + r * b div k \<le> (r * a + r * b) div k" for k :: nat
    by (cases "k = 0") (simp_all add: div_add1_eq [of "r * a" "r * b" k])
  then show ?thesis by (simp add: accrued_def add_mult_distrib2)
qed

lemma accrued_0 [simp]: "accrued r 0 = 0" "accrued 0 n = 0"
  by (simp_all add: accrued_def)

lemma unat_credits_added:
  "unat (credits_added d r) = min (accrued (unat r) (nanos_of d)) 18446744073709551615"
proof -
  let ?p = "nanos_of d * unat r"
  have "unat (sat_mul (as_nanos d) (ucast r) div 1000000000) =
      min ?p 340282366920938463463374607431768211455 div 1000000000"
    by (simp add: unat_div_distrib unat_sat_mul unat_ucast_wide)
  then have "unat (credits_added d r) =
      min (min ?p 340282366920938463463374607431768211455 div 1000000000) 18446744073709551615"
    by (simp add: credits_added_def Let_def unat_clamp_u64)
  also have "\<dots> = min (?p div 1000000000) 18446744073709551615"
  proof (cases "?p \<le> 340282366920938463463374607431768211455")
    case False
    then have "340282366920938463463374607431768211455 div 1000000000 \<le> ?p div 1000000000"
      by (intro div_le_mono) simp
    then have "18446744073709551615 \<le> ?p div 1000000000"
      by simp
    with False show ?thesis by simp
  qed simp
  finally show ?thesis by (simp add: accrued_def nanos_per_sec_def mult.commute)
qed

lemma nanos_of_retry_after_for_deficit:
  assumes "0 < unat r"
  shows "nanos_of (retry_after_for_deficit d r) = ceil_div (unat d * nanos_per_sec) (unat r)"
proof -
  let ?n = "div_ceil (sat_mul (ucast d :: u128) 1000000000) (ucast r)"
  have small: "unat d * 1000000000 < 2 ^ 128"
    using product_fits [OF unat_word_less [of d], of 1000000000 30 128] by simp
  have n: "unat ?n = ceil_div (unat d * nanos_per_sec) (unat r)"
    using assms small
    by (simp add: unat_div_ceil unat_sat_mul unat_ucast_wide nanos_per_sec_def)
  have "ceil_div (unat d * nanos_per_sec) (unat r) \<le> unat d * nanos_per_sec"
    using assms by (simp add: ceil_div_le_iff)
  also have "\<dots> \<le> max_nanos"
    using unat_word_less [of d] by (simp add: max_nanos_def nanos_per_sec_def)
  finally have "unat ?n \<le> max_nanos" using n by simp
  then show ?thesis
    using n by (simp add: retry_after_for_deficit_def Let_def nanos_of_duration_new_split)
qed

text \<open>A finite wait is never mistaken for \<open>Duration::MAX\<close>, which the caller reads as "never".\<close>

lemma retry_after_for_deficit_not_max:
  assumes "0 < unat r"
  shows "retry_after_for_deficit d r \<noteq> dur_max"
proof -
  have "ceil_div (unat d * nanos_per_sec) (unat r) \<le> unat d * nanos_per_sec"
    using assms by (simp add: ceil_div_le_iff)
  also have "\<dots> < max_nanos"
    using unat_word_less [of d] by (simp add: max_nanos_def nanos_per_sec_def)
  finally show ?thesis
    using assms by (simp add: duration_eq_iff nanos_of_retry_after_for_deficit)
qed

lemma want_simps [simp]:
  "(ucast (cost_get c) :: u64) \<noteq> 0"
  "unat (ucast (cost_get c) :: u64) = weight c"
proof -
  show w: "unat (ucast (cost_get c) :: u64) = weight c"
    by (simp add: unat_ucast_wide weight_def)
  then show "(ucast (cost_get c) :: u64) \<noteq> 0"
    by (metis weight_pos unat_0 less_numeral_extra(3))
qed

section \<open>Refilling\<close>

lemma tb_refill_same: "now \<le> tb_last_update s \<Longrightarrow> tb_refill s cap r now = s"
  by (simp add: tb_refill_def)

lemma tb_refill_in_flight [simp]: "tb_in_flight (tb_refill s cap r now) = tb_in_flight s"
  by (simp add: tb_refill_def Let_def)

lemma tb_refill_last_update [simp]:
  "tb_last_update (tb_refill s cap r now) = max (tb_last_update s) now"
  by (auto simp: tb_refill_def Let_def max_def)

lemma unat_tb_refill_credits:
  assumes "tb_last_update s < now"
  shows "unat (tb_credits (tb_refill s cap r now)) =
    min (unat (tb_credits s) + accrued (unat r) (nanos_of now - nanos_of (tb_last_update s)))
      (unat cap)"
proof -
  have cap: "unat cap \<le> 18446744073709551615" using unat_le_max [of cap] by simp
  have "unat r = 0 \<longleftrightarrow> r = 0" by (rule unat_0_iff)
  then show ?thesis
    using assms cap
    by (auto simp: tb_refill_def Let_def unat_min unat_sat_add unat_credits_added accrued_def)
qed

lemma tb_refill_credits_le_capacity:
  assumes "unat (tb_credits s) \<le> unat cap'" and "unat cap \<le> unat cap'"
  shows "unat (tb_credits (tb_refill s cap r now)) \<le> unat cap'"
proof (cases "now \<le> tb_last_update s")
  case False
  with assms show ?thesis by (simp add: unat_tb_refill_credits not_le)
qed (simp add: tb_refill_same assms)

text \<open>What a refill can add is bounded by the time it covers.\<close>

lemma tb_refill_credits_bound:
  "unat (tb_credits (tb_refill s cap r now)) \<le>
     unat (tb_credits s) +
     accrued (unat r) (nanos_of (max (tb_last_update s) now) - nanos_of (tb_last_update s))"
proof (cases "now \<le> tb_last_update s")
  case True
  then show ?thesis by (simp add: tb_refill_same)
next
  case False
  then show ?thesis by (simp add: unat_tb_refill_credits not_le max_def)
qed

section \<open>Reserving, committing, refunding\<close>

text \<open>The reservation on each branch, over natural numbers.\<close>

lemma tb_try_reserve_cases:
  "tb_try_reserve dbg s0 cap r c now =
    (let s = tb_refill s0 cap r now in
     if unat cap < weight c then Some (s, Inl \<lparr>retry_after = dur_max\<rparr>)
     else if weight c \<le> unat (tb_credits s) then
       Some (s\<lparr>tb_credits := tb_credits s - ucast (cost_get c),
               tb_in_flight := sat_add (tb_in_flight s) (ucast (cost_get c))\<rparr>, Inr ())
     else if r = 0 then Some (s, Inl \<lparr>retry_after = dur_max\<rparr>)
     else Some (s, Inl \<lparr>retry_after =
       retry_after_for_deficit (ucast (cost_get c) - tb_credits s) r\<rparr>))"
  by (simp add: tb_try_reserve_def Let_def word_less_nat_alt word_le_nat_alt)

lemma tb_try_reserve_total: "\<exists>s' res. tb_try_reserve dbg s cap r c now = Some (s', res)"
  by (simp add: tb_try_reserve_cases Let_def)

lemma tb_try_reserve_granted_iff:
  "(\<exists>s'. tb_try_reserve dbg s cap r c now = Some (s', Inr ())) \<longleftrightarrow>
    weight c \<le> unat cap \<and> weight c \<le> unat (tb_credits (tb_refill s cap r now))"
  by (auto simp: tb_try_reserve_cases Let_def)

lemma tb_try_reserve_granted:
  assumes "tb_try_reserve dbg s cap r c now = Some (s', Inr ())"
  shows "unat (tb_credits s') + weight c = unat (tb_credits (tb_refill s cap r now))"
    and "tb_last_update s' = max (tb_last_update s) now"
    and "unat (tb_in_flight s) + weight c < 2 ^ 64 \<Longrightarrow>
      unat (tb_in_flight s') = unat (tb_in_flight s) + weight c"
proof -
  let ?s = "tb_refill s cap r now"
  have le: "weight c \<le> unat (tb_credits ?s)"
    and s': "s' = ?s\<lparr>tb_credits := tb_credits ?s - ucast (cost_get c),
        tb_in_flight := sat_add (tb_in_flight ?s) (ucast (cost_get c))\<rparr>"
    using assms by (auto simp: tb_try_reserve_cases Let_def split: if_splits)
  have "unat (tb_credits ?s - ucast (cost_get c)) = unat (tb_credits ?s) - weight c"
    using le by (subst unat_minus_fits) (simp_all add: word_le_nat_alt)
  then show "unat (tb_credits s') + weight c = unat (tb_credits ?s)" using le s' by simp
  show "tb_last_update s' = max (tb_last_update s) now" using s' by simp
  show "unat (tb_in_flight s') = unat (tb_in_flight s) + weight c"
    if "unat (tb_in_flight s) + weight c < 2 ^ 64"
    using that s' by (simp add: unat_sat_add)
qed

lemma tb_try_reserve_denied:
  assumes "tb_try_reserve dbg s cap r c now = Some (s', Inl d)"
  shows "s' = tb_refill s cap r now"
    and "retry_after d = (if unat cap < weight c \<or> r = 0 then dur_max
      else retry_after_for_deficit (ucast (cost_get c) - tb_credits s') r)"
    and "weight c \<le> unat cap \<Longrightarrow> unat (tb_credits s') < weight c"
  using assms by (auto simp: tb_try_reserve_cases Let_def split: if_splits)

lemma tb_commit_fields [simp]:
  "tb_credits (tb_commit s c) = tb_credits s"
  "tb_last_update (tb_commit s c) = tb_last_update s"
  "unat (tb_in_flight (tb_commit s c)) = unat (tb_in_flight s) - weight c"
  by (simp_all add: tb_commit_def unat_sat_sub)

lemma tb_refund_fits:
  assumes "unat (tb_credits (tb_refill s cap r now)) + weight c < 2 ^ 64"
  shows "\<exists>s'. tb_refund dbg s cap c now r = Some s' \<and>
    unat (tb_credits s') = min (unat (tb_credits (tb_refill s cap r now)) + weight c) (unat cap) \<and>
    unat (tb_in_flight s') = unat (tb_in_flight s) - weight c \<and>
    tb_last_update s' = max (tb_last_update s) now"
  using assms
  by (simp add: tb_refund_def Let_def checked_plus_fits unat_min unat_plus_fits unat_sat_sub)

text \<open>
  The sum is not saturating in the code: at the top of \<open>u64\<close> it panics with overflow checks
  and wraps without.
\<close>

lemma tb_refund_overflow:
  assumes "2 ^ 64 \<le> unat (tb_credits (tb_refill s cap r now)) + weight c"
  shows "tb_refund True s cap c now r = None"
    and "\<exists>s'. tb_refund False s cap c now r = Some s' \<and>
      unat (tb_credits s') = min (unat (tb_credits (tb_refill s cap r now)) + weight c - 2 ^ 64) (unat cap)"
proof -
  let ?x = "tb_credits (tb_refill s cap r now)"
  show "tb_refund True s cap c now r = None"
    using assms by (simp add: tb_refund_def Let_def checked_plus_def)
  have "unat ?x + weight c - 2 ^ 64 < 2 ^ 64"
    using unat_word_less [of ?x] weight_less [of c] by simp
  then have "unat (?x + ucast (cost_get c)) = unat ?x + weight c - 2 ^ 64"
    using assms by (simp add: unat_word_ariths mod_if)
  then show "\<exists>s'. tb_refund False s cap c now r = Some s' \<and>
      unat (tb_credits s') = min (unat ?x + weight c - 2 ^ 64) (unat cap)"
    by (simp add: tb_refund_def Let_def checked_plus_def unat_min)
qed

lemma tb_apply_capacity_change_le:
  "unat (tb_credits (tb_apply_capacity_change s old new)) \<le> unat new"
  by (auto simp: tb_apply_capacity_change_def Let_def unat_min)

lemma tb_apply_capacity_change_fields [simp]:
  "tb_in_flight (tb_apply_capacity_change s old new) = tb_in_flight s"
  "tb_last_update (tb_apply_capacity_change s old new) = tb_last_update s"
  by (simp_all add: tb_apply_capacity_change_def Let_def)

text \<open>Raising the capacity keeps the deficit, lowering it clamps the credits.\<close>

lemma tb_apply_capacity_change_deficit:
  assumes "unat (tb_credits s) \<le> unat old" and "unat old \<le> unat new"
  shows "unat new - unat (tb_credits (tb_apply_capacity_change s old new)) =
    unat old - unat (tb_credits s)"
proof -
  have d: "unat (new - old) = unat new - unat old"
    using assms by (simp add: unat_minus_fits word_le_nat_alt)
  have "unat (tb_credits s) + (unat new - unat old) \<le> unat new" using assms by simp
  moreover have "unat new < 2 ^ 64" using unat_word_less [of new] by simp
  ultimately have "unat (tb_credits (tb_apply_capacity_change s old new)) =
      unat (tb_credits s) + (unat new - unat old)"
    using assms d
    by (simp add: tb_apply_capacity_change_def Let_def word_le_nat_alt unat_min unat_sat_add)
  with assms show ?thesis by simp
qed

end
