(* ===== verification/Bucket.thy ===== *)
theory Bucket
  imports Token_Bucket
begin

text \<open>
  The bucket of one key (\<open>src/bucket.rs\<close>): a fixed window or a credit pool, and the instant
  until which server feedback blocks it. Every operation that may panic returns an option; the
  first argument is the build profile (see the prelude).
\<close>

section \<open>Fixed windows\<close>

record fw_state =
  fw_window_start :: duration
  fw_reserved :: u32
  fw_spent :: u32

text \<open>A zero window fails the assertion, and without assertions the division by zero.\<close>

definition window_start_for :: "bool \<Rightarrow> duration \<Rightarrow> duration \<Rightarrow> duration option" where
  "window_start_for dbg now window =
     do {
       debug_assert dbg (\<not> is_zero window);
       let w = as_nanos window;
       let n = as_nanos now;
       if w = 0 then None
       else
         let start = (n div w) * w;
             secs = ucast (start div 1000000000);
             nanos = ucast (start mod 1000000000)
         in Some (duration_new secs nanos)
     }"

definition fw_new :: "bool \<Rightarrow> duration \<Rightarrow> duration \<Rightarrow> fw_state option" where
  "fw_new dbg now window =
     do {
       ws \<leftarrow> window_start_for dbg now window;
       Some \<lparr>fw_window_start = ws, fw_reserved = 0, fw_spent = 0\<rparr>
     }"

definition fw_has_outstanding :: "fw_state \<Rightarrow> bool" where
  "fw_has_outstanding s \<longleftrightarrow> fw_reserved s \<noteq> 0"

definition fw_maybe_reset_window ::
  "bool \<Rightarrow> fw_state \<Rightarrow> duration \<Rightarrow> duration \<Rightarrow> fw_state option" where
  "fw_maybe_reset_window dbg s now window =
     (if fw_reserved s \<noteq> 0 then Some s
      else
        let end_at = saturating_add (fw_window_start s) window in
        if end_at \<le> now then
          do {
            ws \<leftarrow> window_start_for dbg now window;
            Some (s\<lparr>fw_window_start := ws, fw_spent := 0, fw_reserved := 0\<rparr>)
          }
        else Some s)"

definition fw_retry_after :: "fw_state \<Rightarrow> duration \<Rightarrow> duration \<Rightarrow> duration" where
  "fw_retry_after s now window =
     (let end_at = saturating_add (fw_window_start s) window in saturating_sub end_at now)"

section \<open>Buckets\<close>

datatype bucket_deny_reason = BlockedUntil | WindowExhausted | Disabled | Unachievable

record bucket_deny =
  bd_deny :: deny
  bd_reason :: bucket_deny_reason

datatype algo_state =
    AlgoFixedWindow fw_state
  | AlgoTokenBucket token_state

record bucket_state =
  blocked_until :: "duration option"
  algo :: algo_state

definition algo_new :: "bool \<Rightarrow> duration \<Rightarrow> algorithm_config \<Rightarrow> algo_state option" where
  "algo_new dbg now a =
     (case a of
        CfgFixedWindow _ window \<Rightarrow> map_option AlgoFixedWindow (fw_new dbg now window)
      | CfgTokenBucket capacity _ \<Rightarrow> Some (AlgoTokenBucket (tb_new now capacity)))"

definition bucket_new :: "bool \<Rightarrow> duration \<Rightarrow> algorithm_config \<Rightarrow> bucket_state option" where
  "bucket_new dbg now a =
     do { st \<leftarrow> algo_new dbg now a; Some \<lparr>blocked_until = None, algo = st\<rparr> }"

definition bucket_has_outstanding :: "bucket_state \<Rightarrow> bool" where
  "bucket_has_outstanding b =
     (case algo b of
        AlgoFixedWindow s \<Rightarrow> fw_has_outstanding s
      | AlgoTokenBucket s \<Rightarrow> tb_has_outstanding s)"

definition clear_expired_block :: "bucket_state \<Rightarrow> duration \<Rightarrow> bucket_state" where
  "clear_expired_block b now =
     (case blocked_until b of
        Some until \<Rightarrow> if until \<le> now then b\<lparr>blocked_until := None\<rparr> else b
      | None \<Rightarrow> b)"

definition apply_blocked_until :: "bucket_state \<Rightarrow> duration \<Rightarrow> bucket_state" where
  "apply_blocked_until b until =
     b\<lparr>blocked_until := Some (case blocked_until b of None \<Rightarrow> until | Some cur \<Rightarrow> max cur until)\<rparr>"

text \<open>The two arms of \<open>try_reserve\<close> that decide; the bucket around them is below.\<close>

definition fw_try_reserve ::
  "bool \<Rightarrow> fw_state \<Rightarrow> key \<Rightarrow> u32 \<Rightarrow> duration \<Rightarrow> cost \<Rightarrow> duration
    \<Rightarrow> (fw_state \<times> (bucket_deny + permit)) option" where
  "fw_try_reserve dbg s0 key max_per_window window c now =
     do {
       s \<leftarrow> fw_maybe_reset_window dbg s0 now window;
       if max_per_window = 0 then
         Some (s, Inl \<lparr>bd_deny = \<lparr>retry_after = window\<rparr>, bd_reason = Disabled\<rparr>)
       else if max_per_window < cost_get c then
         Some (s, Inl \<lparr>bd_deny = \<lparr>retry_after = dur_max\<rparr>, bd_reason = Unachievable\<rparr>)
       else
         let in_use = sat_add (fw_spent s) (fw_reserved s);
             available = sat_sub max_per_window in_use
         in if available < cost_get c then
              Some (s, Inl \<lparr>bd_deny = \<lparr>retry_after = fw_retry_after s now window\<rparr>,
                            bd_reason = WindowExhausted\<rparr>)
            else
              let s' = s\<lparr>fw_reserved := sat_add (fw_reserved s) (cost_get c)\<rparr>;
                  deadline = saturating_add (fw_window_start s') window
              in Some (s', Inr \<lparr>p_key = key, p_cost = c, p_window_start = fw_window_start s',
                                p_issued_at = now, p_deadline = deadline,
                                p_meta = MetaFixedWindow (fw_window_start s')\<rparr>)
     }"

definition token_try_reserve ::
  "bool \<Rightarrow> token_state \<Rightarrow> key \<Rightarrow> u64 \<Rightarrow> u64 \<Rightarrow> cost \<Rightarrow> duration
    \<Rightarrow> (token_state \<times> (bucket_deny + permit)) option" where
  "token_try_reserve dbg s key capacity refill_per_sec c now =
     (if capacity = 0 then
        Some (s, Inl \<lparr>bd_deny = \<lparr>retry_after = dur_max\<rparr>, bd_reason = Disabled\<rparr>)
      else do {
        (s', res) \<leftarrow> tb_try_reserve dbg s capacity refill_per_sec c now;
        (case res of
           Inr _ \<Rightarrow> Some (s', Inr \<lparr>p_key = key, p_cost = c, p_window_start = dur_zero,
                                    p_issued_at = now, p_deadline = dur_zero,
                                    p_meta = MetaTokenBucket\<rparr>)
         | Inl d \<Rightarrow> Some (s', Inl \<lparr>bd_deny = d,
             bd_reason = (if retry_after d = dur_max then Unachievable else WindowExhausted)\<rparr>))
      })"

text \<open>The decision on the pair of states, made when feedback does not block the bucket.\<close>

definition bucket_decide ::
  "bool \<Rightarrow> bucket_state \<Rightarrow> key \<Rightarrow> algorithm_config \<Rightarrow> cost \<Rightarrow> duration
    \<Rightarrow> (bucket_state \<times> (bucket_deny + permit)) option" where
  "bucket_decide dbg b key a c now =
     (case (algo b, a) of
        (AlgoFixedWindow s, CfgFixedWindow max_per_window window) \<Rightarrow>
          do {
            (s', res) \<leftarrow> fw_try_reserve dbg s key max_per_window window c now;
            Some (b\<lparr>algo := AlgoFixedWindow s'\<rparr>, res)
          }
      | (AlgoTokenBucket s, CfgTokenBucket capacity refill_per_sec) \<Rightarrow>
          do {
            (s', res) \<leftarrow> token_try_reserve dbg s key capacity refill_per_sec c now;
            Some (b\<lparr>algo := AlgoTokenBucket s'\<rparr>, res)
          }
      | _ \<Rightarrow> Some (b, Inl \<lparr>bd_deny = \<lparr>retry_after = from_secs 1\<rparr>, bd_reason = Disabled\<rparr>))"

definition bucket_try_reserve ::
  "bool \<Rightarrow> bucket_state \<Rightarrow> key \<Rightarrow> algorithm_config \<Rightarrow> cost \<Rightarrow> duration
    \<Rightarrow> (bucket_state \<times> (bucket_deny + permit)) option" where
  "bucket_try_reserve dbg b0 key a c now =
     (let b = clear_expired_block b0 now in
      case blocked_until b of
        Some until \<Rightarrow>
          if now < until then
            Some (b, Inl \<lparr>bd_deny = \<lparr>retry_after = dur_minus until now\<rparr>,
                          bd_reason = BlockedUntil\<rparr>)
          else bucket_decide dbg b key a c now
      | None \<Rightarrow> bucket_decide dbg b key a c now)"

text \<open>The fixed-window arms of \<open>refund\<close> and \<open>commit\<close>; \<open>ws\<close> is the window of the permit.\<close>

definition fw_refund ::
  "bool \<Rightarrow> fw_state \<Rightarrow> cost \<Rightarrow> duration \<Rightarrow> duration \<Rightarrow> duration \<Rightarrow> fw_state option" where
  "fw_refund dbg s0 c ws now window =
     do {
       s \<leftarrow> fw_maybe_reset_window dbg s0 now window;
       if ws \<noteq> fw_window_start s then do { debug_assert dbg False; Some s }
       else Some (s\<lparr>fw_reserved := sat_sub (fw_reserved s) (cost_get c)\<rparr>)
     }"

definition fw_commit ::
  "bool \<Rightarrow> fw_state \<Rightarrow> cost \<Rightarrow> duration \<Rightarrow> outcome \<Rightarrow> duration \<Rightarrow> duration \<Rightarrow> fw_state option" where
  "fw_commit dbg s0 c ws out now window =
     do {
       s \<leftarrow> fw_maybe_reset_window dbg s0 now window;
       if ws \<noteq> fw_window_start s then do { debug_assert dbg False; Some s }
       else
         let w = cost_get c;
             s1 = s\<lparr>fw_reserved := sat_sub (fw_reserved s) w, fw_spent := sat_add (fw_spent s) w\<rparr>
         in Some (if out = NotSent then s1\<lparr>fw_spent := sat_sub (fw_spent s1) w\<rparr> else s1)
     }"

definition bucket_refund ::
  "bool \<Rightarrow> bucket_state \<Rightarrow> permit \<Rightarrow> duration \<Rightarrow> algorithm_config \<Rightarrow> bucket_state option" where
  "bucket_refund dbg b0 p now a =
     (let b = clear_expired_block b0 now in
      case (algo b, a, p_meta p) of
        (AlgoFixedWindow s, CfgFixedWindow _ window, MetaFixedWindow ws) \<Rightarrow>
          do {
            s' \<leftarrow> fw_refund dbg s (p_cost p) ws now window;
            Some (b\<lparr>algo := AlgoFixedWindow s'\<rparr>)
          }
      | (AlgoTokenBucket s, CfgTokenBucket capacity refill_per_sec, MetaTokenBucket) \<Rightarrow>
          do {
            s' \<leftarrow> tb_refund dbg s capacity (p_cost p) now refill_per_sec;
            Some (b\<lparr>algo := AlgoTokenBucket s'\<rparr>)
          }
      | _ \<Rightarrow> do { debug_assert dbg False; Some b })"

definition token_commit ::
  "bool \<Rightarrow> token_state \<Rightarrow> u64 \<Rightarrow> u64 \<Rightarrow> cost \<Rightarrow> outcome \<Rightarrow> duration \<Rightarrow> token_state option" where
  "token_commit dbg s capacity refill_per_sec c out now =
     (case out of
        NotSent \<Rightarrow> tb_refund dbg s capacity c now refill_per_sec
      | _ \<Rightarrow> Some (tb_commit s c))"

definition bucket_commit ::
  "bool \<Rightarrow> bucket_state \<Rightarrow> permit \<Rightarrow> outcome \<Rightarrow> duration \<Rightarrow> algorithm_config \<Rightarrow> bucket_state option" where
  "bucket_commit dbg b00 p out now a =
     (let b0 = clear_expired_block b00 now;
          b = (case out of
                 RateLimitedFeedback ra ScopeKey _ \<Rightarrow>
                   apply_blocked_until b0 (saturating_add now ra)
               | _ \<Rightarrow> b0)
      in case (algo b, a, p_meta p) of
        (AlgoFixedWindow s, CfgFixedWindow _ window, MetaFixedWindow ws) \<Rightarrow>
          do {
            s' \<leftarrow> fw_commit dbg s (p_cost p) ws out now window;
            Some (b\<lparr>algo := AlgoFixedWindow s'\<rparr>)
          }
      | (AlgoTokenBucket s, CfgTokenBucket capacity refill_per_sec, MetaTokenBucket) \<Rightarrow>
          do {
            s' \<leftarrow> token_commit dbg s capacity refill_per_sec (p_cost p) out now;
            Some (b\<lparr>algo := AlgoTokenBucket s'\<rparr>)
          }
      | _ \<Rightarrow> do { debug_assert dbg False; Some b })"

definition bucket_on_update ::
  "bool \<Rightarrow> bucket_state \<Rightarrow> algorithm_config \<Rightarrow> algorithm_config \<Rightarrow> duration \<Rightarrow> bucket_state option" where
  "bucket_on_update dbg b0 old new now =
     (let b = clear_expired_block b0 now;
          has_outstanding = bucket_has_outstanding b
      in case (algo b, old, new) of
        (AlgoFixedWindow s, CfgFixedWindow _ old_w, CfgFixedWindow _ new_w) \<Rightarrow>
          if old_w \<noteq> new_w \<and> \<not> fw_has_outstanding s then
            do {
              ws \<leftarrow> window_start_for dbg now new_w;
              Some (b\<lparr>algo := AlgoFixedWindow (s\<lparr>fw_window_start := ws, fw_spent := 0\<rparr>)\<rparr>)
            }
          else if old_w \<noteq> new_w \<and> fw_has_outstanding s then
            do { debug_assert dbg False; Some b }
          else Some b
      | (AlgoTokenBucket s, CfgTokenBucket old_cap old_refill, CfgTokenBucket new_cap _) \<Rightarrow>
          Some (b\<lparr>algo := AlgoTokenBucket
            (tb_apply_capacity_change (tb_refill s old_cap old_refill now) old_cap new_cap)\<rparr>)
      | _ \<Rightarrow>
          do {
            debug_assert dbg (\<not> has_outstanding);
            st \<leftarrow> algo_new dbg now new;
            Some (b\<lparr>algo := st\<rparr>)
          })"

lemmas bucket_eval [eval_simps] =
  window_start_for_def fw_new_def fw_has_outstanding_def fw_maybe_reset_window_def fw_retry_after_def
  algo_new_def bucket_new_def bucket_has_outstanding_def clear_expired_block_def
  apply_blocked_until_def fw_try_reserve_def token_try_reserve_def bucket_decide_def
  bucket_try_reserve_def fw_refund_def fw_commit_def bucket_refund_def token_commit_def
  bucket_commit_def bucket_on_update_def

section \<open>Windows\<close>

lemma window_start_for_zero: "is_zero window \<Longrightarrow> window_start_for dbg now window = None"
  by (cases dbg) (simp_all add: window_start_for_def as_nanos_def is_zero_def)

text \<open>The window that holds an instant starts at the largest multiple of its length before it.\<close>

lemma window_start_for_nanos:
  assumes "\<not> is_zero window"
  obtains ws where "window_start_for dbg now window = Some ws"
    and "nanos_of ws = nanos_of now div nanos_of window * nanos_of window"
proof -
  let ?n = "nanos_of now" and ?w = "nanos_of window"
  let ?start = "as_nanos now div as_nanos window * as_nanos window"
  have w: "as_nanos window \<noteq> 0"
    using assms unat_as_nanos [of window] by (metis is_zero_def unat_0)
  have le: "?n div ?w * ?w \<le> ?n" by simp
  have "?n div ?w * ?w < 2 ^ 128"
    using le_less_trans [OF le nanos_of_less_94] by (rule less_trans) simp
  then have start: "unat ?start = ?n div ?w * ?w"
    by (subst unat_times_fits) (simp_all add: unat_div_distrib)
  have "unat ?start \<le> max_nanos" using le start nanos_of_le [of now] by linarith
  from nanos_of_duration_new_split [OF this] start w assms that show thesis
    by (simp add: window_start_for_def Let_def)
qed

lemma fw_new_fields:
  assumes "\<not> is_zero window"
  obtains ws where "fw_new dbg now window = Some \<lparr>fw_window_start = ws, fw_reserved = 0, fw_spent = 0\<rparr>"
    and "nanos_of ws = nanos_of now div nanos_of window * nanos_of window"
  using window_start_for_nanos [OF assms, of dbg now] by (metis bind.bind_lunit fw_new_def)

text \<open>
  An instant lies in the window that starts at its window start. A window that reaches past the
  last representable instant is the last one.
\<close>

lemma window_start_le: "window_start_for dbg now window = Some ws \<Longrightarrow> ws \<le> now"
  by (cases "is_zero window")
     (auto simp: window_start_for_zero less_eq_duration_def elim!: window_start_for_nanos [of window dbg now])

lemma window_end_gt:
  assumes "window_start_for dbg now window = Some ws" and "now < dur_max"
  shows "now < saturating_add ws window"
proof -
  have nz: "\<not> is_zero window" using assms(1) window_start_for_zero by (metis option.discI)
  then have w: "0 < nanos_of window" by (simp add: is_zero_def)
  obtain ws' where "window_start_for dbg now window = Some ws'"
    and "nanos_of ws' = nanos_of now div nanos_of window * nanos_of window"
    using window_start_for_nanos [OF nz] .
  then have ws: "nanos_of ws = nanos_of now div nanos_of window * nanos_of window"
    using assms(1) by simp
  have "nanos_of now < nanos_of ws + nanos_of window"
    using div_mult_mod_eq [of "nanos_of now" "nanos_of window"] mod_less_divisor [OF w] ws
    by (metis add_less_cancel_left)
  with assms(2) show ?thesis by (simp add: less_duration_def)
qed

end
