(* ===== verification/Bucket_Pool.thy ===== *)
theory Bucket_Pool
  imports Bucket "HOL-Library.Multiset"
begin

text \<open>
  The accounting contract of a bucket: what it reserves is exactly the weight of the permits
  that are outstanding, and finalizing one of them never panics and gives back exactly its
  weight. The contract is a locale; the fixed window, the credit pool and the bucket that holds
  either provide it, and the limiter uses it through the bucket's instance.
\<close>

section \<open>Fixed windows, operation by operation\<close>

definition weights :: "permit multiset \<Rightarrow> nat" where
  "weights ps = (\<Sum>p \<in># ps. weight (p_cost p))"

lemma weights_simps [simp]:
  "weights {#} = 0"
  "weights (add_mset p ps) = weight (p_cost p) + weights ps"
  by (simp_all add: weights_def)

lemma weights_remove: "p \<in># ps \<Longrightarrow> weights (ps - {#p#}) = weights ps - weight (p_cost p)"
  by (metis add_diff_cancel_left' insert_DiffM weights_simps(2))

lemma weight_le_weights: "p \<in># ps \<Longrightarrow> weight (p_cost p) \<le> weights ps"
  by (metis insert_DiffM le_add1 weights_simps(2))

lemma weights_eq_0_iff [simp]: "weights ps = 0 \<longleftrightarrow> ps = {#}"
  by (cases ps) auto

lemma weights_bound: "weights ps \<le> size ps * (2 ^ 32 - 1)"
proof (induction ps)
  case (add p ps)
  have "weight (p_cost p) \<le> 2 ^ 32 - 1" using weight_less [of "p_cost p"] by simp
  with add show ?case by simp
qed simp

definition fw_used :: "fw_state \<Rightarrow> nat" where
  "fw_used s = unat (fw_reserved s) + unat (fw_spent s)"

lemma fw_maybe_reset_window_total:
  assumes "\<not> is_zero window"
  obtains s' where "fw_maybe_reset_window dbg s now window = Some s'"
    and "fw_reserved s' = fw_reserved s"
    and "fw_used s' \<le> fw_used s"
    and "fw_reserved s \<noteq> 0 \<Longrightarrow> s' = s"
    and "fw_reserved s = 0 \<Longrightarrow> saturating_add (fw_window_start s) window \<le> now \<Longrightarrow> fw_spent s' = 0"
    and "now < saturating_add (fw_window_start s) window \<Longrightarrow> s' = s"
proof -
  obtain ws where ws: "window_start_for dbg now window = Some ws"
    using window_start_for_nanos [OF assms] by blast
  show thesis
    by (rule that [of "if fw_reserved s = 0 \<and> saturating_add (fw_window_start s) window \<le> now
        then s\<lparr>fw_window_start := ws, fw_spent := 0, fw_reserved := 0\<rparr> else s"])
       (auto simp: fw_maybe_reset_window_def ws fw_used_def)
qed

lemma fw_used_simps [simp]:
  "fw_used (s\<lparr>fw_reserved := r\<rparr>) = unat r + unat (fw_spent s)"
  "fw_used (s\<lparr>fw_window_start := w\<rparr>) = fw_used s"
  by (simp_all add: fw_used_def)

text \<open>A reservation is granted exactly when the cost fits in what the window has left.\<close>

lemma fw_try_reserve_from:
  assumes "fw_maybe_reset_window dbg s0 now window = Some s"
    and used: "fw_used s < 2 ^ 32"
  shows "fw_try_reserve dbg s0 k m window c now =
    (if m = 0 then Some (s, Inl \<lparr>bd_deny = \<lparr>retry_after = window\<rparr>, bd_reason = Disabled\<rparr>)
     else if unat m < weight c then
       Some (s, Inl \<lparr>bd_deny = \<lparr>retry_after = dur_max\<rparr>, bd_reason = Unachievable\<rparr>)
     else if unat m < fw_used s + weight c then
       Some (s, Inl \<lparr>bd_deny = \<lparr>retry_after = fw_retry_after s now window\<rparr>,
                     bd_reason = WindowExhausted\<rparr>)
     else Some (s\<lparr>fw_reserved := fw_reserved s + cost_get c\<rparr>,
       Inr \<lparr>p_key = k, p_cost = c, p_window_start = fw_window_start s, p_issued_at = now,
            p_deadline = saturating_add (fw_window_start s) window,
            p_meta = MetaFixedWindow (fw_window_start s)\<rparr>))"
proof -
  have in_use: "unat (sat_add (fw_spent s) (fw_reserved s)) = fw_used s"
    using used by (simp add: unat_sat_add fw_used_def)
  have avail: "sat_sub m (sat_add (fw_spent s) (fw_reserved s)) < cost_get c \<longleftrightarrow>
      unat m < fw_used s + weight c"
  proof -
    have "unat m - fw_used s < weight c \<longleftrightarrow> unat m < fw_used s + weight c"
      using weight_pos [of c] by linarith
    then show ?thesis using in_use by (simp add: word_less_nat_alt unat_sat_sub weight_def)
  qed
  have reserve: "\<not> unat m < fw_used s + weight c \<Longrightarrow>
      sat_add (fw_reserved s) (cost_get c) = fw_reserved s + cost_get c"
    using unat_word_less [of m] by (simp add: sat_add_def fw_used_def weight_def)
  show ?thesis
    using assms(1) avail reserve
    by (simp add: fw_try_reserve_def Let_def word_less_nat_alt [of m "cost_get c"] weight_def)
qed

section \<open>What a bucket must satisfy\<close>

text \<open>
  The state of a pool agrees with the permits outstanding on it. A fixed window also knows that
  they all belong to its current window: it does not advance while one is outstanding.
\<close>

definition fw_inv :: "fw_state \<Rightarrow> permit multiset \<Rightarrow> bool" where
  "fw_inv s ps \<longleftrightarrow>
     unat (fw_reserved s) = weights ps \<and> fw_used s < 2 ^ 32 \<and>
     (\<forall>p \<in># ps. p_meta p = MetaFixedWindow (fw_window_start s))"

definition tb_inv :: "u64 \<Rightarrow> token_state \<Rightarrow> permit multiset \<Rightarrow> bool" where
  "tb_inv capacity s ps \<longleftrightarrow>
     unat (tb_in_flight s) = weights ps \<and> unat (tb_credits s) \<le> unat capacity \<and>
     (\<forall>p \<in># ps. p_meta p = MetaTokenBucket)"

fun algo_inv :: "algorithm_config \<Rightarrow> algo_state \<Rightarrow> permit multiset \<Rightarrow> bool" where
  "algo_inv (CfgFixedWindow m w) (AlgoFixedWindow s) ps \<longleftrightarrow> \<not> is_zero w \<and> fw_inv s ps"
| "algo_inv (CfgTokenBucket cap r) (AlgoTokenBucket s) ps \<longleftrightarrow> tb_inv cap s ps"
| "algo_inv _ _ _ \<longleftrightarrow> False"

definition bucket_inv :: "algorithm_config \<Rightarrow> bucket_state \<Rightarrow> permit multiset \<Rightarrow> bool" where
  "bucket_inv a b ps \<longleftrightarrow> algo_inv a (algo b) ps"

text \<open>
  The limits in force during a ramp: those of the configuration, scaled down. The sum in the
  credit pool's \<open>refund\<close> is unchecked: it fits when the capacity leaves room for a cost, and a
  build with overflow checks can panic when it does not. Only the laws that say that a refund
  returns need this; the invariant is kept either way.
\<close>

fun scaled_from :: "algorithm_config \<Rightarrow> algorithm_config \<Rightarrow> bool" where
  "scaled_from (CfgFixedWindow m w) (CfgFixedWindow m' w') \<longleftrightarrow> m' \<le> m \<and> w' = w"
| "scaled_from (CfgTokenBucket c r) (CfgTokenBucket c' r') \<longleftrightarrow> c' \<le> c \<and> r' \<le> r"
| "scaled_from _ _ \<longleftrightarrow> False"

fun refund_safe :: "bool \<Rightarrow> algorithm_config \<Rightarrow> bool" where
  "refund_safe dbg (CfgFixedWindow m w) \<longleftrightarrow> True"
| "refund_safe dbg (CfgTokenBucket c r) \<longleftrightarrow> \<not> dbg \<or> unat c + 2 ^ 32 \<le> 2 ^ 64"

definition few_permits :: "permit multiset \<Rightarrow> bool" where
  "few_permits ps \<longleftrightarrow> size ps < 2 ^ 32"

lemma few_permits_room: "few_permits ps \<Longrightarrow> weights ps + weight c < 2 ^ 64"
  using weights_bound [of ps] weight_less [of c] by (simp add: few_permits_def)

locale reservation_pool =
  fixes inv :: "'a \<Rightarrow> 's \<Rightarrow> permit multiset \<Rightarrow> bool"
    and scaled :: "'a \<Rightarrow> 'a \<Rightarrow> bool"
    and safe :: "bool \<Rightarrow> 'a \<Rightarrow> bool"
    and outstanding :: "'s \<Rightarrow> bool"
    and reserve :: "bool \<Rightarrow> 's \<Rightarrow> key \<Rightarrow> 'a \<Rightarrow> cost \<Rightarrow> duration \<Rightarrow> ('s \<times> (bucket_deny + permit)) option"
    and commit :: "bool \<Rightarrow> 's \<Rightarrow> permit \<Rightarrow> outcome \<Rightarrow> duration \<Rightarrow> 'a \<Rightarrow> 's option"
    and refund :: "bool \<Rightarrow> 's \<Rightarrow> permit \<Rightarrow> duration \<Rightarrow> 'a \<Rightarrow> 's option"
  assumes reserve_total: "inv a s ps \<Longrightarrow> scaled a a' \<Longrightarrow> \<exists>s' res. reserve dbg s k a' c now = Some (s', res)"
    and reserve_granted: "inv a s ps \<Longrightarrow> scaled a a' \<Longrightarrow> few_permits ps \<Longrightarrow>
      reserve dbg s k a' c now = Some (s', Inr p) \<Longrightarrow>
      inv a s' (add_mset p ps) \<and> p_key p = k \<and> p_cost p = c"
    and reserve_denied: "inv a s ps \<Longrightarrow> scaled a a' \<Longrightarrow>
      reserve dbg s k a' c now = Some (s', Inl d) \<Longrightarrow> inv a s' ps"
    and commit_outstanding: "inv a s ps \<Longrightarrow> p \<in># ps \<Longrightarrow>
      commit dbg s p out now a = Some s' \<Longrightarrow> inv a s' (ps - {#p#})"
    and refund_outstanding: "inv a s ps \<Longrightarrow> p \<in># ps \<Longrightarrow>
      refund dbg s p now a = Some s' \<Longrightarrow> inv a s' (ps - {#p#})"
    and commit_total: "inv a s ps \<Longrightarrow> p \<in># ps \<Longrightarrow> (out = NotSent \<Longrightarrow> safe dbg a) \<Longrightarrow>
      commit dbg s p out now a \<noteq> None"
    and refund_total: "inv a s ps \<Longrightarrow> p \<in># ps \<Longrightarrow> safe dbg a \<Longrightarrow> refund dbg s p now a \<noteq> None"
    and outstanding_iff: "inv a s ps \<Longrightarrow> outstanding s \<longleftrightarrow> ps \<noteq> {#}"
begin

text \<open>A linear use of the pool: reserve, or finalize a permit that is outstanding.\<close>

inductive use :: "bool \<Rightarrow> 'a \<Rightarrow> 's \<times> permit multiset \<Rightarrow> 's \<times> permit multiset \<Rightarrow> bool"
  for dbg a where
  use_grant: "scaled a a' \<Longrightarrow> few_permits ps \<Longrightarrow> reserve dbg s k a' c now = Some (s', Inr p) \<Longrightarrow>
    use dbg a (s, ps) (s', add_mset p ps)"
| use_deny: "scaled a a' \<Longrightarrow> reserve dbg s k a' c now = Some (s', Inl d) \<Longrightarrow>
    use dbg a (s, ps) (s', ps)"
| use_commit: "p \<in># ps \<Longrightarrow> commit dbg s p out now a = Some s' \<Longrightarrow>
    use dbg a (s, ps) (s', ps - {#p#})"
| use_refund: "p \<in># ps \<Longrightarrow> refund dbg s p now a = Some s' \<Longrightarrow>
    use dbg a (s, ps) (s', ps - {#p#})"

lemma use_inv:
  assumes "use dbg a x y" and "inv a (fst x) (snd x)"
  shows "inv a (fst y) (snd y)"
  using assms
  by (induction rule: use.induct)
     (auto dest: reserve_granted reserve_denied commit_outstanding refund_outstanding)

lemma uses_inv:
  assumes "(use dbg a)\<^sup>*\<^sup>* x y" and "inv a (fst x) (snd x)"
  shows "inv a (fst y) (snd y)"
  using assms by (induction rule: rtranclp_induct) (auto intro: use_inv)

text \<open>When every permit has been finalized, nothing is held any more.\<close>

lemma drained:
  assumes "(use dbg a)\<^sup>*\<^sup>* (s, {#}) (s', {#})" and "inv a s {#}"
  shows "\<not> outstanding s'"
  using uses_inv [OF assms(1)] assms(2) outstanding_iff by fastforce

end

section \<open>The providers\<close>

text \<open>A fixed window, with its limit and window as the algorithm.\<close>

lemma fw_inv_reset:
  assumes "fw_inv s ps" and "fw_maybe_reset_window dbg s now window = Some s'" and "\<not> is_zero window"
  shows "fw_inv s' ps"
proof -
  obtain s2 where s2: "fw_maybe_reset_window dbg s now window = Some s2"
      "fw_reserved s2 = fw_reserved s" "fw_used s2 \<le> fw_used s"
      "fw_reserved s \<noteq> 0 \<Longrightarrow> s2 = s"
    by (rule fw_maybe_reset_window_total [OF assms(3), of dbg s now]) blast
  show ?thesis
  proof (cases "ps = {#}")
    case True
    with assms(1,2) s2 show ?thesis by (auto simp: fw_inv_def)
  next
    case False
    then have "fw_reserved s \<noteq> 0" using assms(1) by (auto simp: fw_inv_def unat_eq_0)
    with assms s2 show ?thesis by simp
  qed
qed

lemma fw_reset_some:
  assumes "fw_inv s ps" and "\<not> is_zero window"
  obtains s' where "fw_maybe_reset_window dbg s now window = Some s'" and "fw_inv s' ps"
  using assms fw_inv_reset fw_maybe_reset_window_total [of window dbg s now] by metis

lemma fw_try_reserve_inv:
  assumes "fw_inv s ps" and "\<not> is_zero window" and "fw_try_reserve dbg s k m window c now = Some (s', res)"
  shows "case res of Inr p \<Rightarrow> fw_inv s' (add_mset p ps) \<and> p_key p = k \<and> p_cost p = c
    | Inl d \<Rightarrow> fw_inv s' ps"
proof -
  obtain s1 where s1: "fw_maybe_reset_window dbg s now window = Some s1" "fw_inv s1 ps"
    using fw_reset_some [OF assms(1,2)] .
  then have used: "fw_used s1 < 2 ^ 32" by (simp add: fw_inv_def)
  have grant: "unat (fw_reserved s1 + cost_get c) = unat (fw_reserved s1) + weight c"
    if "\<not> unat m < fw_used s1 + weight c"
    using that unat_word_less [of m] by (subst unat_plus_fits) (simp_all add: fw_used_def weight_def)
  show ?thesis
    using assms(3) s1(2) grant unat_word_less [of m]
    unfolding fw_try_reserve_from [OF s1(1) used]
    by (auto simp: fw_inv_def fw_used_def split: if_splits)
qed

lemma fw_finish_inv:
  assumes "fw_inv s ps" and "\<not> is_zero window" and "p \<in># ps" and "p_meta p = MetaFixedWindow ws"
  shows "\<exists>s'. fw_refund dbg s (p_cost p) ws now window = Some s' \<and> fw_inv s' (ps - {#p#})"
    and "\<exists>s'. fw_commit dbg s (p_cost p) ws out now window = Some s' \<and> fw_inv s' (ps - {#p#})"
proof -
  obtain s1 where s1: "fw_maybe_reset_window dbg s now window = Some s1" and inv: "fw_inv s1 ps"
    using fw_reset_some [OF assms(1,2)] .
  have ws: "ws = fw_window_start s1"
    using inv assms(3,4) by (auto simp: fw_inv_def)
  have le: "weight (p_cost p) \<le> unat (fw_reserved s1)"
    using inv weight_le_weights [OF assms(3)] by (simp add: fw_inv_def)
  have res: "unat (sat_sub (fw_reserved s1) (cost_get (p_cost p))) =
      unat (fw_reserved s1) - weight (p_cost p)"
    by (simp add: unat_sat_sub weight_def)
  have spent: "unat (sat_add (fw_spent s1) (cost_get (p_cost p))) =
      unat (fw_spent s1) + weight (p_cost p)"
    using inv le by (simp add: unat_sat_add fw_inv_def fw_used_def weight_def)
  have meta: "\<forall>q \<in># ps - {#p#}. p_meta q = MetaFixedWindow (fw_window_start s1)"
    using inv by (auto simp: fw_inv_def dest: in_diffD)
  note facts = inv le res spent meta weights_remove [OF assms(3)]
  show "\<exists>s'. fw_refund dbg s (p_cost p) ws now window = Some s' \<and> fw_inv s' (ps - {#p#})"
    using facts by (auto simp: fw_refund_def s1 ws fw_inv_def fw_used_def)
  have undone: "unat (sat_sub (sat_add (fw_spent s1) (cost_get (p_cost p))) (cost_get (p_cost p))) =
      unat (fw_spent s1)"
    using spent by (simp add: unat_sat_sub weight_def)
  show "\<exists>s'. fw_commit dbg s (p_cost p) ws out now window = Some s' \<and> fw_inv s' (ps - {#p#})"
    using facts undone by (auto simp: fw_commit_def s1 ws fw_inv_def fw_used_def Let_def)
qed

definition fw_commit_permit ::
  "bool \<Rightarrow> fw_state \<Rightarrow> permit \<Rightarrow> outcome \<Rightarrow> duration \<Rightarrow> u32 \<times> duration \<Rightarrow> fw_state option" where
  "fw_commit_permit dbg s p out now a =
     fw_commit dbg s (p_cost p) (meta_window_start (p_meta p)) out now (snd a)"

definition fw_refund_permit ::
  "bool \<Rightarrow> fw_state \<Rightarrow> permit \<Rightarrow> duration \<Rightarrow> u32 \<times> duration \<Rightarrow> fw_state option" where
  "fw_refund_permit dbg s p now a =
     fw_refund dbg s (p_cost p) (meta_window_start (p_meta p)) now (snd a)"

interpretation fw_pool: reservation_pool
  "\<lambda>a s ps. \<not> is_zero (snd a) \<and> fw_inv s ps" "\<lambda>a a'. fst a' \<le> fst a \<and> snd a' = snd a" "\<lambda>_ _. True"
  fw_has_outstanding "\<lambda>dbg s k a. fw_try_reserve dbg s k (fst a) (snd a)"
  fw_commit_permit fw_refund_permit
proof (unfold_locales, goal_cases)
  case (1 a s ps a' dbg k c now)
  then obtain s1 where "fw_maybe_reset_window dbg s now (snd a') = Some s1" "fw_inv s1 ps"
    by (auto elim: fw_reset_some)
  then show ?case
    using fw_try_reserve_from [of dbg s now "snd a'" s1 k "fst a'" c] by (simp add: fw_inv_def)
next
  case (2 a s ps a' dbg k c now s' p)
  then show ?case using fw_try_reserve_inv [of s ps "snd a'" dbg k "fst a'" c now s' "Inr p"] by auto
next
  case (3 a s ps a' dbg k c now s' d)
  then show ?case using fw_try_reserve_inv [of s ps "snd a'" dbg k "fst a'" c now s' "Inl d"] by auto
next
  case (4 a s ps p dbg out now s')
  then obtain ws where "p_meta p = MetaFixedWindow ws" by (auto simp: fw_inv_def)
  with 4 show ?case
    using fw_finish_inv(2) [of s ps "snd a" p ws dbg out now] by (auto simp: fw_commit_permit_def)
next
  case (5 a s ps p dbg now s')
  then obtain ws where "p_meta p = MetaFixedWindow ws" by (auto simp: fw_inv_def)
  with 5 show ?case
    using fw_finish_inv(1) [of s ps "snd a" p ws dbg now] by (auto simp: fw_refund_permit_def)
next
  case (6 a s ps p out dbg now)
  then obtain ws where "p_meta p = MetaFixedWindow ws" by (auto simp: fw_inv_def)
  with 6 show ?case
    using fw_finish_inv(2) [of s ps "snd a" p ws dbg out now] by (auto simp: fw_commit_permit_def)
next
  case (7 a s ps p dbg now)
  then obtain ws where "p_meta p = MetaFixedWindow ws" by (auto simp: fw_inv_def)
  with 7 show ?case
    using fw_finish_inv(1) [of s ps "snd a" p ws dbg now] by (auto simp: fw_refund_permit_def)
next
  case (8 a s ps)
  then show ?case by (auto simp: fw_has_outstanding_def fw_inv_def simp flip: unat_eq_0)
qed

text \<open>A credit pool, with its capacity and refill rate as the algorithm.\<close>

lemma tb_inv_refill: "tb_inv cap s ps \<Longrightarrow> unat cap' \<le> unat cap \<Longrightarrow> tb_inv cap (tb_refill s cap' r now) ps"
  by (simp add: tb_inv_def tb_refill_credits_le_capacity)

lemma token_try_reserve_inv:
  assumes "tb_inv cap s ps" and "unat cap' \<le> unat cap"
    and "token_try_reserve dbg s k cap' r c now = Some (s', res)"
  shows "case res of
      Inr p \<Rightarrow> few_permits ps \<longrightarrow> tb_inv cap s' (add_mset p ps) \<and> p_key p = k \<and> p_cost p = c
    | Inl d \<Rightarrow> tb_inv cap s' ps"
proof (cases "cap' = 0")
  case True
  with assms show ?thesis by (auto simp: token_try_reserve_def)
next
  case False
  obtain s1 r1 where s1: "tb_try_reserve dbg s cap' r c now = Some (s1, r1)"
    using tb_try_reserve_total by blast
  have inv: "tb_inv cap (tb_refill s cap' r now) ps"
    using assms(1,2) by (rule tb_inv_refill)
  show ?thesis
  proof (cases r1)
    case (Inl d)
    then have "s1 = tb_refill s cap' r now" using s1 tb_try_reserve_denied(1) by blast
    with Inl s1 inv False assms(3) show ?thesis by (auto simp: token_try_reserve_def)
  next
    case (Inr u)
    then have g: "tb_try_reserve dbg s cap' r c now = Some (s1, Inr ())" using s1 by simp
    have "tb_inv cap s1 (add_mset p ps)"
      if "few_permits ps" "p_meta p = MetaTokenBucket" "p_cost p = c" for p
      using that tb_try_reserve_granted [OF g] few_permits_room [of ps c] inv assms(1)
      by (auto simp: tb_inv_def)
    with g False assms(3) show ?thesis by (auto simp: token_try_reserve_def)
  qed
qed

lemma token_try_reserve_total: "\<exists>s' res. token_try_reserve dbg s k cap r c now = Some (s', res)"
  using tb_try_reserve_total [of dbg s cap r c now]
  by (auto simp: token_try_reserve_def split: sum.splits)

text \<open>
  A refund that returns keeps the invariant, in both profiles; it returns when the unchecked sum
  of the code fits, or when the build does not check it.
\<close>

lemma tb_refund_inv:
  assumes inv: "tb_inv cap s ps" and p: "p \<in># ps"
    and run: "tb_refund dbg s cap (p_cost p) now r = Some s'"
  shows "tb_inv cap s' (ps - {#p#})"
proof -
  have "\<forall>q \<in># ps - {#p#}. p_meta q = MetaTokenBucket"
    using inv by (auto simp: tb_inv_def dest: in_diffD)
  moreover have "unat (tb_in_flight s) - weight (p_cost p) = weights (ps - {#p#})"
    using inv weights_remove [OF p] by (simp add: tb_inv_def)
  ultimately show ?thesis
    using run by (auto simp: tb_refund_def Let_def bind_eq_Some_conv tb_inv_def unat_sat_sub unat_min)
qed

lemma tb_refund_total:
  assumes inv: "tb_inv cap s ps" and safe: "refund_safe dbg (CfgTokenBucket cap r)"
  shows "tb_refund dbg s cap c now r \<noteq> None"
proof (cases dbg)
  case True
  have "unat (tb_credits (tb_refill s cap r now)) \<le> unat cap"
    using inv tb_inv_refill [of cap s ps cap r now] by (simp add: tb_inv_def)
  with True safe weight_less [of c] have "unat (tb_credits (tb_refill s cap r now)) + weight c < 2 ^ 64"
    by simp
  with tb_refund_fits [of s cap r now c dbg] show ?thesis by auto
next
  case False
  then show ?thesis by (simp add: tb_refund_def Let_def checked_plus_def)
qed

lemma token_commit_inv:
  assumes inv: "tb_inv cap s ps" and p: "p \<in># ps"
    and run: "token_commit dbg s cap r (p_cost p) out now = Some s'"
  shows "tb_inv cap s' (ps - {#p#})"
proof (cases "out = NotSent")
  case True
  with tb_refund_inv [OF inv p] run show ?thesis by (simp add: token_commit_def)
next
  case False
  have "\<forall>q \<in># ps - {#p#}. p_meta q = MetaTokenBucket"
    using inv by (auto simp: tb_inv_def dest: in_diffD)
  with inv weights_remove [OF p] have "tb_inv cap (tb_commit s (p_cost p)) (ps - {#p#})"
    by (simp add: tb_inv_def)
  with False run show ?thesis by (cases out) (simp_all add: token_commit_def)
qed

lemma token_commit_total:
  assumes "tb_inv cap s ps" and "out = NotSent \<Longrightarrow> refund_safe dbg (CfgTokenBucket cap r)"
  shows "token_commit dbg s cap r c out now \<noteq> None"
  using assms tb_refund_total [of cap s ps dbg r c now] by (cases out) (simp_all add: token_commit_def)

interpretation token_pool: reservation_pool
  "\<lambda>a s ps. tb_inv (fst a) s ps" "\<lambda>a a'. unat (fst a') \<le> unat (fst a)"
  "\<lambda>dbg a. refund_safe dbg (CfgTokenBucket (fst a) (snd a))" tb_has_outstanding
  "\<lambda>dbg s k a. token_try_reserve dbg s k (fst a) (snd a)"
  "\<lambda>dbg s p out now a. token_commit dbg s (fst a) (snd a) (p_cost p) out now"
  "\<lambda>dbg s p now a. tb_refund dbg s (fst a) (p_cost p) now (snd a)"
proof (unfold_locales, goal_cases)
  case (1 a s ps a' dbg k c now)
  then show ?case by (rule_tac token_try_reserve_total)
next
  case (2 a s ps a' dbg k c now s' p)
  then show ?case using token_try_reserve_inv [of "fst a" s ps "fst a'" dbg k "snd a'" c now s' "Inr p"] by auto
next
  case (3 a s ps a' dbg k c now s' d)
  then show ?case using token_try_reserve_inv [of "fst a" s ps "fst a'" dbg k "snd a'" c now s' "Inl d"] by auto
next
  case (4 a s ps p dbg out now s')
  then show ?case by (intro token_commit_inv)
next
  case (5 a s ps p dbg now s')
  then show ?case by (intro tb_refund_inv)
next
  case (6 a s ps p out dbg now)
  then show ?case by (intro token_commit_total)
next
  case (7 a s ps p dbg now)
  then show ?case by (intro tb_refund_total)
next
  case (8 a s ps)
  then show ?case by (auto simp: tb_has_outstanding_def tb_inv_def simp flip: unat_eq_0)
qed

section \<open>The bucket\<close>

lemma algo_clear_expired_block [simp]: "algo (clear_expired_block b now) = algo b"
  by (simp add: clear_expired_block_def split: option.splits)

lemma algo_apply_blocked_until [simp]: "algo (apply_blocked_until b u) = algo b"
  by (simp add: apply_blocked_until_def)

lemma bucket_inv_simps [simp]:
  "bucket_inv a (clear_expired_block b now) ps \<longleftrightarrow> bucket_inv a b ps"
  "bucket_inv a (apply_blocked_until b u) ps \<longleftrightarrow> bucket_inv a b ps"
  by (simp_all add: bucket_inv_def)

text \<open>The bucket's algorithm and the configured one are of one kind, as the invariant says.\<close>

lemma algo_inv_cases:
  assumes "algo_inv a st ps"
  obtains (fixed) m w s where "a = CfgFixedWindow m w" "st = AlgoFixedWindow s"
      "\<not> is_zero w" "fw_inv s ps"
    | (tokens) cap r s where "a = CfgTokenBucket cap r" "st = AlgoTokenBucket s" "tb_inv cap s ps"
  using assms by (cases a; cases st) auto

lemma bucket_new_inv:
  assumes "valid_algorithm a"
  obtains b where "bucket_new dbg now a = Some b" and "bucket_inv a b {#}" and "blocked_until b = None"
proof (cases a)
  case (CfgFixedWindow m w)
  then obtain ws where "fw_new dbg now w = Some \<lparr>fw_window_start = ws, fw_reserved = 0, fw_spent = 0\<rparr>"
    using assms fw_new_fields [of w dbg now] by auto
  with CfgFixedWindow assms that show thesis
    by (simp add: bucket_new_def algo_new_def bucket_inv_def fw_inv_def fw_used_def)
next
  case (CfgTokenBucket cap r)
  with that show thesis
    by (simp add: bucket_new_def algo_new_def bucket_inv_def tb_inv_def tb_new_def)
qed

text \<open>A blocked bucket denies until its instant; otherwise the algorithm decides.\<close>

lemma bucket_try_reserve_eq:
  "bucket_try_reserve dbg b k a c now =
    (case blocked_until b of
       Some until \<Rightarrow>
         if now < until then
           Some (b, Inl \<lparr>bd_deny = \<lparr>retry_after = dur_minus until now\<rparr>, bd_reason = BlockedUntil\<rparr>)
         else bucket_decide dbg (b\<lparr>blocked_until := None\<rparr>) k a c now
     | None \<Rightarrow> bucket_decide dbg b k a c now)"
  by (auto simp: bucket_try_reserve_def clear_expired_block_def split: option.splits)

lemma bucket_decide_inv:
  assumes inv: "bucket_inv a b ps" and sc: "scaled_from a a'"
  obtains b' res where "bucket_decide dbg b k a' c now = Some (b', res)"
    and "blocked_until b' = blocked_until b"
    and "case res of
      Inr p \<Rightarrow> few_permits ps \<longrightarrow> bucket_inv a b' (add_mset p ps) \<and> p_key p = k \<and> p_cost p = c
    | Inl d \<Rightarrow> bucket_inv a b' ps"
  using inv [unfolded bucket_inv_def]
proof (cases rule: algo_inv_cases)
  case (fixed m w s)
  then obtain m' where a': "a' = CfgFixedWindow m' w" "m' \<le> m" using sc by (cases a') auto
  obtain s' res where s': "fw_try_reserve dbg s k m' w c now = Some (s', res)"
    using fw_pool.reserve_total [of "(m, w)" s ps "(m', w)"] fixed a' by fastforce
  then have "case res of Inr p \<Rightarrow> fw_inv s' (add_mset p ps) \<and> p_key p = k \<and> p_cost p = c
      | Inl d \<Rightarrow> fw_inv s' ps"
    using fixed by (intro fw_try_reserve_inv)
  with fixed a' s' show ?thesis
    by (intro that [of "b\<lparr>algo := AlgoFixedWindow s'\<rparr>" res])
       (auto simp: bucket_decide_def bucket_inv_def split: sum.splits)
next
  case (tokens cap r s)
  then obtain cap' r' where a': "a' = CfgTokenBucket cap' r'" "unat cap' \<le> unat cap"
    using sc by (cases a') (auto simp: word_le_nat_alt)
  obtain s' res where s': "token_try_reserve dbg s k cap' r' c now = Some (s', res)"
    using token_try_reserve_total by blast
  then have "case res of
      Inr p \<Rightarrow> few_permits ps \<longrightarrow> tb_inv cap s' (add_mset p ps) \<and> p_key p = k \<and> p_cost p = c
    | Inl d \<Rightarrow> tb_inv cap s' ps"
    using tokens a' by (intro token_try_reserve_inv)
  with tokens a' s' show ?thesis
    by (intro that [of "b\<lparr>algo := AlgoTokenBucket s'\<rparr>" res])
       (auto simp: bucket_decide_def bucket_inv_def split: sum.splits)
qed

lemma bucket_try_reserve_inv:
  assumes inv: "bucket_inv a b ps" and sc: "scaled_from a a'"
  obtains b' res where "bucket_try_reserve dbg b k a' c now = Some (b', res)"
    and "case res of
      Inr p \<Rightarrow> few_permits ps \<longrightarrow> bucket_inv a b' (add_mset p ps) \<and> p_key p = k \<and> p_cost p = c
    | Inl d \<Rightarrow> bucket_inv a b' ps"
proof -
  have clear: "bucket_inv a (b\<lparr>blocked_until := None\<rparr>) ps" using inv by (simp add: bucket_inv_def)
  show thesis
  proof (cases "\<exists>u. blocked_until b = Some u \<and> now < u")
    case True
    then obtain u where "blocked_until b = Some u" "now < u" by blast
    then show thesis
      using inv by (intro that [of b "Inl \<lparr>bd_deny = \<lparr>retry_after = dur_minus u now\<rparr>, bd_reason = BlockedUntil\<rparr>"])
        (simp_all add: bucket_try_reserve_eq)
  next
    case False
    define b1 where "b1 = (if blocked_until b = None then b else b\<lparr>blocked_until := None\<rparr>)"
    have "bucket_inv a b1 ps" using inv clear by (simp add: b1_def)
    moreover have "bucket_try_reserve dbg b k a' c now = bucket_decide dbg b1 k a' c now"
      using False by (auto simp: bucket_try_reserve_eq b1_def split: option.splits)
    moreover obtain b' res where "bucket_decide dbg b1 k a' c now = Some (b', res)"
        "case res of
          Inr p \<Rightarrow> few_permits ps \<longrightarrow> bucket_inv a b' (add_mset p ps) \<and> p_key p = k \<and> p_cost p = c
        | Inl d \<Rightarrow> bucket_inv a b' ps"
      using bucket_decide_inv [OF \<open>bucket_inv a b1 ps\<close> sc, of dbg k c now] by blast
    ultimately show thesis by (intro that [of b' res]) simp_all
  qed
qed

lemma bucket_refund_inv:
  assumes inv: "bucket_inv a b ps" and p: "p \<in># ps"
    and run: "bucket_refund dbg b p now a = Some b'"
  shows "bucket_inv a b' (ps - {#p#})"
  using inv [unfolded bucket_inv_def]
proof (cases rule: algo_inv_cases)
  case (fixed m w s)
  then obtain ws where ws: "p_meta p = MetaFixedWindow ws" using p by (auto simp: fw_inv_def)
  from run ws fixed fw_finish_inv(1) [OF fixed(4,3) p ws, of dbg now] show ?thesis
    by (auto simp: bucket_refund_def bucket_inv_def bind_eq_Some_conv)
next
  case (tokens cap r s)
  then have meta: "p_meta p = MetaTokenBucket" using p by (auto simp: tb_inv_def)
  from run meta tokens tb_refund_inv [OF tokens(3) p] show ?thesis
    by (auto simp: bucket_refund_def bucket_inv_def bind_eq_Some_conv)
qed

lemma bucket_refund_total:
  assumes inv: "bucket_inv a b ps" and p: "p \<in># ps"
    and safe: "refund_safe dbg a"
  shows "bucket_refund dbg b p now a \<noteq> None"
  using inv [unfolded bucket_inv_def]
proof (cases rule: algo_inv_cases)
  case (fixed m w s)
  then obtain ws where ws: "p_meta p = MetaFixedWindow ws" using p by (auto simp: fw_inv_def)
  from ws fixed fw_finish_inv(1) [OF fixed(4,3) p ws, of dbg now] show ?thesis
    by (auto simp: bucket_refund_def)
next
  case (tokens cap r s)
  then have meta: "p_meta p = MetaTokenBucket" using p by (auto simp: tb_inv_def)
  from safe meta tokens tb_refund_total [OF tokens(3), of dbg r "p_cost p" now] show ?thesis
    by (auto simp: bucket_refund_def)
qed

lemma bucket_commit_inv:
  assumes inv: "bucket_inv a b ps" and p: "p \<in># ps"
    and run: "bucket_commit dbg b p out now a = Some b'"
  shows "bucket_inv a b' (ps - {#p#})"
  using inv [unfolded bucket_inv_def]
proof (cases rule: algo_inv_cases)
  case (fixed m w s)
  then obtain ws where ws: "p_meta p = MetaFixedWindow ws" using p by (auto simp: fw_inv_def)
  from run ws fixed fw_finish_inv(2) [OF fixed(4,3) p ws, of dbg out now] show ?thesis
    by (auto simp: bucket_commit_def Let_def bucket_inv_def bind_eq_Some_conv split: outcome.splits scope.splits)
next
  case (tokens cap r s)
  then have meta: "p_meta p = MetaTokenBucket" using p by (auto simp: tb_inv_def)
  from run meta tokens token_commit_inv [OF tokens(3) p, of dbg r out now] show ?thesis
    by (auto simp: bucket_commit_def Let_def bucket_inv_def bind_eq_Some_conv split: outcome.splits scope.splits)
qed

lemma bucket_commit_total:
  assumes inv: "bucket_inv a b ps" and p: "p \<in># ps"
    and safe: "out = NotSent \<Longrightarrow> refund_safe dbg a"
  shows "bucket_commit dbg b p out now a \<noteq> None"
  using inv [unfolded bucket_inv_def]
proof (cases rule: algo_inv_cases)
  case (fixed m w s)
  then obtain ws where ws: "p_meta p = MetaFixedWindow ws" using p by (auto simp: fw_inv_def)
  from ws fixed fw_finish_inv(2) [OF fixed(4,3) p ws, of dbg out now] show ?thesis
    by (auto simp: bucket_commit_def Let_def split: outcome.splits scope.splits)
next
  case (tokens cap r s)
  then have meta: "p_meta p = MetaTokenBucket" using p by (auto simp: tb_inv_def)
  from safe meta tokens token_commit_total [OF tokens(3), of out dbg r "p_cost p" now] show ?thesis
    by (auto simp: bucket_commit_def Let_def split: outcome.splits scope.splits)
qed

lemma bucket_outstanding_iff:
  assumes "bucket_inv a b ps"
  shows "bucket_has_outstanding b \<longleftrightarrow> ps \<noteq> {#}"
  using assms [unfolded bucket_inv_def]
proof (cases rule: algo_inv_cases)
  case (fixed m w s)
  then show ?thesis
    using fw_pool.outstanding_iff [of "(m, w)" s ps] by (simp add: bucket_has_outstanding_def)
next
  case (tokens cap r s)
  then show ?thesis
    using token_pool.outstanding_iff [of "(cap, r)" s ps] by (simp add: bucket_has_outstanding_def)
qed

interpretation bucket_pool: reservation_pool
  bucket_inv scaled_from refund_safe bucket_has_outstanding
  bucket_try_reserve bucket_commit bucket_refund
proof (unfold_locales, goal_cases)
  case (1 a s ps a' dbg k c now)
  then show ?case using bucket_try_reserve_inv [of a s ps a' dbg k c now] by blast
next
  case (2 a s ps a' dbg k c now s' p)
  obtain b' r where "bucket_try_reserve dbg s k a' c now = Some (b', r)"
      "case r of Inr p \<Rightarrow> few_permits ps \<longrightarrow> bucket_inv a b' (add_mset p ps) \<and> p_key p = k \<and> p_cost p = c
        | Inl d \<Rightarrow> bucket_inv a b' ps"
    using bucket_try_reserve_inv [OF 2(1,2), of dbg k c now] by blast
  with 2 show ?case by simp
next
  case (3 a s ps a' dbg k c now s' d)
  obtain b' r where "bucket_try_reserve dbg s k a' c now = Some (b', r)"
      "case r of Inr p \<Rightarrow> few_permits ps \<longrightarrow> bucket_inv a b' (add_mset p ps) \<and> p_key p = k \<and> p_cost p = c
        | Inl d \<Rightarrow> bucket_inv a b' ps"
    using bucket_try_reserve_inv [OF 3(1,2), of dbg k c now] by blast
  with 3 show ?case by simp
qed (simp_all add: bucket_refund_inv bucket_refund_total bucket_commit_inv bucket_commit_total
    bucket_outstanding_iff del: not_None_eq)

end
