(* ===== verification/Limiter.thy ===== *)
theory Limiter
  imports Bucket_Pool
begin

text \<open>
  The rate limiter (\<open>src/limiter.rs\<close>): a bucket per key, created on demand and bounded in
  number, a map from route keys to bucket keys, the backoff that blocks every key, and runtime
  configuration updates. A call of the attached observer is recorded at the end of \<open>l_calls\<close>.
\<close>

section \<open>State\<close>

datatype update_config_error_kind = AlgorithmChanged | FixedWindowWindowChanged

record limiter =
  l_cfg :: config
  l_started_at :: duration
  l_route_map :: "(key, key) fmap"
  l_buckets :: "(key, bucket_state) fmap"
  l_fifo :: "key list"
  l_global_blocked_until :: "duration option"
  l_observer :: observer_id
  l_calls :: "(observer_id \<times> observer_call) list"

definition limiter_new_at :: "config \<Rightarrow> duration \<Rightarrow> limiter" where
  "limiter_new_at cfg started_at =
     \<lparr>l_cfg = cfg, l_started_at = started_at, l_route_map = fmempty, l_buckets = fmempty,
      l_fifo = [], l_global_blocked_until = None, l_observer = noop_observer, l_calls = []\<rparr>"

definition limiter_new :: "config \<Rightarrow> limiter" where
  "limiter_new cfg = limiter_new_at cfg dur_zero"

definition set_observer :: "limiter \<Rightarrow> observer_id \<Rightarrow> limiter" where
  "set_observer rl ob = rl\<lparr>l_observer := ob\<rparr>"

definition notify :: "limiter \<Rightarrow> observer_call \<Rightarrow> limiter" where
  "notify rl ev = rl\<lparr>l_calls := l_calls rl @ [(l_observer rl, ev)]\<rparr>"

definition notify_deny ::
  "limiter \<Rightarrow> key \<Rightarrow> key \<Rightarrow> cost \<Rightarrow> duration \<Rightarrow> deny \<Rightarrow> deny_reason \<Rightarrow> limiter" where
  "notify_deny rl route_key bucket_key c now d reason =
     notify rl (OnDeny \<lparr>de_route_key = route_key, de_bucket_key = bucket_key, de_cost = c,
                        de_now = now, de_deny = d, de_reason = reason\<rparr>)"

definition tracked_keys :: "limiter \<Rightarrow> nat" where
  "tracked_keys rl = fm_len (l_buckets rl)"

section \<open>Configuration updates\<close>

definition requires_no_outstanding ::
  "algorithm_config \<Rightarrow> algorithm_config \<Rightarrow> update_config_error_kind option" where
  "requires_no_outstanding old new =
     (case (old, new) of
        (CfgFixedWindow _ old_w, CfgFixedWindow _ new_w) \<Rightarrow>
          if old_w \<noteq> new_w then Some FixedWindowWindowChanged else None
      | (CfgFixedWindow _ _, CfgTokenBucket _ _) \<Rightarrow> Some AlgorithmChanged
      | (CfgTokenBucket _ _, CfgFixedWindow _ _) \<Rightarrow> Some AlgorithmChanged
      | _ \<Rightarrow> None)"

definition update_config_unchecked ::
  "bool \<Rightarrow> limiter \<Rightarrow> config \<Rightarrow> duration \<Rightarrow> limiter option" where
  "update_config_unchecked dbg rl new_cfg now =
     (let old_algo = cfg_algorithm (l_cfg rl);
          new_algo = cfg_algorithm new_cfg
      in do {
        buckets \<leftarrow> fm_update_all (\<lambda>b. bucket_on_update dbg b old_algo new_algo now) (l_buckets rl);
        Some (rl\<lparr>l_cfg := new_cfg, l_buckets := buckets\<rparr>)
      })"

definition update_config ::
  "bool \<Rightarrow> limiter \<Rightarrow> config \<Rightarrow> duration \<Rightarrow> (limiter \<times> (update_config_error_kind + unit)) option" where
  "update_config dbg rl new_cfg now =
     (let apply_it = do {
            rl' \<leftarrow> update_config_unchecked dbg rl new_cfg now;
            Some (rl', Inr ())
          }
      in case requires_no_outstanding (cfg_algorithm (l_cfg rl)) (cfg_algorithm new_cfg) of
           Some kind \<Rightarrow>
             if fm_any bucket_has_outstanding (l_buckets rl) then Some (rl, Inl kind)
             else apply_it
         | None \<Rightarrow> apply_it)"

section \<open>Keys and their bound\<close>

definition resolve_bucket_key :: "limiter \<Rightarrow> key \<Rightarrow> key" where
  "resolve_bucket_key rl route_key =
     (case fmlookup (l_route_map rl) route_key of Some k \<Rightarrow> k | None \<Rightarrow> route_key)"

definition apply_route_remap :: "limiter \<Rightarrow> key \<Rightarrow> key \<Rightarrow> limiter \<times> bool" where
  "apply_route_remap rl route_key new_bucket =
     (case cfg_max_keys (l_cfg rl) of
        Some max_keys \<Rightarrow>
          if max_keys \<le> fm_len (l_route_map rl) \<and> fmlookup (l_route_map rl) route_key = None
          then (rl, False)
          else (rl\<lparr>l_route_map := fmupd route_key new_bucket (l_route_map rl)\<rparr>, True)
      | None \<Rightarrow> (rl\<lparr>l_route_map := fmupd route_key new_bucket (l_route_map rl)\<rparr>, True))"

definition retry_after_on_new_key_deny :: "limiter \<Rightarrow> duration" where
  "retry_after_on_new_key_deny rl =
     (case cfg_algorithm (l_cfg rl) of
        CfgFixedWindow _ window \<Rightarrow> window
      | CfgTokenBucket _ _ \<Rightarrow> from_secs 1)"

text \<open>The loop over \<open>fifo\<close>: the first index whose key holds no reservation.\<close>

fun evict_index :: "(key, bucket_state) fmap \<Rightarrow> key list \<Rightarrow> nat option" where
  "evict_index m [] = None"
| "evict_index m (k # ks) =
     (case fmlookup m k of
        Some st \<Rightarrow> if bucket_has_outstanding st then map_option Suc (evict_index m ks) else Some 0
      | None \<Rightarrow> Some 0)"

definition ensure_bucket_capacity ::
  "limiter \<Rightarrow> key \<Rightarrow> key \<Rightarrow> cost \<Rightarrow> duration \<Rightarrow> limiter \<times> (deny + unit)" where
  "ensure_bucket_capacity rl route_key bucket_key c now =
     (let d = \<lparr>retry_after = retry_after_on_new_key_deny rl\<rparr>;
          denied = (notify_deny rl route_key bucket_key c now d KeyCardinalityBound, Inl d)
      in if fmlookup (l_buckets rl) bucket_key \<noteq> None then (rl, Inr ())
         else case cfg_max_keys (l_cfg rl) of
           None \<Rightarrow> (rl, Inr ())
         | Some max_keys \<Rightarrow>
             if fm_len (l_buckets rl) < max_keys then (rl, Inr ())
             else case cfg_overflow_policy (l_cfg rl) of
               DenyNewKey \<Rightarrow> denied
             | EvictOldestKey \<Rightarrow>
                 (case evict_index (l_buckets rl) (l_fifo rl) of
                    Some idx \<Rightarrow>
                      (rl\<lparr>l_fifo := remove_at idx (l_fifo rl),
                          l_buckets := fmdrop (l_fifo rl ! idx) (l_buckets rl)\<rparr>, Inr ())
                  | None \<Rightarrow> denied))"

text \<open>
  \<open>bucket_mut_or_insert\<close> returns a reference into the map; the model returns whether there is
  one, for the bucket key it was asked for.
\<close>

definition bucket_mut_or_insert ::
  "bool \<Rightarrow> limiter \<Rightarrow> key \<Rightarrow> key \<Rightarrow> duration \<Rightarrow> (limiter \<times> bool) option" where
  "bucket_mut_or_insert dbg rl route_key bucket_key now =
     (if fmlookup (l_buckets rl) bucket_key \<noteq> None then Some (rl, True)
      else case ensure_bucket_capacity rl route_key bucket_key cost_one now of
        (rl1, Inl _) \<Rightarrow> Some (rl1, False)
      | (rl1, Inr _) \<Rightarrow>
          (case fmlookup (l_buckets rl1) bucket_key of
             Some _ \<Rightarrow> Some (rl1, True)
           | None \<Rightarrow> do {
               b \<leftarrow> bucket_new dbg now (cfg_algorithm (l_cfg rl1));
               Some (rl1\<lparr>l_fifo := l_fifo rl1 @ [bucket_key],
                         l_buckets := fmupd bucket_key b (l_buckets rl1)\<rparr>, True)
             }))"

section \<open>Slow start\<close>

definition effective_algorithm :: "limiter \<Rightarrow> duration \<Rightarrow> algorithm_config" where
  "effective_algorithm rl now =
     (case cfg_slow_start (l_cfg rl) of
        None \<Rightarrow> cfg_algorithm (l_cfg rl)
      | Some slow \<Rightarrow>
          (case cfg_algorithm (l_cfg rl) of
             CfgFixedWindow max_per_window window \<Rightarrow>
               CfgFixedWindow (effective_max max_per_window slow (l_started_at rl) now) window
           | CfgTokenBucket capacity refill_per_sec \<Rightarrow>
               CfgTokenBucket (effective_u64 capacity slow (l_started_at rl) now)
                 (effective_u64 refill_per_sec slow (l_started_at rl) now)))"

definition slow_start_pre_deny ::
  "limiter \<Rightarrow> cost \<Rightarrow> duration \<Rightarrow> algorithm_config \<Rightarrow> deny option" where
  "slow_start_pre_deny rl c now effective_algo =
     (case cfg_slow_start (l_cfg rl) of
        None \<Rightarrow> None
      | Some slow \<Rightarrow>
          (case (cfg_algorithm (l_cfg rl), effective_algo) of
             (CfgFixedWindow max_cfg _, CfgFixedWindow max_eff _) \<Rightarrow>
               let ra = retry_after_for_cost max_cfg slow (l_started_at rl) now (cost_get c)
               in if max_cfg = 0 then None
                  else if max_eff = 0 then Some \<lparr>retry_after = ra\<rparr>
                  else if max_eff < cost_get c then Some \<lparr>retry_after = ra\<rparr>
                  else None
           | (CfgTokenBucket capacity _, CfgTokenBucket cap_eff _) \<Rightarrow>
               let want = ucast (cost_get c)
               in if want \<le> cap_eff then None
                  else Some \<lparr>retry_after =
                    retry_after_for_cost_u64 capacity slow (l_started_at rl) now want\<rparr>
           | _ \<Rightarrow> None))"

section \<open>The public operations\<close>

text \<open>
  \<open>reserve_entry\<close> is the \<open>match\<close> on the map entry in \<open>try_acquire\<close>: the bucket reserves,
  after it has been created and queued if its key is new.
\<close>

definition reserve_entry ::
  "bool \<Rightarrow> limiter \<Rightarrow> key \<Rightarrow> algorithm_config \<Rightarrow> cost \<Rightarrow> duration
    \<Rightarrow> (limiter \<times> (bucket_deny + permit)) option" where
  "reserve_entry dbg rl bucket_key effective_algo c now =
     (case fmlookup (l_buckets rl) bucket_key of
        Some b \<Rightarrow> do {
          (b', res) \<leftarrow> bucket_try_reserve dbg b bucket_key effective_algo c now;
          Some (rl\<lparr>l_buckets := fmupd bucket_key b' (l_buckets rl)\<rparr>, res)
        }
      | None \<Rightarrow> do {
          b \<leftarrow> bucket_new dbg now (cfg_algorithm (l_cfg rl));
          (b', res) \<leftarrow> bucket_try_reserve dbg b bucket_key effective_algo c now;
          Some (rl\<lparr>l_fifo := l_fifo rl @ [bucket_key],
                   l_buckets := fmupd bucket_key b' (l_buckets rl)\<rparr>, res)
        })"

fun observed_reason :: "bucket_deny_reason \<Rightarrow> deny_reason" where
  "observed_reason BlockedUntil = FeedbackBackoff"
| "observed_reason WindowExhausted = WindowExhaustedDeny"
| "observed_reason Disabled = DisabledDeny"
| "observed_reason Unachievable = DisabledDeny"

text \<open>
  The wait of the limiter-wide backoff, when it is in force: the \<open>if let\<close> at the head of
  \<open>try_acquire\<close>.
\<close>

definition global_wait :: "limiter \<Rightarrow> duration \<Rightarrow> duration option" where
  "global_wait rl now =
     (case l_global_blocked_until rl of
        Some until \<Rightarrow> if now < until then Some (dur_minus until now) else None
      | None \<Rightarrow> None)"

definition try_acquire ::
  "bool \<Rightarrow> limiter \<Rightarrow> key \<Rightarrow> cost \<Rightarrow> duration \<Rightarrow> (limiter \<times> (deny + permit)) option" where
  "try_acquire dbg rl route_key c now =
     (let bucket_key = resolve_bucket_key rl route_key in
      case global_wait rl now of
        Some ra \<Rightarrow>
          let d = \<lparr>retry_after = ra\<rparr> in
          Some (notify_deny rl route_key bucket_key c now d FeedbackBackoff, Inl d)
      | None \<Rightarrow>
          let effective_algo = effective_algorithm rl now in
          (case slow_start_pre_deny rl c now effective_algo of
             Some d \<Rightarrow> Some (notify_deny rl route_key bucket_key c now d SlowStartDeny, Inl d)
           | None \<Rightarrow>
               (case ensure_bucket_capacity rl route_key bucket_key c now of
                  (rl1, Inl d) \<Rightarrow> Some (rl1, Inl d)
                | (rl1, Inr _) \<Rightarrow> do {
                    (rl2, res) \<leftarrow> reserve_entry dbg rl1 bucket_key effective_algo c now;
                    (case res of
                       Inr p \<Rightarrow> Some (rl2, Inr p)
                     | Inl d \<Rightarrow>
                         Some (notify_deny rl2 route_key bucket_key c now (bd_deny d)
                                 (observed_reason (bd_reason d)), Inl (bd_deny d)))
                  })))"

definition block_globally :: "limiter \<Rightarrow> duration \<Rightarrow> limiter" where
  "block_globally rl until =
     rl\<lparr>l_global_blocked_until :=
       Some (case l_global_blocked_until rl of None \<Rightarrow> until | Some cur \<Rightarrow> max cur until)\<rparr>"

definition feedback_backoff :: "feedback \<Rightarrow> duration" where
  "feedback_backoff fb =
     (let backoff = fb_retry_after fb in
      if fb_remaining fb = Some 0 then
        (case fb_reset_after fb of
           Some reset_after \<Rightarrow> max backoff reset_after
         | None \<Rightarrow> backoff)
      else backoff)"

text \<open>
  The three stages of \<open>apply_feedback\<close>: the remap of the route, the instant the backoff is
  recorded for (limiter-wide or on the bucket of the key), and the notification.
\<close>

definition feedback_remap :: "limiter \<Rightarrow> key \<Rightarrow> feedback \<Rightarrow> limiter \<times> key option" where
  "feedback_remap rl route_key fb =
     (case fb_bucket_remap fb of
        None \<Rightarrow> (rl, None)
      | Some new_bucket \<Rightarrow>
          (case apply_route_remap rl route_key new_bucket of
             (rl1, ok) \<Rightarrow> (rl1, if ok then Some new_bucket else None)))"

definition block_key ::
  "bool \<Rightarrow> limiter \<Rightarrow> key \<Rightarrow> key \<Rightarrow> duration \<Rightarrow> duration \<Rightarrow> limiter option" where
  "block_key dbg rl route_key bucket_key until now =
     do {
       (rl', found) \<leftarrow> bucket_mut_or_insert dbg rl route_key bucket_key now;
       Some (case fmlookup (l_buckets rl') bucket_key of
           Some b \<Rightarrow>
             if found then
               rl'\<lparr>l_buckets := fmupd bucket_key (apply_blocked_until b until) (l_buckets rl')\<rparr>
             else rl'
         | None \<Rightarrow> rl')
     }"

definition apply_feedback ::
  "bool \<Rightarrow> limiter \<Rightarrow> key \<Rightarrow> feedback \<Rightarrow> duration \<Rightarrow> limiter option" where
  "apply_feedback dbg rl route_key fb now =
     (let (rl1, applied_remap) = feedback_remap rl route_key fb;
          bucket_key = resolve_bucket_key rl1 route_key;
          backoff = feedback_backoff fb;
          until = saturating_add now backoff
      in do {
        rl2 \<leftarrow> (if fb_scope fb = FbGlobal then Some (block_globally rl1 until)
          else block_key dbg rl1 route_key bucket_key until now);
        Some (notify rl2 (OnFeedback
          \<lparr>fe_route_key = route_key, fe_bucket_key = bucket_key, fe_now = now,
           fe_retry_after = backoff, fe_scope = fb_scope fb, fe_bucket_remap = applied_remap\<rparr>))
      })"

text \<open>A rate-limited outcome with global scope blocks the limiter before the permit is finalized.\<close>

definition outcome_backoff :: "limiter \<Rightarrow> outcome \<Rightarrow> duration \<Rightarrow> limiter" where
  "outcome_backoff rl out now =
     (case out of
        RateLimitedFeedback ra ScopeGlobal _ \<Rightarrow> block_globally rl (saturating_add now ra)
      | _ \<Rightarrow> rl)"

definition commit ::
  "bool \<Rightarrow> limiter \<Rightarrow> permit \<Rightarrow> outcome \<Rightarrow> duration \<Rightarrow> limiter option" where
  "commit dbg rl0 p out now =
     (let rl = outcome_backoff rl0 out now in
      case fmlookup (l_buckets rl) (p_key p) of
        Some b \<Rightarrow> do {
          b' \<leftarrow> bucket_commit dbg b p out now (cfg_algorithm (l_cfg rl));
          Some (rl\<lparr>l_buckets := fmupd (p_key p) b' (l_buckets rl)\<rparr>)
        }
      | None \<Rightarrow> Some rl)"

definition refund :: "bool \<Rightarrow> limiter \<Rightarrow> permit \<Rightarrow> duration \<Rightarrow> limiter option" where
  "refund dbg rl p now =
     (case fmlookup (l_buckets rl) (p_key p) of
        Some b \<Rightarrow> do {
          b' \<leftarrow> bucket_refund dbg b p now (cfg_algorithm (l_cfg rl));
          Some (rl\<lparr>l_buckets := fmupd (p_key p) b' (l_buckets rl)\<rparr>)
        }
      | None \<Rightarrow> Some rl)"

lemmas limiter_eval [eval_simps] =
  limiter_new_at_def limiter_new_def set_observer_def notify_def notify_deny_def tracked_keys_def
  requires_no_outstanding_def update_config_unchecked_def update_config_def resolve_bucket_key_def
  apply_route_remap_def retry_after_on_new_key_deny_def ensure_bucket_capacity_def
  bucket_mut_or_insert_def effective_algorithm_def slow_start_pre_deny_def reserve_entry_def
  global_wait_def try_acquire_def block_globally_def feedback_backoff_def feedback_remap_def
  block_key_def apply_feedback_def
  outcome_backoff_def commit_def refund_def

end
