(* ===== verification/Limiter_Invariant.thy ===== *)
theory Limiter_Invariant
  imports Limiter
begin

text \<open>
  The limiter together with the permits its client holds. Rust's ownership makes permits
  linear: one is created by \<open>try_acquire\<close> and consumed by \<open>commit\<close> or \<open>refund\<close>. The invariant
  ties the buckets to the multiset of permits that are held, and every public operation keeps
  it.
\<close>

section \<open>The invariant\<close>

definition keyed :: "key \<Rightarrow> permit multiset \<Rightarrow> permit multiset" where
  "keyed k ps = filter_mset (\<lambda>p. p_key p = k) ps"

lemma keyed_simps [simp]:
  "keyed k {#} = {#}"
  "keyed k (add_mset p ps) = (if p_key p = k then add_mset p (keyed k ps) else keyed k ps)"
  "keyed k (ps - {#p#}) = (if p_key p = k then keyed k ps - {#p#} else keyed k ps)"
  by (auto simp: keyed_def)

lemma keyed_member: "p \<in># ps \<Longrightarrow> p \<in># keyed (p_key p) ps"
  by (simp add: keyed_def)

lemma few_permits_keyed: "few_permits ps \<Longrightarrow> few_permits (keyed k ps)"
  unfolding few_permits_def keyed_def by (rule le_less_trans [OF size_filter_mset_lesseq])

definition algo_of :: "limiter \<Rightarrow> algorithm_config" where
  "algo_of rl = cfg_algorithm (l_cfg rl)"

text \<open>The part of the invariant on the buckets and their queue.\<close>

definition buckets_inv ::
  "algorithm_config \<Rightarrow> (key, bucket_state) fmap \<Rightarrow> key list \<Rightarrow> permit multiset \<Rightarrow> bool" where
  "buckets_inv a m ks ps \<longleftrightarrow>
     distinct ks \<and> set ks = fset (fmdom m) \<and>
     (\<forall>k b. fmlookup m k = Some b \<longrightarrow> bucket_inv a b (keyed k ps)) \<and>
     (\<forall>p \<in># ps. fmlookup m (p_key p) \<noteq> None)"

definition lim_inv :: "limiter \<Rightarrow> permit multiset \<Rightarrow> bool" where
  "lim_inv rl ps \<longleftrightarrow>
     valid_algorithm (algo_of rl) \<and> buckets_inv (algo_of rl) (l_buckets rl) (l_fifo rl) ps"

lemma buckets_invD:
  "buckets_inv a m ks ps \<Longrightarrow> fmlookup m k = Some b \<Longrightarrow> bucket_inv a b (keyed k ps)"
  by (auto simp: buckets_inv_def)

lemma buckets_inv_held:
  "buckets_inv a m ks ps \<Longrightarrow> p \<in># ps \<Longrightarrow> \<exists>b. fmlookup m (p_key p) = Some b"
  by (auto simp: buckets_inv_def)

lemma fset_fmdom_iff: "k \<in> fset (fmdom m) \<longleftrightarrow> fmlookup m k \<noteq> None"
  by (auto simp: fmdom_notD fmdomI)

lemma buckets_inv_length: "buckets_inv a m ks ps \<Longrightarrow> length ks = fm_len m"
  by (simp add: buckets_inv_def fm_len_def fcard.rep_eq flip: distinct_card)

text \<open>An untracked key holds no permits.\<close>

lemma buckets_inv_untracked:
  "buckets_inv a m ks ps \<Longrightarrow> fmlookup m k = None \<Longrightarrow> keyed k ps = {#}"
  by (auto simp: buckets_inv_def keyed_def)

text \<open>Replacing the state of a bucket, together with the permits of its key.\<close>

lemma buckets_inv_update:
  assumes inv: "buckets_inv a m ks ps" and k: "fmlookup m k = Some b"
    and b': "bucket_inv a b' (keyed k ps')"
    and other: "\<And>j. j \<noteq> k \<Longrightarrow> keyed j ps' = keyed j ps"
  shows "buckets_inv a (fmupd k b' m) ks ps'"
proof -
  have "fmlookup (fmupd k b' m) (p_key p) \<noteq> None" if "p \<in># ps'" for p
  proof (cases "p_key p = k")
    case False
    then have "p \<in># keyed (p_key p) ps" using other keyed_member [OF that] by metis
    then have "p \<in># ps" by (simp add: keyed_def)
    with inv False show ?thesis by (auto simp: buckets_inv_def)
  qed simp
  moreover have "k \<in> fset (fmdom m)" using k by (auto intro: fmdomI)
  ultimately show ?thesis using inv b' other by (auto simp: buckets_inv_def)
qed

lemma buckets_inv_insert:
  assumes inv: "buckets_inv a m ks ps" and k: "fmlookup m k = None"
    and b: "bucket_inv a b (keyed k ps')"
    and other: "\<And>j. j \<noteq> k \<Longrightarrow> keyed j ps' = keyed j ps"
  shows "buckets_inv a (fmupd k b m) (ks @ [k]) ps'"
proof -
  have "fmlookup (fmupd k b m) (p_key p) \<noteq> None" if "p \<in># ps'" for p
  proof (cases "p_key p = k")
    case False
    then have "p \<in># keyed (p_key p) ps" using other keyed_member [OF that] by metis
    then have "p \<in># ps" by (simp add: keyed_def)
    with inv False show ?thesis by (auto simp: buckets_inv_def)
  qed simp
  moreover have "k \<notin> set ks" using inv k by (auto simp: buckets_inv_def fmdom_notI)
  ultimately show ?thesis using inv b other by (auto simp: buckets_inv_def)
qed

section \<open>Eviction\<close>

text \<open>The index found is that of the first key in the queue that holds no reservation.\<close>

definition evictable :: "(key, bucket_state) fmap \<Rightarrow> key \<Rightarrow> bool" where
  "evictable m k \<longleftrightarrow> (case fmlookup m k of Some b \<Rightarrow> \<not> bucket_has_outstanding b | None \<Rightarrow> True)"

lemma evict_index_Some:
  "evict_index m ks = Some i \<Longrightarrow>
    i < length ks \<and> evictable m (ks ! i) \<and> (\<forall>j < i. \<not> evictable m (ks ! j))"
proof (induction ks arbitrary: i)
  case (Cons k ks)
  show ?case
  proof (cases "evictable m k")
    case True
    with Cons.prems show ?thesis by (auto simp: evictable_def split: option.splits if_splits)
  next
    case False
    then obtain i' where i': "i = Suc i'" "evict_index m ks = Some i'"
      using Cons.prems by (auto simp: evictable_def split: option.splits if_splits)
    with Cons.IH False show ?thesis by (auto simp: nth_Cons split: nat.splits)
  qed
qed simp

lemma evict_index_None: "evict_index m ks = None \<longleftrightarrow> (\<forall>k \<in> set ks. \<not> evictable m k)"
  by (induction ks) (auto simp: evictable_def split: option.splits)

lemma buckets_inv_evict:
  assumes inv: "buckets_inv a m ks ps" and i: "evict_index m ks = Some i"
  shows "buckets_inv a (fmdrop (ks ! i) m) (remove_at i ks) ps"
    and "fmlookup m (ks ! i) \<noteq> None"
proof -
  let ?k = "ks ! i"
  from evict_index_Some [OF i] have len: "i < length ks" and ev: "evictable m ?k" by auto
  then have "?k \<in> fset (fmdom m)" using inv by (metis buckets_inv_def nth_mem)
  then show some: "fmlookup m ?k \<noteq> None" by (simp add: fset_fmdom_iff)
  then obtain b where b: "fmlookup m ?k = Some b" by blast
  then have "\<not> bucket_has_outstanding b" using ev by (simp add: evictable_def)
  then have none: "keyed ?k ps = {#}"
    using bucket_pool.outstanding_iff [OF buckets_invD [OF inv b]] by simp
  then have "p_key p \<noteq> ?k" if "p \<in># ps" for p
    using that keyed_member by fastforce
  then show "buckets_inv a (fmdrop ?k m) (remove_at i ks) ps"
    using inv len by (auto simp: buckets_inv_def distinct_remove_at set_remove_at)
qed

section \<open>Every operation keeps the invariant\<close>

lemma lim_inv_simps [simp]:
  "lim_inv (notify rl ev) ps \<longleftrightarrow> lim_inv rl ps"
  "lim_inv (notify_deny rl k bk c now d r) ps \<longleftrightarrow> lim_inv rl ps"
  "lim_inv (block_globally rl u) ps \<longleftrightarrow> lim_inv rl ps"
  "lim_inv (set_observer rl ob) ps \<longleftrightarrow> lim_inv rl ps"
  "lim_inv (rl\<lparr>l_route_map := rm\<rparr>) ps \<longleftrightarrow> lim_inv rl ps"
  by (simp_all add: lim_inv_def algo_of_def notify_def notify_deny_def block_globally_def set_observer_def)

lemma limiter_frame [simp]:
  "l_cfg (notify rl ev) = l_cfg rl"
  "l_cfg (notify_deny rl k bk c now d r) = l_cfg rl"
  "l_cfg (block_globally rl u) = l_cfg rl"
  "l_buckets (notify rl ev) = l_buckets rl"
  "l_buckets (notify_deny rl k bk c now d r) = l_buckets rl"
  "l_buckets (block_globally rl u) = l_buckets rl"
  "l_fifo (notify rl ev) = l_fifo rl"
  "l_fifo (notify_deny rl k bk c now d r) = l_fifo rl"
  "l_fifo (block_globally rl u) = l_fifo rl"
  "l_global_blocked_until (notify rl ev) = l_global_blocked_until rl"
  "l_global_blocked_until (notify_deny rl k bk c now d r) = l_global_blocked_until rl"
  "l_route_map (notify rl ev) = l_route_map rl"
  "l_route_map (notify_deny rl k bk c now d r) = l_route_map rl"
  "l_route_map (block_globally rl u) = l_route_map rl"
  by (simp_all add: notify_def notify_deny_def block_globally_def)

lemma outcome_backoff_frame [simp]:
  "l_cfg (outcome_backoff rl out now) = l_cfg rl"
  "l_buckets (outcome_backoff rl out now) = l_buckets rl"
  "l_fifo (outcome_backoff rl out now) = l_fifo rl"
  "l_route_map (outcome_backoff rl out now) = l_route_map rl"
  "lim_inv (outcome_backoff rl out now) ps \<longleftrightarrow> lim_inv rl ps"
  by (simp_all add: outcome_backoff_def split: outcome.split scope.split)

lemma limiter_new_inv:
  "valid_config cfg \<Longrightarrow> lim_inv (limiter_new_at cfg t) {#}"
  by (simp add: lim_inv_def algo_of_def limiter_new_at_def buckets_inv_def valid_config_def)

lemma effective_algorithm_scaled:
  "scaled_from (algo_of rl) (effective_algorithm rl now)"
  by (cases "algo_of rl")
     (auto simp: effective_algorithm_def algo_of_def effective_max_le effective_u64_le split: option.splits)

text \<open>
  \<open>ensure_bucket_capacity\<close> changes buckets only by an eviction, and only when the key is new and
  the table is full; it then leaves room for one more.
\<close>

lemma ensure_bucket_capacity_cases:
  assumes "ensure_bucket_capacity rl rk bk c now = (rl', r)"
  obtains (known) "fmlookup (l_buckets rl) bk \<noteq> None" "rl' = rl" "r = Inr ()"
    | (room) "fmlookup (l_buckets rl) bk = None" "rl' = rl" "r = Inr ()"
        "\<And>n. cfg_max_keys (l_cfg rl) = Some n \<Longrightarrow> fm_len (l_buckets rl) < n"
    | (full) d where "fmlookup (l_buckets rl) bk = None" "r = Inl d"
        "rl' = notify_deny rl rk bk c now d KeyCardinalityBound"
        "d = \<lparr>retry_after = retry_after_on_new_key_deny rl\<rparr>"
        "\<exists>n. cfg_max_keys (l_cfg rl) = Some n \<and> n \<le> fm_len (l_buckets rl)"
        "cfg_overflow_policy (l_cfg rl) = EvictOldestKey \<Longrightarrow>
          evict_index (l_buckets rl) (l_fifo rl) = None"
    | (evicted) i where "fmlookup (l_buckets rl) bk = None" "r = Inr ()"
        "evict_index (l_buckets rl) (l_fifo rl) = Some i"
        "rl' = rl\<lparr>l_fifo := remove_at i (l_fifo rl),
                  l_buckets := fmdrop (l_fifo rl ! i) (l_buckets rl)\<rparr>"
        "cfg_overflow_policy (l_cfg rl) = EvictOldestKey"
        "\<exists>n. cfg_max_keys (l_cfg rl) = Some n \<and> n \<le> fm_len (l_buckets rl)"
proof (cases "fmlookup (l_buckets rl) bk = None \<and>
    (\<exists>n. cfg_max_keys (l_cfg rl) = Some n \<and> n \<le> fm_len (l_buckets rl))")
  case False
  then have "rl' = rl" "r = Inr ()"
    using assms by (auto simp: ensure_bucket_capacity_def Let_def split: option.splits if_splits)
  with False show thesis by (cases "fmlookup (l_buckets rl) bk = None") (auto intro: known room simp: not_le)
next
  case True
  let ?d = "\<lparr>retry_after = retry_after_on_new_key_deny rl\<rparr>"
  let ?denied = "(notify_deny rl rk bk c now ?d KeyCardinalityBound, Inl ?d) :: limiter \<times> (deny + unit)"
  show thesis
  proof (cases "cfg_overflow_policy (l_cfg rl) = DenyNewKey \<or>
      evict_index (l_buckets rl) (l_fifo rl) = None")
    case no_room: True
    then have "(rl', r) = ?denied"
      using assms True by (cases "cfg_overflow_policy (l_cfg rl)") (auto simp: ensure_bucket_capacity_def Let_def)
    with True no_room show thesis by (intro full [of ?d]) auto
  next
    case False
    then obtain i where i: "evict_index (l_buckets rl) (l_fifo rl) = Some i" by blast
    moreover have pol: "cfg_overflow_policy (l_cfg rl) = EvictOldestKey"
      using False by (cases "cfg_overflow_policy (l_cfg rl)") auto
    ultimately have "rl' = rl\<lparr>l_fifo := remove_at i (l_fifo rl),
        l_buckets := fmdrop (l_fifo rl ! i) (l_buckets rl)\<rparr>" "r = Inr ()"
      using assms True by (auto simp: ensure_bucket_capacity_def Let_def)
    with True i pol show thesis by (intro evicted [of i]) auto
  qed
qed

lemma ensure_bucket_capacity_inv:
  assumes "lim_inv rl ps" and "ensure_bucket_capacity rl rk bk c now = (rl', r)"
  shows "lim_inv rl' ps"
  using assms(2)
proof (cases rule: ensure_bucket_capacity_cases)
  case (evicted i)
  then show ?thesis
    using assms(1) buckets_inv_evict(1) [OF _ evicted(3), of "algo_of rl" ps]
    by (simp add: lim_inv_def algo_of_def)
qed (use assms(1) in simp_all)

lemma ensure_bucket_capacity_frame:
  assumes "ensure_bucket_capacity rl rk bk c now = (rl', r)"
  shows "l_cfg rl' = l_cfg rl" and "l_global_blocked_until rl' = l_global_blocked_until rl"
    and "l_route_map rl' = l_route_map rl" and "l_started_at rl' = l_started_at rl"
    and "l_observer rl' = l_observer rl"
  using assms by (auto simp: ensure_bucket_capacity_def Let_def notify_deny_def notify_def
      split: option.splits if_splits overflow_policy.splits)

lemma effective_algorithm_cong:
  "l_cfg rl' = l_cfg rl \<Longrightarrow> l_started_at rl' = l_started_at rl \<Longrightarrow>
    effective_algorithm rl' now = effective_algorithm rl now"
  by (simp add: effective_algorithm_def split: option.splits algorithm_config.splits)

text \<open>Reserving in the bucket of a key, which is created first when it is new.\<close>

lemma reserve_entry_inv:
  assumes inv: "lim_inv rl ps" and sc: "scaled_from (algo_of rl) ea"
  obtains rl' res where "reserve_entry dbg rl bk ea c now = Some (rl', res)"
    and "l_cfg rl' = l_cfg rl"
    and "case res of
      Inr p \<Rightarrow> few_permits ps \<longrightarrow> lim_inv rl' (add_mset p ps) \<and> p_key p = bk \<and> p_cost p = c
    | Inl d \<Rightarrow> lim_inv rl' ps"
proof -
  let ?a = "algo_of rl"
  have bi: "buckets_inv ?a (l_buckets rl) (l_fifo rl) ps" and va: "valid_algorithm ?a"
    using inv by (simp_all add: lim_inv_def)
  show thesis
  proof (cases "fmlookup (l_buckets rl) bk")
    case (Some b)
    obtain b' res where b': "bucket_try_reserve dbg b bk ea c now = Some (b', res)"
        "case res of
          Inr p \<Rightarrow> few_permits (keyed bk ps) \<longrightarrow>
            bucket_inv ?a b' (add_mset p (keyed bk ps)) \<and> p_key p = bk \<and> p_cost p = c
        | Inl d \<Rightarrow> bucket_inv ?a b' (keyed bk ps)"
      using bucket_try_reserve_inv [OF buckets_invD [OF bi Some] sc, of dbg bk c now] by blast
    let ?rl = "rl\<lparr>l_buckets := fmupd bk b' (l_buckets rl)\<rparr>"
    have "case res of
        Inr p \<Rightarrow> few_permits ps \<longrightarrow> lim_inv ?rl (add_mset p ps) \<and> p_key p = bk \<and> p_cost p = c
      | Inl d \<Rightarrow> lim_inv ?rl ps"
      using b'(2) inv few_permits_keyed [of ps bk]
        buckets_inv_update [OF bi Some, of b' ps] buckets_inv_update [OF bi Some, of b' "add_mset p ps" for p]
      by (auto simp: lim_inv_def algo_of_def split: sum.splits)
    with Some b' show thesis by (intro that [of ?rl res]) (simp_all add: reserve_entry_def)
  next
    case None
    obtain b where b: "bucket_new dbg now ?a = Some b" "bucket_inv ?a b {#}"
      using bucket_new_inv [OF va, of dbg now] by blast
    obtain b' res where b': "bucket_try_reserve dbg b bk ea c now = Some (b', res)"
        "case res of
          Inr p \<Rightarrow> few_permits {#} \<longrightarrow>
            bucket_inv ?a b' (add_mset p {#}) \<and> p_key p = bk \<and> p_cost p = c
        | Inl d \<Rightarrow> bucket_inv ?a b' {#}"
      using bucket_try_reserve_inv [OF b(2) sc, of dbg bk c now] by blast
    let ?rl = "rl\<lparr>l_fifo := l_fifo rl @ [bk], l_buckets := fmupd bk b' (l_buckets rl)\<rparr>"
    have few: "few_permits {#}" by (simp add: few_permits_def)
    have "case res of
        Inr p \<Rightarrow> few_permits ps \<longrightarrow> lim_inv ?rl (add_mset p ps) \<and> p_key p = bk \<and> p_cost p = c
      | Inl d \<Rightarrow> lim_inv ?rl ps"
      using b'(2) inv few buckets_inv_untracked [OF bi None]
        buckets_inv_insert [OF bi None, of b' ps] buckets_inv_insert [OF bi None, of b' "add_mset p ps" for p]
      by (auto simp: lim_inv_def algo_of_def split: sum.splits)
    with None b b' show thesis
      by (intro that [of ?rl res]) (simp_all add: reserve_entry_def algo_of_def)
  qed
qed

text \<open>The five ways \<open>try_acquire\<close> can end.\<close>

lemma try_acquire_cases:
  assumes "try_acquire dbg rl k c now = Some (rl', res)"
  obtains (blocked) ra where "global_wait rl now = Some ra" "res = Inl \<lparr>retry_after = ra\<rparr>"
        "rl' = notify_deny rl k (resolve_bucket_key rl k) c now \<lparr>retry_after = ra\<rparr> FeedbackBackoff"
    | (ramping) d where "global_wait rl now = None" "res = Inl d"
        "slow_start_pre_deny rl c now (effective_algorithm rl now) = Some d"
        "rl' = notify_deny rl k (resolve_bucket_key rl k) c now d SlowStartDeny"
    | (full) d where "global_wait rl now = None" "res = Inl d"
        "slow_start_pre_deny rl c now (effective_algorithm rl now) = None"
        "ensure_bucket_capacity rl k (resolve_bucket_key rl k) c now = (rl', Inl d)"
    | (refused) rl1 rl2 d where "global_wait rl now = None" "res = Inl (bd_deny d)"
        "slow_start_pre_deny rl c now (effective_algorithm rl now) = None"
        "ensure_bucket_capacity rl k (resolve_bucket_key rl k) c now = (rl1, Inr ())"
        "reserve_entry dbg rl1 (resolve_bucket_key rl k) (effective_algorithm rl now) c now = Some (rl2, Inl d)"
        "rl' = notify_deny rl2 k (resolve_bucket_key rl k) c now (bd_deny d) (observed_reason (bd_reason d))"
    | (permitted) rl1 p where "global_wait rl now = None" "res = Inr p"
        "slow_start_pre_deny rl c now (effective_algorithm rl now) = None"
        "ensure_bucket_capacity rl k (resolve_bucket_key rl k) c now = (rl1, Inr ())"
        "reserve_entry dbg rl1 (resolve_bucket_key rl k) (effective_algorithm rl now) c now = Some (rl', Inr p)"
proof (cases "global_wait rl now")
  case (Some ra)
  with assms show thesis by (intro blocked) (auto simp: try_acquire_def Let_def)
next
  case gw: None
  show thesis
  proof (cases "slow_start_pre_deny rl c now (effective_algorithm rl now)")
    case (Some d)
    with gw assms show thesis by (intro ramping) (auto simp: try_acquire_def Let_def)
  next
    case ss: None
    obtain rl1 r where e: "ensure_bucket_capacity rl k (resolve_bucket_key rl k) c now = (rl1, r)"
      by fastforce
    show thesis
    proof (cases r)
      case (Inl d)
      with gw ss e assms show thesis by (intro full) (auto simp: try_acquire_def Let_def)
    next
      case (Inr u)
      with gw ss e assms obtain rl2 res2 where
          r2: "reserve_entry dbg rl1 (resolve_bucket_key rl k) (effective_algorithm rl now) c now = Some (rl2, res2)"
        by (auto simp: try_acquire_def Let_def bind_eq_Some_conv)
      show thesis
      proof (cases res2)
        case (Inl d)
        with gw ss e Inr r2 assms show thesis by (intro refused) (auto simp: try_acquire_def Let_def)
      next
        case r: (Inr p)
        with gw ss e Inr r2 assms show thesis by (intro permitted) (auto simp: try_acquire_def Let_def)
      qed
    qed
  qed
qed

lemma try_acquire_inv:
  assumes inv: "lim_inv rl ps"
  obtains rl' res where "try_acquire dbg rl rk c now = Some (rl', res)"
    and "l_cfg rl' = l_cfg rl"
    and "case res of
      Inr p \<Rightarrow> few_permits ps \<longrightarrow>
        lim_inv rl' (add_mset p ps) \<and> p_key p = resolve_bucket_key rl rk \<and> p_cost p = c
    | Inl d \<Rightarrow> lim_inv rl' ps"
proof (cases "global_wait rl now")
  case (Some ra)
  with inv show thesis
    by (intro that [of "notify_deny rl rk (resolve_bucket_key rl rk) c now \<lparr>retry_after = ra\<rparr> FeedbackBackoff"
        "Inl \<lparr>retry_after = ra\<rparr>"]) (simp_all add: try_acquire_def Let_def)
next
  case gw: None
  let ?bk = "resolve_bucket_key rl rk" and ?ea = "effective_algorithm rl now"
  show thesis
  proof (cases "slow_start_pre_deny rl c now ?ea")
    case (Some d)
    with gw inv show thesis
      by (intro that [of "notify_deny rl rk ?bk c now d SlowStartDeny" "Inl d"])
         (simp_all add: try_acquire_def Let_def)
  next
    case ss: None
    obtain rl1 r1 where e: "ensure_bucket_capacity rl rk ?bk c now = (rl1, r1)" by fastforce
    have inv1: "lim_inv rl1 ps" using inv e by (rule ensure_bucket_capacity_inv)
    note fr = ensure_bucket_capacity_frame [OF e]
    show thesis
    proof (cases r1)
      case (Inl d)
      with gw ss e inv1 fr show thesis by (intro that [of rl1 "Inl d"]) (simp_all add: try_acquire_def Let_def)
    next
      case (Inr u)
      have "scaled_from (algo_of rl1) ?ea"
        using effective_algorithm_scaled [of rl now] fr by (simp add: algo_of_def)
      then obtain rl2 res where r: "reserve_entry dbg rl1 ?bk ?ea c now = Some (rl2, res)"
          "l_cfg rl2 = l_cfg rl1"
          "case res of
            Inr p \<Rightarrow> few_permits ps \<longrightarrow> lim_inv rl2 (add_mset p ps) \<and> p_key p = ?bk \<and> p_cost p = c
          | Inl d \<Rightarrow> lim_inv rl2 ps"
        using reserve_entry_inv [OF inv1, of ?ea dbg ?bk c now] by blast
      then show thesis
        using gw ss e Inr fr that by (cases res) (simp_all add: try_acquire_def Let_def)
    qed
  qed
qed

text \<open>
  Finalizing a permit that is held consumes exactly that permit. A commit of anything but
  \<open>NotSent\<close> always returns; a refund, and the commit of \<open>NotSent\<close> that is one, can stop only
  at the unchecked sum of the credit pool.
\<close>

lemma commit_inv:
  assumes inv: "lim_inv rl ps" and p: "p \<in># ps" and run: "commit dbg rl p out now = Some rl'"
  shows "lim_inv rl' (ps - {#p#})" and "l_cfg rl' = l_cfg rl"
proof -
  define rl0 where "rl0 = outcome_backoff rl out now"
  have rl0: "l_cfg rl0 = l_cfg rl" "l_buckets rl0 = l_buckets rl" "lim_inv rl0 ps"
    using inv by (simp_all add: rl0_def)
  then have bi: "buckets_inv (algo_of rl0) (l_buckets rl0) (l_fifo rl0) ps" by (simp add: lim_inv_def)
  obtain b where b: "fmlookup (l_buckets rl0) (p_key p) = Some b"
    using buckets_inv_held [OF bi p] by blast
  then obtain b' where b': "bucket_commit dbg b p out now (algo_of rl0) = Some b'"
      and rl': "rl' = rl0\<lparr>l_buckets := fmupd (p_key p) b' (l_buckets rl0)\<rparr>"
    using run by (auto simp: commit_def algo_of_def bind_eq_Some_conv simp flip: rl0_def)
  have "bucket_inv (algo_of rl0) b' (keyed (p_key p) ps - {#p#})"
    using buckets_invD [OF bi b] keyed_member [OF p] b' by (rule bucket_commit_inv)
  then have "buckets_inv (algo_of rl0) (fmupd (p_key p) b' (l_buckets rl0)) (l_fifo rl0) (ps - {#p#})"
    by (intro buckets_inv_update [OF bi b]) simp_all
  with rl0 rl' show "lim_inv rl' (ps - {#p#})" and "l_cfg rl' = l_cfg rl"
    by (simp_all add: lim_inv_def algo_of_def)
qed

lemma commit_total:
  assumes inv: "lim_inv rl ps" and p: "p \<in># ps"
    and safe: "out = NotSent \<Longrightarrow> refund_safe dbg (algo_of rl)"
  shows "commit dbg rl p out now \<noteq> None"
proof -
  define rl0 where "rl0 = outcome_backoff rl out now"
  have rl0: "algo_of rl0 = algo_of rl" "l_buckets rl0 = l_buckets rl" "lim_inv rl0 ps"
    using inv by (simp_all add: rl0_def algo_of_def)
  then have bi: "buckets_inv (algo_of rl0) (l_buckets rl0) (l_fifo rl0) ps" by (simp add: lim_inv_def)
  obtain b where b: "fmlookup (l_buckets rl0) (p_key p) = Some b"
    using buckets_inv_held [OF bi p] by blast
  have "bucket_commit dbg b p out now (algo_of rl0) \<noteq> None"
    using buckets_invD [OF bi b] keyed_member [OF p] safe unfolding rl0(1) by (rule bucket_commit_total)
  with b show ?thesis by (auto simp: commit_def algo_of_def simp flip: rl0_def)
qed

lemma refund_inv:
  assumes inv: "lim_inv rl ps" and p: "p \<in># ps" and run: "refund dbg rl p now = Some rl'"
  shows "lim_inv rl' (ps - {#p#})" and "l_cfg rl' = l_cfg rl"
proof -
  have bi: "buckets_inv (algo_of rl) (l_buckets rl) (l_fifo rl) ps" using inv by (simp add: lim_inv_def)
  obtain b where b: "fmlookup (l_buckets rl) (p_key p) = Some b"
    using buckets_inv_held [OF bi p] by blast
  then obtain b' where b': "bucket_refund dbg b p now (algo_of rl) = Some b'"
      and rl': "rl' = rl\<lparr>l_buckets := fmupd (p_key p) b' (l_buckets rl)\<rparr>"
    using run by (auto simp: refund_def algo_of_def bind_eq_Some_conv)
  have "bucket_inv (algo_of rl) b' (keyed (p_key p) ps - {#p#})"
    using buckets_invD [OF bi b] keyed_member [OF p] b' by (rule bucket_refund_inv)
  then have "buckets_inv (algo_of rl) (fmupd (p_key p) b' (l_buckets rl)) (l_fifo rl) (ps - {#p#})"
    by (intro buckets_inv_update [OF bi b]) simp_all
  with inv rl' show "lim_inv rl' (ps - {#p#})" and "l_cfg rl' = l_cfg rl"
    by (simp_all add: lim_inv_def algo_of_def)
qed

lemma refund_total:
  assumes inv: "lim_inv rl ps" and p: "p \<in># ps" and safe: "refund_safe dbg (algo_of rl)"
  shows "refund dbg rl p now \<noteq> None"
proof -
  have bi: "buckets_inv (algo_of rl) (l_buckets rl) (l_fifo rl) ps" using inv by (simp add: lim_inv_def)
  obtain b where b: "fmlookup (l_buckets rl) (p_key p) = Some b"
    using buckets_inv_held [OF bi p] by blast
  have "bucket_refund dbg b p now (algo_of rl) \<noteq> None"
    using buckets_invD [OF bi b] keyed_member [OF p] safe by (rule bucket_refund_total)
  with b show ?thesis by (auto simp: refund_def algo_of_def)
qed

lemma bucket_mut_or_insert_inv:
  assumes inv: "lim_inv rl ps"
  obtains rl' found where "bucket_mut_or_insert dbg rl rk bk now = Some (rl', found)"
    and "l_cfg rl' = l_cfg rl" and "lim_inv rl' ps"
    and "found \<longleftrightarrow> fmlookup (l_buckets rl') bk \<noteq> None"
proof (cases "fmlookup (l_buckets rl) bk")
  case (Some b)
  with inv that show thesis by (auto simp: bucket_mut_or_insert_def)
next
  case None
  obtain rl1 r where e: "ensure_bucket_capacity rl rk bk cost_one now = (rl1, r)" by fastforce
  have inv1: "lim_inv rl1 ps" using inv e by (rule ensure_bucket_capacity_inv)
  note cfg1 = ensure_bucket_capacity_frame(1) [OF e]
  have none1: "fmlookup (l_buckets rl1) bk = None"
    using e None by (cases rule: ensure_bucket_capacity_cases) auto
  show thesis
  proof (cases r)
    case (Inl d)
    with None e inv1 cfg1 none1 that show thesis by (auto simp: bucket_mut_or_insert_def)
  next
    case (Inr u)
    have bi: "buckets_inv (algo_of rl1) (l_buckets rl1) (l_fifo rl1) ps"
      and va: "valid_algorithm (algo_of rl1)" using inv1 by (simp_all add: lim_inv_def)
    obtain b where b: "bucket_new dbg now (algo_of rl1) = Some b" "bucket_inv (algo_of rl1) b {#}"
      using bucket_new_inv [OF va, of dbg now] by blast
    then have "buckets_inv (algo_of rl1) (fmupd bk b (l_buckets rl1)) (l_fifo rl1 @ [bk]) ps"
      using buckets_inv_insert [OF bi none1, of b ps] buckets_inv_untracked [OF bi none1] by simp
    with None e Inr none1 b inv1 cfg1 show thesis
      by (intro that [of "rl1\<lparr>l_fifo := l_fifo rl1 @ [bk], l_buckets := fmupd bk b (l_buckets rl1)\<rparr>" True])
         (simp_all add: bucket_mut_or_insert_def algo_of_def lim_inv_def)
  qed
qed

lemma apply_route_remap_frame:
  assumes "apply_route_remap rl rk nb = (rl', ok)"
  shows "l_cfg rl' = l_cfg rl" and "lim_inv rl' ps \<longleftrightarrow> lim_inv rl ps"
    and "l_buckets rl' = l_buckets rl" and "l_fifo rl' = l_fifo rl"
    and "l_global_blocked_until rl' = l_global_blocked_until rl"
  using assms by (auto simp: apply_route_remap_def split: option.splits if_splits)

lemma feedback_remap_frame:
  assumes "feedback_remap rl k fb = (rl', ar)"
  shows "l_cfg rl' = l_cfg rl" and "lim_inv rl' ps \<longleftrightarrow> lim_inv rl ps"
    and "l_buckets rl' = l_buckets rl" and "l_fifo rl' = l_fifo rl"
    and "l_global_blocked_until rl' = l_global_blocked_until rl"
  using assms
  by (auto simp: feedback_remap_def split: option.splits prod.splits dest: apply_route_remap_frame)

lemma block_key_inv:
  assumes inv: "lim_inv rl ps"
  obtains rl' where "block_key dbg rl rk bk u now = Some rl'" and "l_cfg rl' = l_cfg rl"
    and "lim_inv rl' ps"
proof -
  obtain rl2 found where m: "bucket_mut_or_insert dbg rl rk bk now = Some (rl2, found)"
      "l_cfg rl2 = l_cfg rl" "lim_inv rl2 ps" "found \<longleftrightarrow> fmlookup (l_buckets rl2) bk \<noteq> None"
    using bucket_mut_or_insert_inv [OF inv] .
  have "lim_inv (rl2\<lparr>l_buckets := fmupd bk (apply_blocked_until b u) (l_buckets rl2)\<rparr>) ps"
    if b: "fmlookup (l_buckets rl2) bk = Some b" for b
  proof -
    have bi: "buckets_inv (algo_of rl2) (l_buckets rl2) (l_fifo rl2) ps"
      using m(3) by (simp add: lim_inv_def)
    then have "buckets_inv (algo_of rl2) (fmupd bk (apply_blocked_until b u) (l_buckets rl2)) (l_fifo rl2) ps"
      by (rule buckets_inv_update [OF _ b]) (simp_all add: buckets_invD [OF bi b])
    with m(3) show ?thesis by (simp add: lim_inv_def algo_of_def)
  qed
  with m that show thesis by (cases "fmlookup (l_buckets rl2) bk") (auto simp: block_key_def)
qed

lemma apply_feedback_cases:
  assumes "apply_feedback dbg rl k fb now = Some rl'"
  obtains (global_scope) rl1 ar ev where "feedback_remap rl k fb = (rl1, ar)" "fb_scope fb = FbGlobal"
        "rl' = notify (block_globally rl1 (saturating_add now (feedback_backoff fb))) (OnFeedback ev)"
    | (key_scope) rl1 ar rl2 ev where "feedback_remap rl k fb = (rl1, ar)" "fb_scope fb \<noteq> FbGlobal"
        "block_key dbg rl1 k (resolve_bucket_key rl1 k) (saturating_add now (feedback_backoff fb)) now = Some rl2"
        "rl' = notify rl2 (OnFeedback ev)"
  using assms by (cases "feedback_remap rl k fb")
    (auto simp: apply_feedback_def Let_def bind_eq_Some_conv split: if_splits)

lemma apply_feedback_inv:
  assumes inv: "lim_inv rl ps"
  obtains rl' where "apply_feedback dbg rl rk fb now = Some rl'" and "l_cfg rl' = l_cfg rl"
    and "lim_inv rl' ps"
proof -
  obtain rl1 ar where rm: "feedback_remap rl rk fb = (rl1, ar)" by fastforce
  note fr = feedback_remap_frame [OF rm]
  then have inv1: "lim_inv rl1 ps" using inv by simp
  obtain rl2 where "block_key dbg rl1 rk (resolve_bucket_key rl1 rk)
      (saturating_add now (feedback_backoff fb)) now = Some rl2" "l_cfg rl2 = l_cfg rl1" "lim_inv rl2 ps"
    using block_key_inv [OF inv1] .
  with rm fr(1) inv1 that show thesis
    by (cases "fb_scope fb = FbGlobal") (auto simp: apply_feedback_def Let_def)
qed

section \<open>Configuration updates\<close>

lemma bucket_on_update_inv:
  assumes inv: "bucket_inv old b ps" and va: "valid_algorithm new"
    and none: "requires_no_outstanding old new \<noteq> None \<Longrightarrow> ps = {#}"
  obtains b' where "bucket_on_update dbg b old new now = Some b'" and "bucket_inv new b' ps"
  using inv [unfolded bucket_inv_def]
proof (cases rule: algo_inv_cases)
  case (fixed m w s)
  show thesis
  proof (cases new)
    case new: (CfgFixedWindow m' w')
    show thesis
    proof (cases "w = w'")
      case True
      with fixed new that show thesis by (simp add: bucket_on_update_def Let_def bucket_inv_def)
    next
      case False
      then have "ps = {#}" using none fixed new by (simp add: requires_no_outstanding_def)
      then have out: "\<not> fw_has_outstanding s"
        using fixed by (simp add: fw_has_outstanding_def fw_inv_def flip: unat_eq_0)
      obtain ws where "window_start_for dbg now w' = Some ws"
        using window_start_for_nanos [of w' dbg now] va new by auto
      with False out fixed new va \<open>ps = {#}\<close> that show thesis
        by (auto simp: bucket_on_update_def Let_def bucket_inv_def fw_inv_def fw_used_def)
    qed
  next
    case new: (CfgTokenBucket cap' r')
    then have "ps = {#}" using none fixed by (simp add: requires_no_outstanding_def)
    then have "\<not> fw_has_outstanding s"
      using fixed by (simp add: fw_has_outstanding_def fw_inv_def flip: unat_eq_0)
    with fixed new \<open>ps = {#}\<close> that show thesis
      by (auto simp: bucket_on_update_def Let_def bucket_inv_def bucket_has_outstanding_def
          algo_new_def tb_inv_def tb_new_def)
  qed
next
  case (tokens cap r s)
  show thesis
  proof (cases new)
    case new: (CfgFixedWindow m' w')
    then have "ps = {#}" using none tokens by (simp add: requires_no_outstanding_def)
    then have out: "\<not> tb_has_outstanding s"
      using tokens by (simp add: tb_has_outstanding_def tb_inv_def flip: unat_eq_0)
    obtain ws where "fw_new dbg now w' = Some \<lparr>fw_window_start = ws, fw_reserved = 0, fw_spent = 0\<rparr>"
      using fw_new_fields [of w' dbg now] va new by auto
    with tokens new va out \<open>ps = {#}\<close> that show thesis
      by (auto simp: bucket_on_update_def Let_def bucket_inv_def bucket_has_outstanding_def
          algo_new_def fw_inv_def fw_used_def)
  next
    case new: (CfgTokenBucket cap' r')
    with tokens that show thesis
      by (auto simp: bucket_on_update_def Let_def bucket_inv_def tb_inv_def tb_apply_capacity_change_le)
  qed
qed

lemma update_config_inv:
  assumes inv: "lim_inv rl ps" and va: "valid_config new_cfg"
  obtains (rejected) kind where "update_config dbg rl new_cfg now = Some (rl, Inl kind)"
      "requires_no_outstanding (algo_of rl) (cfg_algorithm new_cfg) = Some kind" "ps \<noteq> {#}"
    | (applied) rl' where "update_config dbg rl new_cfg now = Some (rl', Inr ())"
      "lim_inv rl' ps" "l_cfg rl' = new_cfg"
      "fmdom (l_buckets rl') = fmdom (l_buckets rl)"
      "requires_no_outstanding (algo_of rl) (cfg_algorithm new_cfg) \<noteq> None \<Longrightarrow> ps = {#}"
proof -
  let ?old = "algo_of rl" and ?new = "cfg_algorithm new_cfg"
  let ?f = "\<lambda>b. bucket_on_update dbg b ?old ?new now"
  have bi: "buckets_inv ?old (l_buckets rl) (l_fifo rl) ps" using inv by (simp add: lim_inv_def)
  have out: "fm_any bucket_has_outstanding (l_buckets rl) \<longleftrightarrow> ps \<noteq> {#}"
  proof
    assume "fm_any bucket_has_outstanding (l_buckets rl)"
    then obtain k b where "fmlookup (l_buckets rl) k = Some b" "bucket_has_outstanding b"
      by (auto simp: fm_any_iff)
    then have "keyed k ps \<noteq> {#}"
      using bucket_pool.outstanding_iff buckets_invD [OF bi] by blast
    then show "ps \<noteq> {#}" by auto
  next
    assume "ps \<noteq> {#}"
    then obtain p where p: "p \<in># ps" by blast
    then obtain b where b: "fmlookup (l_buckets rl) (p_key p) = Some b"
      using buckets_inv_held [OF bi] by blast
    have "bucket_has_outstanding b"
      using bucket_pool.outstanding_iff [OF buckets_invD [OF bi b]] keyed_member [OF p] by auto
    with b show "fm_any bucket_has_outstanding (l_buckets rl)" by (auto simp: fm_any_iff)
  qed
  show thesis
  proof (cases "requires_no_outstanding ?old ?new \<noteq> None \<and> ps \<noteq> {#}")
    case True
    then obtain kind where "requires_no_outstanding ?old ?new = Some kind" by blast
    with True show thesis using out
      by (intro rejected [of kind]) (auto simp: update_config_def Let_def algo_of_def split: option.splits)
  next
    case False
    have each: "\<exists>b'. ?f b = Some b' \<and> bucket_inv ?new b' (keyed k ps)"
      if "fmlookup (l_buckets rl) k = Some b" for k b
      using bucket_on_update_inv [OF buckets_invD [OF bi that], of ?new dbg now] va False
      by (fastforce simp: valid_config_def)
    then obtain m where m: "fm_update_all ?f (l_buckets rl) = Some m"
      using fm_update_all_total [of "l_buckets rl" ?f] by fastforce
    note m' = fm_update_all_Some [OF m]
    have "buckets_inv ?new m (l_fifo rl) ps"
      using bi each by (fastforce simp: buckets_inv_def m' bind_eq_Some_conv)
    then have "lim_inv (rl\<lparr>l_cfg := new_cfg, l_buckets := m\<rparr>) ps"
      using va by (simp add: lim_inv_def algo_of_def valid_config_def)
    moreover have "update_config dbg rl new_cfg now = Some (rl\<lparr>l_cfg := new_cfg, l_buckets := m\<rparr>, Inr ())"
      using False out m
      by (auto simp: update_config_def update_config_unchecked_def Let_def algo_of_def split: option.splits)
    ultimately show thesis using False m'(1)
      by (intro applied [of "rl\<lparr>l_cfg := new_cfg, l_buckets := m\<rparr>"]) auto
  qed
qed

section \<open>The client and the reachable states\<close>

text \<open>
  One call of the public interface, by a client that holds the permits \<open>ps\<close>. Only permits that
  are held can be finalized (Rust's move semantics), and at most \<open>2^32\<close> of them are held at a
  time. Every configuration the constructors build can be installed. Instants are arbitrary:
  nothing assumes that they grow. \<open>update_config_unchecked\<close> is \<open>update_config\<close> without its
  check, for a caller that promises that the check would pass, so it adds no step.
\<close>

inductive client_step ::
  "bool \<Rightarrow> limiter \<times> permit multiset \<Rightarrow> limiter \<times> permit multiset \<Rightarrow> bool" for dbg where
  granted: "few_permits ps \<Longrightarrow> try_acquire dbg rl k c now = Some (rl', Inr p) \<Longrightarrow>
    client_step dbg (rl, ps) (rl', add_mset p ps)"
| denied: "try_acquire dbg rl k c now = Some (rl', Inl d) \<Longrightarrow>
    client_step dbg (rl, ps) (rl', ps)"
| committed: "p \<in># ps \<Longrightarrow> commit dbg rl p out now = Some rl' \<Longrightarrow>
    client_step dbg (rl, ps) (rl', ps - {#p#})"
| refunded: "p \<in># ps \<Longrightarrow> refund dbg rl p now = Some rl' \<Longrightarrow>
    client_step dbg (rl, ps) (rl', ps - {#p#})"
| feedback: "apply_feedback dbg rl k fb now = Some rl' \<Longrightarrow>
    client_step dbg (rl, ps) (rl', ps)"
| updated: "built cfg \<Longrightarrow> update_config dbg rl cfg now = Some (rl', res) \<Longrightarrow>
    client_step dbg (rl, ps) (rl', ps)"
| observed: "client_step dbg (rl, ps) (set_observer rl ob, ps)"

inductive reachable :: "bool \<Rightarrow> limiter \<Rightarrow> permit multiset \<Rightarrow> bool" for dbg where
  start: "built cfg \<Longrightarrow> reachable dbg (limiter_new_at cfg t) {#}"
| step: "reachable dbg rl ps \<Longrightarrow> client_step dbg (rl, ps) (rl', ps') \<Longrightarrow> reachable dbg rl' ps'"

inductive_cases client_stepE: "client_step dbg (rl, ps) (rl', ps')"

text \<open>The same facts for a call that is known to have returned.\<close>

lemma try_acquire_result:
  assumes "try_acquire dbg rl k c now = Some (rl', res)" and "lim_inv rl ps"
  shows "case res of
      Inr p \<Rightarrow> few_permits ps \<longrightarrow>
        lim_inv rl' (add_mset p ps) \<and> p_key p = resolve_bucket_key rl k \<and> p_cost p = c
    | Inl d \<Rightarrow> lim_inv rl' ps"
  by (rule try_acquire_inv [OF assms(2), of dbg k c now]) (simp add: assms(1))

lemma apply_feedback_result:
  "apply_feedback dbg rl k fb now = Some rl' \<Longrightarrow> lim_inv rl ps \<Longrightarrow> lim_inv rl' ps"
  by (erule apply_feedback_inv [of rl ps dbg k fb now]) simp

lemma update_config_result:
  assumes "update_config dbg rl cfg now = Some (rl', res)" and "lim_inv rl ps"
    and "built cfg"
  shows "lim_inv rl' ps"
  by (rule update_config_inv [OF assms(2) built_valid [OF assms(3)], of dbg now]) (use assms in simp_all)

lemma operation_cfg:
  assumes "lim_inv rl ps"
  shows "try_acquire dbg rl k c now = Some (rl', res) \<Longrightarrow> l_cfg rl' = l_cfg rl"
    and "p \<in># ps \<Longrightarrow> commit dbg rl p out now = Some rl' \<Longrightarrow> l_cfg rl' = l_cfg rl"
    and "p \<in># ps \<Longrightarrow> refund dbg rl p now = Some rl' \<Longrightarrow> l_cfg rl' = l_cfg rl"
    and "apply_feedback dbg rl k fb now = Some rl' \<Longrightarrow> l_cfg rl' = l_cfg rl"
proof -
  show "l_cfg rl' = l_cfg rl" if "try_acquire dbg rl k c now = Some (rl', res)"
    by (rule try_acquire_inv [OF assms, of dbg k c now]) (simp add: that)
  show "l_cfg rl' = l_cfg rl" if "apply_feedback dbg rl k fb now = Some rl'"
    by (rule apply_feedback_inv [OF assms, of dbg k fb now]) (simp add: that)
qed (auto dest: commit_inv(2) [OF assms] refund_inv(2) [OF assms])

lemma client_step_keeps:
  "client_step dbg x y \<Longrightarrow> lim_inv (fst x) (snd x) \<Longrightarrow> lim_inv (fst y) (snd y)"
  by (induction rule: client_step.induct)
     (auto dest: try_acquire_result commit_inv(1) refund_inv(1) apply_feedback_result
       update_config_result)

lemma client_step_inv:
  "client_step dbg (rl, ps) (rl', ps') \<Longrightarrow> lim_inv rl ps \<Longrightarrow> lim_inv rl' ps'"
  using client_step_keeps [of dbg "(rl, ps)" "(rl', ps')"] by simp

lemma reachable_inv: "reachable dbg rl ps \<Longrightarrow> lim_inv rl ps"
  by (induction rule: reachable.induct)
     (auto intro: built_valid limiter_new_inv client_step_inv)

end
