(* ===== verification/Example_Run.thy ===== *)
theory Example_Run
  imports Limiter_Invariant
begin

text \<open>
  Two small runs of the limiter, evaluated step by step from its definitions: one with a fixed
  window (three units per second) and one with a credit pool (capacity ten, two per second),
  both tracking at most two keys, the first
  evicting idle keys for new ones and the second refusing new keys. They are the concrete inputs at which the general theorems
  are applied.
\<close>

section \<open>A fixed window\<close>

definition ex_config :: config where
  "ex_config =
     \<lparr>cfg_algorithm = CfgFixedWindow 3 (dur 1000000000), cfg_max_keys = Some 2,
      cfg_overflow_policy = EvictOldestKey, cfg_slow_start = None\<rparr>"

definition ex_permit :: permit where
  "ex_permit =
     \<lparr>p_key = 7, p_cost = Cost 2, p_window_start = dur 1000000000,
      p_issued_at = dur 1500000000, p_deadline = dur 2000000000,
      p_meta = MetaFixedWindow (dur 1000000000)\<rparr>"

definition ex_bucket :: bucket_state where
  "ex_bucket =
     \<lparr>blocked_until = None, algo = AlgoFixedWindow
        \<lparr>fw_window_start = dur 1000000000, fw_reserved = 2, fw_spent = 0\<rparr>\<rparr>"

definition ex_limiter :: limiter where
  "ex_limiter =
     \<lparr>l_cfg = ex_config, l_started_at = dur 0, l_route_map = fmempty,
      l_buckets = fmupd 7 ex_bucket fmempty, l_fifo = [7], l_global_blocked_until = None,
      l_observer = 0, l_calls = []\<rparr>"

lemma ex_config_built: "built ex_config"
proof -
  have "valid_config ex_config"
    by (simp add: valid_config_def ex_config_def is_zero_def max_nanos_def)
  then show ?thesis by (simp add: valid_built ex_config_def)
qed

lemma ex_acquire:
  "try_acquire True (limiter_new ex_config) 7 (Cost 2) (from_millis 1500) =
    Some (ex_limiter, Inr ex_permit)"
  by (simp add: ex_config_def ex_limiter_def ex_bucket_def ex_permit_def eval_simps)

lemma ex_reachable_new: "reachable True (limiter_new ex_config) {#}"
  unfolding limiter_new_def by (rule start [OF ex_config_built])

lemma ex_reachable: "reachable True ex_limiter {#ex_permit#}"
  by (rule step [OF ex_reachable_new], rule granted [OF _ ex_acquire]) (simp add: few_permits_def)

text \<open>The table is full once a second key has come and gone.\<close>

definition ex_idle_bucket :: bucket_state where
  "ex_idle_bucket =
     \<lparr>blocked_until = None, algo = AlgoFixedWindow
        \<lparr>fw_window_start = dur 1000000000, fw_reserved = 0, fw_spent = 0\<rparr>\<rparr>"

definition ex_full :: limiter where
  "ex_full =
     ex_limiter\<lparr>l_buckets := fmupd 8 ex_idle_bucket (fmupd 7 ex_bucket fmempty), l_fifo := [7, 8]\<rparr>"

definition ex_visitor :: permit where
  "ex_visitor =
     \<lparr>p_key = 8, p_cost = Cost 1, p_window_start = dur 1000000000,
      p_issued_at = dur 1600000000, p_deadline = dur 2000000000,
      p_meta = MetaFixedWindow (dur 1000000000)\<rparr>"

definition ex_both :: limiter where
  "ex_both = ex_full\<lparr>l_buckets := fmupd 8 (ex_idle_bucket\<lparr>algo := AlgoFixedWindow
     \<lparr>fw_window_start = dur 1000000000, fw_reserved = 1, fw_spent = 0\<rparr>\<rparr>) (fmupd 7 ex_bucket fmempty)\<rparr>"

lemma ex_second_acquire:
  "try_acquire True ex_limiter 8 (Cost 1) (dur 1600000000) = Some (ex_both, Inr ex_visitor)"
  by (simp add: ex_both_def ex_visitor_def ex_full_def ex_idle_bucket_def ex_limiter_def
      ex_config_def ex_bucket_def eval_simps)

lemma ex_second_refund: "refund True ex_both ex_visitor (dur 1700000000) = Some ex_full"
  by (simp add: ex_both_def ex_visitor_def ex_full_def ex_idle_bucket_def ex_limiter_def
      ex_config_def ex_bucket_def eval_simps)

lemma ex_full_reachable: "reachable True ex_full {#ex_permit#}"
proof -
  have "reachable True ex_both {#ex_visitor, ex_permit#}"
    by (rule step [OF ex_reachable], rule granted [OF _ ex_second_acquire]) (simp add: few_permits_def)
  moreover have "client_step True (ex_both, {#ex_visitor, ex_permit#}) (ex_full, {#ex_permit#})"
    using refunded [OF _ ex_second_refund, of "{#ex_visitor, ex_permit#}"] by simp
  ultimately show ?thesis by (rule step)
qed

section \<open>A credit pool\<close>

definition ex_tokens :: config where
  "ex_tokens =
     \<lparr>cfg_algorithm = CfgTokenBucket 10 2, cfg_max_keys = Some 2,
      cfg_overflow_policy = DenyNewKey, cfg_slow_start = None\<rparr>"

definition ex_token_permit :: permit where
  "ex_token_permit =
     \<lparr>p_key = 7, p_cost = Cost 4, p_window_start = dur 0, p_issued_at = dur 1500000000,
      p_deadline = dur 0, p_meta = MetaTokenBucket\<rparr>"

definition ex_token_bucket :: bucket_state where
  "ex_token_bucket =
     \<lparr>blocked_until = None, algo = AlgoTokenBucket
        \<lparr>tb_last_update = dur 1500000000, tb_credits = 6, tb_in_flight = 4\<rparr>\<rparr>"

definition ex_token_limiter :: limiter where
  "ex_token_limiter =
     \<lparr>l_cfg = ex_tokens, l_started_at = dur 0, l_route_map = fmempty,
      l_buckets = fmupd 7 ex_token_bucket fmempty, l_fifo = [7], l_global_blocked_until = None,
      l_observer = 0, l_calls = []\<rparr>"

lemma ex_tokens_built: "built ex_tokens"
proof -
  have "valid_config ex_tokens" by (simp add: valid_config_def ex_tokens_def)
  then show ?thesis by (simp add: valid_built ex_tokens_def)
qed

lemma ex_token_acquire:
  "try_acquire True (limiter_new ex_tokens) 7 (Cost 4) (from_millis 1500) =
    Some (ex_token_limiter, Inr ex_token_permit)"
  by (simp add: ex_tokens_def ex_token_limiter_def ex_token_bucket_def ex_token_permit_def eval_simps)

lemma ex_token_reachable: "reachable True ex_token_limiter {#ex_token_permit#}"
proof -
  have "reachable True (limiter_new ex_tokens) {#}"
    unfolding limiter_new_def by (rule start [OF ex_tokens_built])
  then show ?thesis
    by (rule step, intro granted [OF _ ex_token_acquire]) (simp add: few_permits_def)
qed

lemmas ex_defs =
  ex_config_def ex_permit_def ex_bucket_def ex_limiter_def
  ex_tokens_def ex_token_permit_def ex_token_bucket_def ex_token_limiter_def

end
