(* ===== verification/Limiter_Safety.thy ===== *)
theory Limiter_Safety
  imports Example_Run
begin

text \<open>
  What the invariant gives the client of a limiter: exact accounting of the permits it holds,
  no panic, a bounded number of keys, eviction of idle keys only, and configuration updates
  that are refused exactly when they would invalidate a permit.
\<close>

section \<open>Accounting\<close>

definition reserved_of :: "bucket_state \<Rightarrow> nat" where
  "reserved_of b =
     (case algo b of
        AlgoFixedWindow s \<Rightarrow> unat (fw_reserved s)
      | AlgoTokenBucket s \<Rightarrow> unat (tb_in_flight s))"

lemma bucket_inv_reserved: "bucket_inv a b ps \<Longrightarrow> reserved_of b = weights ps"
  unfolding bucket_inv_def
  by (erule algo_inv_cases) (simp_all add: reserved_of_def fw_inv_def tb_inv_def)

lemma lim_inv_bucket:
  "lim_inv rl ps \<Longrightarrow> fmlookup (l_buckets rl) k = Some b \<Longrightarrow> bucket_inv (algo_of rl) b (keyed k ps)"
  by (auto simp: lim_inv_def dest: buckets_invD)

lemma lim_inv_held:
  "lim_inv rl ps \<Longrightarrow> p \<in># ps \<Longrightarrow> \<exists>b. fmlookup (l_buckets rl) (p_key p) = Some b"
  by (auto simp: lim_inv_def dest: buckets_inv_held)

lemma lim_inv_fifo:
  assumes "lim_inv rl ps"
  shows "distinct (l_fifo rl)" and "set (l_fifo rl) = fset (fmdom (l_buckets rl))"
    and "length (l_fifo rl) = tracked_keys rl"
  using assms buckets_inv_length by (auto simp: lim_inv_def buckets_inv_def tracked_keys_def)

lemmas ex_eval = ex_defs reserved_of_def keyed_def eval_simps

text \<open>C1: In every state a client can reach, the bucket of each key has reserved exactly the total cost
  of the permits held for that key, every permit that is held has its bucket, and the queue that
  orders evictions lists each tracked key once and nothing else.\<close>

theorem reservations_exact:
  assumes "reachable dbg rl ps"
  shows "(\<forall>k b. fmlookup (l_buckets rl) k = Some b \<longrightarrow> reserved_of b = weights (keyed k ps)) \<and>
    (\<forall>p \<in># ps. fmlookup (l_buckets rl) (p_key p) \<noteq> None) \<and>
    distinct (l_fifo rl) \<and> set (l_fifo rl) = fset (fmdom (l_buckets rl)) \<and>
    length (l_fifo rl) = tracked_keys rl"
proof -
  have inv: "lim_inv rl ps" using assms by (rule reachable_inv)
  then show ?thesis
    using bucket_inv_reserved [OF lim_inv_bucket [OF inv]] lim_inv_held [OF inv] lim_inv_fifo [OF inv]
    by fastforce
qed

lemma reservations_exact_witness:
  "fmlookup (l_buckets ex_limiter) 7 = Some ex_bucket \<and>
   reserved_of ex_bucket = weights (keyed 7 {#ex_permit#}) \<and> tracked_keys ex_limiter = 1"
proof -
  have b: "fmlookup (l_buckets ex_limiter) 7 = Some ex_bucket" by (simp add: ex_limiter_def)
  moreover have "l_fifo ex_limiter = [7]" by (simp add: ex_limiter_def)
  ultimately show ?thesis using reservations_exact [OF ex_reachable] by auto
qed

text \<open>C4: In a reachable state no public operation panics, in either build profile, but for one unchecked
  sum. Acquiring and feedback, for every key, instant and cost, an update to every configuration
  the constructors build, and the commit of every permit that is held with any outcome other than
  \<open>NotSent\<close> all return. A refund, and the commit of \<open>NotSent\<close> that is one, return for every fixed
  window, for every pool in a build without overflow checks, and in a build with them for every
  pool whose capacity is at most \<open>2^64 - 2^32\<close> (\<open>refund_safe\<close>); above that the sum of credits and cost
  can overflow (\<open>refund_overflows\<close>). In the profile with assertions this includes that a permit is
  never finalized after its window has moved on.\<close>

theorem operations_return:
  assumes "reachable dbg rl ps"
  shows "try_acquire dbg rl k c now \<noteq> None \<and>
    apply_feedback dbg rl k fb now \<noteq> None \<and>
    (built cfg \<longrightarrow> update_config dbg rl cfg now \<noteq> None) \<and>
    (p \<in># ps \<and> (out \<noteq> NotSent \<or> refund_safe dbg (cfg_algorithm (l_cfg rl))) \<longrightarrow>
      commit dbg rl p out now \<noteq> None) \<and>
    (p \<in># ps \<and> refund_safe dbg (cfg_algorithm (l_cfg rl)) \<longrightarrow> refund dbg rl p now \<noteq> None)"
proof (intro conjI impI)
  have inv: "lim_inv rl ps" using assms by (rule reachable_inv)
  show "try_acquire dbg rl k c now \<noteq> None"
    by (rule try_acquire_inv [OF inv, of dbg k c now]) simp
  show "apply_feedback dbg rl k fb now \<noteq> None"
    by (rule apply_feedback_inv [OF inv, of dbg k fb now]) simp
  show "update_config dbg rl cfg now \<noteq> None" if "built cfg"
    by (rule update_config_inv [OF inv built_valid [OF that], of dbg now]) simp_all
  show "commit dbg rl p out now \<noteq> None"
    if "p \<in># ps \<and> (out \<noteq> NotSent \<or> refund_safe dbg (cfg_algorithm (l_cfg rl)))"
    using that by (intro commit_total [OF inv]) (auto simp: algo_of_def)
  show "refund dbg rl p now \<noteq> None" if "p \<in># ps \<and> refund_safe dbg (cfg_algorithm (l_cfg rl))"
    using that by (intro refund_total [OF inv]) (auto simp: algo_of_def)
qed

lemma operations_return_witness:
  "commit True ex_limiter ex_permit Confirmed (from_secs 9) \<noteq> None \<and>
   refund True ex_limiter ex_permit (from_secs 0) \<noteq> None \<and>
   update_config True ex_limiter ex_tokens (from_secs 9) \<noteq> None"
  using operations_return [OF ex_reachable, where p = ex_permit and cfg = ex_tokens]
    ex_tokens_built by (auto simp: ex_limiter_def ex_config_def)

text \<open>C21: Finalizing a held permit, by commit with any outcome or by refund, at any instant, takes exactly
  the permit's cost off the reservation of its key's bucket and changes no other bucket and not
  the queue.\<close>

theorem finalize_releases_exactly:
  assumes "reachable dbg rl ps" and p: "p \<in># ps"
    and res: "commit dbg rl p out now = Some rl' \<or> refund dbg rl p now = Some rl'"
  shows "(\<exists>b b'. fmlookup (l_buckets rl) (p_key p) = Some b \<and>
      fmlookup (l_buckets rl') (p_key p) = Some b' \<and>
      reserved_of b = reserved_of b' + weight (p_cost p)) \<and>
    (\<forall>k. k \<noteq> p_key p \<longrightarrow> fmlookup (l_buckets rl') k = fmlookup (l_buckets rl) k) \<and>
    l_fifo rl' = l_fifo rl"
proof -
  have inv: "lim_inv rl ps" using assms(1) by (rule reachable_inv)
  obtain b where b: "fmlookup (l_buckets rl) (p_key p) = Some b" using lim_inv_held [OF inv p] by blast
  have inv': "lim_inv rl' (ps - {#p#})"
    using res commit_inv(1) [OF inv p] refund_inv(1) [OF inv p] by blast
  have frame: "\<exists>b'. l_buckets rl' = fmupd (p_key p) b' (l_buckets rl) \<and> l_fifo rl' = l_fifo rl"
    using res b by (auto simp: commit_def refund_def Let_def bind_eq_Some_conv)
  then obtain b' where b': "fmlookup (l_buckets rl') (p_key p) = Some b'" by auto
  have "reserved_of b = weights (keyed (p_key p) ps)"
    using bucket_inv_reserved [OF lim_inv_bucket [OF inv b]] .
  moreover have "reserved_of b' = weights (keyed (p_key p) (ps - {#p#}))"
    using bucket_inv_reserved [OF lim_inv_bucket [OF inv' b']] .
  ultimately have "reserved_of b = reserved_of b' + weight (p_cost p)"
    using weights_remove [OF keyed_member [OF p]] weight_le_weights [OF keyed_member [OF p]] by simp
  with b b' frame show ?thesis by auto
qed

lemma finalize_releases_exactly_witness:
  "\<exists>rl'. commit True ex_limiter ex_permit Confirmed (from_secs 9) = Some rl' \<and> l_fifo rl' = [7] \<and>
    (\<exists>b'. fmlookup (l_buckets rl') 7 = Some b' \<and> reserved_of ex_bucket = reserved_of b' + 2)"
proof -
  have "commit True ex_limiter ex_permit Confirmed (from_secs 9) \<noteq> None"
    by (rule commit_total [OF reachable_inv [OF ex_reachable]]) simp_all
  then obtain rl' where rl': "commit True ex_limiter ex_permit Confirmed (from_secs 9) = Some rl'" by blast
  then show ?thesis
    using finalize_releases_exactly [OF ex_reachable, of ex_permit Confirmed "from_secs 9" rl']
    by (auto simp: ex_limiter_def ex_permit_def weight_def cost_get_Cost)
qed

section \<open>Keys\<close>

lemma evict_index_find:
  assumes "evict_index m ks = Some i"
  shows "find (evictable m) ks = Some (ks ! i)" and "remove_at i ks = remove1 (ks ! i) ks"
proof -
  note i = evict_index_Some [OF assms]
  then show "find (evictable m) ks = Some (ks ! i)"
    by (auto simp: find_Some_iff intro!: exI [of _ i])
  have "ks ! i \<notin> set (take i ks)"
    using i by (auto simp: in_set_conv_nth)
  then have "remove1 (ks ! i) (take i ks @ ks ! i # drop (Suc i) ks) = remove_at i ks"
    by (simp add: remove1_append remove_at_def)
  then show "remove_at i ks = remove1 (ks ! i) ks"
    using i by (simp add: id_take_nth_drop [symmetric])
qed

lemma evictable_iff:
  assumes "lim_inv rl ps" and "k \<in> set (l_fifo rl)"
  shows "evictable (l_buckets rl) k \<longleftrightarrow> keyed k ps = {#}"
proof -
  have "k \<in> fset (fmdom (l_buckets rl))" using assms lim_inv_fifo(2) by blast
  then obtain b where b: "fmlookup (l_buckets rl) k = Some b" by (auto simp: fset_fmdom_iff)
  then show ?thesis
    using bucket_pool.outstanding_iff [OF lim_inv_bucket [OF assms(1) b]] by (simp add: evictable_def)
qed

text \<open>C30: When a new key arrives at a full table and the policy is to evict, the key dropped is the oldest
  one for which no permit is held, together with its bucket; when every tracked key has a permit
  outstanding, nothing is dropped and the new key is denied and reported.\<close>

theorem eviction_drops_oldest_idle_key:
  assumes "reachable dbg rl ps" and new: "fmlookup (l_buckets rl) bk = None"
    and full: "cfg_max_keys (l_cfg rl) = Some n" "n \<le> tracked_keys rl"
    and pol: "cfg_overflow_policy (l_cfg rl) = EvictOldestKey"
  shows "ensure_bucket_capacity rl rk bk c now =
    (case find (\<lambda>k. keyed k ps = {#}) (l_fifo rl) of
       Some k \<Rightarrow> (rl\<lparr>l_fifo := remove1 k (l_fifo rl), l_buckets := fmdrop k (l_buckets rl)\<rparr>, Inr ())
     | None \<Rightarrow>
         let d = \<lparr>retry_after = retry_after_on_new_key_deny rl\<rparr>
         in (notify_deny rl rk bk c now d KeyCardinalityBound, Inl d))"
proof -
  have inv: "lim_inv rl ps" using assms(1) by (rule reachable_inv)
  have find: "find (\<lambda>k. keyed k ps = {#}) (l_fifo rl) = find (evictable (l_buckets rl)) (l_fifo rl)"
    by (rule find_cong) (simp_all add: evictable_iff [OF inv])
  show ?thesis
  proof (cases "evict_index (l_buckets rl) (l_fifo rl)")
    case None
    then have "find (evictable (l_buckets rl)) (l_fifo rl) = None"
      by (simp add: evict_index_None find_None_iff)
    with None find new full pol show ?thesis
      by (simp add: ensure_bucket_capacity_def Let_def tracked_keys_def)
  next
    case (Some i)
    with evict_index_find [OF Some] find new full pol show ?thesis
      by (simp add: ensure_bucket_capacity_def Let_def tracked_keys_def)
  qed
qed

lemma eviction_drops_oldest_idle_key_witness:
  "\<exists>rl'. ensure_bucket_capacity ex_full 9 9 (Cost 1) (from_secs 2) = (rl', Inr ()) \<and>
    l_fifo rl' = [7] \<and> fmlookup (l_buckets rl') 8 = None"
proof -
  have "find (\<lambda>k. keyed k {#ex_permit#} = {#}) (l_fifo ex_full) = Some 8"
    by (simp add: ex_full_def ex_permit_def keyed_def)
  then show ?thesis
    using eviction_drops_oldest_idle_key [OF ex_full_reachable, of 9 2 9 "Cost 1" "from_secs 2"]
    by (simp add: ex_full_def ex_config_def ex_limiter_def tracked_keys_def fm_len_fmupd)
qed

text \<open>The two tables stay within the largest bound of the configurations installed.\<close>

definition within :: "nat \<Rightarrow> limiter \<Rightarrow> bool" where
  "within n rl \<longleftrightarrow> tracked_keys rl \<le> n \<and> fm_len (l_route_map rl) \<le> n"

definition keys_bounded :: "nat \<Rightarrow> config \<Rightarrow> bool" where
  "keys_bounded n cfg \<longleftrightarrow> (case cfg_max_keys cfg of Some m \<Rightarrow> m \<le> n | None \<Rightarrow> False)"

lemma keys_boundedD: "keys_bounded n cfg \<Longrightarrow> \<exists>m. cfg_max_keys cfg = Some m \<and> m \<le> n"
  by (simp add: keys_bounded_def split: option.splits)

definition bounded_step ::
  "bool \<Rightarrow> nat \<Rightarrow> limiter \<times> permit multiset \<Rightarrow> limiter \<times> permit multiset \<Rightarrow> bool" where
  "bounded_step dbg n x y \<longleftrightarrow> client_step dbg x y \<and> keys_bounded n (l_cfg (fst y))"

lemma within_frame [simp]:
  "within n (notify rl ev) = within n rl"
  "within n (notify_deny rl k bk c now d r) = within n rl"
  "within n (block_globally rl u) = within n rl"
  "within n (set_observer rl ob) = within n rl"
  by (simp_all add: within_def tracked_keys_def notify_def notify_deny_def block_globally_def set_observer_def)

lemma within_update:
  "fmlookup (l_buckets rl) k = Some b \<Longrightarrow> within n (rl\<lparr>l_buckets := fmupd k b' (l_buckets rl)\<rparr>) = within n rl"
  by (simp add: within_def tracked_keys_def fm_len_fmupd fmdomI)

lemma ensure_bucket_capacity_within:
  assumes inv: "lim_inv rl ps" and e: "ensure_bucket_capacity rl rk bk c now = (rl', r)"
    and n: "keys_bounded n (l_cfg rl)" and w: "within n rl"
  shows "within n rl'"
    and "r = Inr () \<Longrightarrow> fmlookup (l_buckets rl') bk = None \<Longrightarrow> fm_len (l_buckets rl') < n"
proof -
  have "within n rl' \<and> (r = Inr () \<longrightarrow> fmlookup (l_buckets rl') bk = None \<longrightarrow> fm_len (l_buckets rl') < n)"
    using e
  proof (cases rule: ensure_bucket_capacity_cases)
    case (evicted i)
    have "buckets_inv (algo_of rl) (l_buckets rl) (l_fifo rl) ps" using inv by (simp add: lim_inv_def)
    then have "l_fifo rl ! i |\<in>| fmdom (l_buckets rl)"
      using buckets_inv_evict(2) [OF _ evicted(3)] by (simp add: fset_fmdom_iff)
    then have "fm_len (l_buckets rl) \<noteq> 0" by (auto simp: fm_len_def)
    with evicted n w \<open>l_fifo rl ! i |\<in>| fmdom (l_buckets rl)\<close> show ?thesis
      by (auto simp: within_def tracked_keys_def fm_len_fmdrop)
  qed (use keys_boundedD [OF n] w in fastforce)+
  then show "within n rl'"
    and "r = Inr () \<Longrightarrow> fmlookup (l_buckets rl') bk = None \<Longrightarrow> fm_len (l_buckets rl') < n" by auto
qed

lemma within_insert:
  "fmlookup (l_buckets rl) k = None \<Longrightarrow> fm_len (l_buckets rl) < n \<Longrightarrow> within n rl \<Longrightarrow>
    within n (rl\<lparr>l_fifo := ks, l_buckets := fmupd k b (l_buckets rl)\<rparr>)"
  by (auto simp: within_def tracked_keys_def fm_len_fmupd fset_fmdom_iff)

lemma reserve_entry_within:
  assumes r: "reserve_entry dbg rl bk ea c now = Some (rl', res)" and w: "within n rl"
    and room: "fmlookup (l_buckets rl) bk = None \<Longrightarrow> fm_len (l_buckets rl) < n"
  shows "within n rl'"
proof (cases "fmlookup (l_buckets rl) bk")
  case None
  with r show ?thesis using within_insert [OF None room [OF None] w]
    by (auto simp: reserve_entry_def bind_eq_Some_conv)
next
  case (Some b)
  with r w show ?thesis by (auto simp: reserve_entry_def bind_eq_Some_conv within_update)
qed

lemma try_acquire_within:
  assumes t: "try_acquire dbg rl k c now = Some (rl', res)" and inv: "lim_inv rl ps"
    and n: "keys_bounded n (l_cfg rl)" and w: "within n rl"
  shows "within n rl'"
  using t
proof (cases rule: try_acquire_cases)
  case (full d)
  then show ?thesis using ensure_bucket_capacity_within(1) [OF inv _ n w] by blast
next
  case (refused rl1 rl2 d)
  then show ?thesis
    using reserve_entry_within [OF refused(5)] ensure_bucket_capacity_within [OF inv refused(4) n w] by simp
next
  case (permitted rl1 p)
  then show ?thesis
    using reserve_entry_within [OF permitted(5)] ensure_bucket_capacity_within [OF inv permitted(4) n w] by simp
qed (use w in simp_all)

lemma apply_route_remap_within:
  "apply_route_remap rl k nb = (rl', ok) \<Longrightarrow> keys_bounded n (l_cfg rl) \<Longrightarrow> within n rl \<Longrightarrow>
    within n rl'"
  by (auto simp: apply_route_remap_def within_def tracked_keys_def fm_len_fmupd fset_fmdom_iff
      split: if_splits dest!: keys_boundedD)

lemma bucket_mut_or_insert_within:
  assumes m: "bucket_mut_or_insert dbg rl rk bk now = Some (rl', found)" and inv: "lim_inv rl ps"
    and n: "keys_bounded n (l_cfg rl)" and w: "within n rl"
  shows "within n rl'"
proof (cases "fmlookup (l_buckets rl) bk")
  case (Some b)
  with m w show ?thesis by (simp add: bucket_mut_or_insert_def)
next
  case None
  obtain rl1 r where e: "ensure_bucket_capacity rl rk bk cost_one now = (rl1, r)" by fastforce
  note w1 = ensure_bucket_capacity_within [OF inv e n w]
  have "fmlookup (l_buckets rl1) bk = None"
    using e None by (cases rule: ensure_bucket_capacity_cases) auto
  with None m e w1 show ?thesis
    by (cases r) (auto simp: bucket_mut_or_insert_def bind_eq_Some_conv intro: within_insert)
qed

lemma apply_feedback_within:
  assumes a: "apply_feedback dbg rl k fb now = Some rl'" and inv: "lim_inv rl ps"
    and n: "keys_bounded n (l_cfg rl)" and w: "within n rl"
  shows "within n rl'"
proof -
  have remap: "within n rl1" if "feedback_remap rl k fb = (rl1, ar)" for rl1 ar
    using that n w by (auto simp: feedback_remap_def split: option.splits prod.splits
        dest: apply_route_remap_within)
  show ?thesis
    using a
  proof (cases rule: apply_feedback_cases)
    case (key_scope rl1 ar rl2 ev)
    have inv1: "lim_inv rl1 ps" and n1: "keys_bounded n (l_cfg rl1)"
      using feedback_remap_frame [OF key_scope(1)] inv n by simp_all
    from key_scope(3) obtain rl3 found where
        m: "bucket_mut_or_insert dbg rl1 k (resolve_bucket_key rl1 k) now = Some (rl3, found)"
      and "within n rl2 = within n rl3"
      by (auto simp: block_key_def bind_eq_Some_conv within_update split: option.splits if_splits)
    with key_scope bucket_mut_or_insert_within [OF m inv1 n1 remap] show ?thesis by simp
  qed (use remap in simp)
qed

lemma finalize_within:
  "commit dbg rl p out now = Some rl' \<Longrightarrow> within n rl \<Longrightarrow> within n rl'"
  "refund dbg rl p now = Some rl' \<Longrightarrow> within n rl \<Longrightarrow> within n rl'"
  by (auto simp: commit_def refund_def Let_def bind_eq_Some_conv within_def tracked_keys_def
      fm_len_fmupd fmdomI split: option.splits)

lemma update_config_within:
  assumes u: "update_config dbg rl cfg now = Some (rl', res)" and w: "within n rl"
  shows "within n rl'"
proof -
  have "within n rl2" if r: "update_config_unchecked dbg rl cfg now = Some rl2" for rl2
  proof -
    obtain m where "rl2 = rl\<lparr>l_cfg := cfg, l_buckets := m\<rparr>" "fmdom m = fmdom (l_buckets rl)"
      using r fm_update_all_Some(1) by (fastforce simp: update_config_unchecked_def bind_eq_Some_conv)
    with w show ?thesis by (simp add: within_def tracked_keys_def fm_len_def)
  qed
  with u w show ?thesis
    by (auto simp: update_config_def Let_def bind_eq_Some_conv split: option.splits if_splits)
qed

lemma client_step_within:
  "client_step dbg x y \<Longrightarrow> lim_inv (fst x) (snd x) \<Longrightarrow>
    keys_bounded n (l_cfg (fst x)) \<Longrightarrow> within n (fst x) \<Longrightarrow> within n (fst y)"
  by (induction rule: client_step.induct)
     (auto intro: try_acquire_within apply_feedback_within finalize_within update_config_within)

text \<open>C31: However a limiter is used, with an unbounded stream of distinct keys and with configuration updates
  included, neither the number of buckets nor the number of route remaps ever exceeds a bound that
  every configuration installed puts on the keys. Under one configuration that is its maximum; an
  update to a smaller maximum drops no bucket, so the largest maximum installed is what counts.\<close>

theorem tables_bounded:
  assumes "(bounded_step dbg n)\<^sup>*\<^sup>* (limiter_new_at cfg t, {#}) (rl, ps)"
    and "built cfg" and "keys_bounded n cfg"
  shows "tracked_keys rl \<le> n \<and> fm_len (l_route_map rl) \<le> n"
proof -
  have "lim_inv (fst y) (snd y) \<and> keys_bounded n (l_cfg (fst y)) \<and> within n (fst y)"
    if "(bounded_step dbg n)\<^sup>*\<^sup>* (limiter_new_at cfg t, {#}) y" for y
    using that
  proof (induction rule: rtranclp_induct)
    case base
    with limiter_new_inv [OF built_valid [OF assms(2)]] assms(3) show ?case
      by (simp add: limiter_new_at_def within_def tracked_keys_def)
  next
    case (step y z)
    then show ?case using client_step_keeps client_step_within
      unfolding bounded_step_def by metis
  qed
  from this [OF assms(1)] show ?thesis by (simp add: within_def)
qed

lemma tables_bounded_witness: "tracked_keys ex_limiter \<le> 2 \<and> fm_len (l_route_map ex_limiter) \<le> 2"
proof (rule tables_bounded [OF r_into_rtranclp ex_config_built])
  have "client_step True (limiter_new ex_config, {#}) (ex_limiter, {#ex_permit#})"
    by (rule granted [OF _ ex_acquire]) (simp add: few_permits_def)
  then show "bounded_step True 2 (limiter_new_at ex_config dur_zero, {#}) (ex_limiter, {#ex_permit#})"
    by (simp add: bounded_step_def keys_bounded_def ex_limiter_def ex_config_def limiter_new_def)
qed (simp add: keys_bounded_def ex_config_def)

section \<open>Configuration updates\<close>

text \<open>C32: While a permit is held, an update is refused exactly when it changes the kind of algorithm
  (\<open>AlgorithmChanged\<close>) or, between fixed windows, the length of the window
  (\<open>FixedWindowWindowChanged\<close>); a change of the limit, of the capacity or of the refill rate is
  accepted at any time, and so is every update while no permit is held. A refused update changes
  nothing; an accepted one installs the configuration, keeps every bucket and the whole accounting
  of the permits held.\<close>

theorem update_refused_iff_outstanding:
  assumes "reachable dbg rl ps" and "built cfg"
  shows "\<exists>rl' res. update_config dbg rl cfg now = Some (rl', res) \<and>
    res = (if ps = {#} then Inr ()
      else case (cfg_algorithm (l_cfg rl), cfg_algorithm cfg) of
          (CfgFixedWindow m w, CfgFixedWindow m' w') \<Rightarrow>
            if w' = w then Inr () else Inl FixedWindowWindowChanged
        | (CfgTokenBucket cap r, CfgTokenBucket cap' r') \<Rightarrow> Inr ()
        | _ \<Rightarrow> Inl AlgorithmChanged) \<and>
    (case res of
       Inl kind \<Rightarrow> rl' = rl
     | Inr _ \<Rightarrow> l_cfg rl' = cfg \<and> fmdom (l_buckets rl') = fmdom (l_buckets rl) \<and> lim_inv rl' ps)"
  by (rule update_config_inv [OF reachable_inv [OF assms(1)] built_valid [OF assms(2)], of dbg now];
      cases "cfg_algorithm (l_cfg rl)"; cases "cfg_algorithm cfg")
     (auto simp: requires_no_outstanding_def algo_of_def split: if_splits)

lemma update_refused_iff_outstanding_witness:
  "update_config True ex_limiter ex_tokens (from_secs 9) = Some (ex_limiter, Inl AlgorithmChanged)"
  using update_refused_iff_outstanding [OF ex_reachable ex_tokens_built, of "from_secs 9"]
  by (simp add: ex_defs)

end
