(* ===== verification/Limiter_Events.thy ===== *)
theory Limiter_Events
  imports Limiter_Safety
begin

text \<open>
  What the client and the observer see of a call: the events it emits, the equivalence of the
  two ways to give a permit back, and the remapping of routes.
\<close>

section \<open>Giving a permit back\<close>

lemma fw_commit_not_sent:
  assumes "fw_inv s ps" and "\<not> is_zero window" and "p \<in># ps"
  shows "fw_commit dbg s (p_cost p) ws NotSent now window = fw_refund dbg s (p_cost p) ws now window"
proof -
  obtain s1 where s1: "fw_maybe_reset_window dbg s now window = Some s1" and inv: "fw_inv s1 ps"
    using fw_reset_some [OF assms(1,2)] .
  have "unat (sat_sub (sat_add (fw_spent s1) (cost_get (p_cost p))) (cost_get (p_cost p))) = unat (fw_spent s1)"
    using inv weight_le_weights [OF assms(3)]
    by (simp add: unat_sat_sub unat_sat_add fw_inv_def fw_used_def weight_def)
  then have "sat_sub (sat_add (fw_spent s1) (cost_get (p_cost p))) (cost_get (p_cost p)) = fw_spent s1"
    by (rule word_unat_eq_iff [THEN iffD2])
  then show ?thesis by (simp add: fw_commit_def fw_refund_def s1 Let_def)
qed

lemma bucket_commit_not_sent:
  assumes inv: "bucket_inv a b ps" and p: "p \<in># ps"
  shows "bucket_commit dbg b p NotSent now a = bucket_refund dbg b p now a"
  using inv [unfolded bucket_inv_def]
proof (cases rule: algo_inv_cases)
  case (fixed m w s)
  then obtain ws where "p_meta p = MetaFixedWindow ws" using p by (auto simp: fw_inv_def)
  then show ?thesis using fw_commit_not_sent [OF fixed(4,3) p] fixed
    by (simp add: bucket_commit_def bucket_refund_def)
next
  case (tokens cap r s)
  then show ?thesis using p
    by (simp add: bucket_commit_def bucket_refund_def token_commit_def tb_inv_def)
qed

lemma commit_not_sent:
  assumes inv: "lim_inv rl ps" and p: "p \<in># ps"
  shows "commit dbg rl p NotSent now = refund dbg rl p now"
proof -
  obtain b where b: "fmlookup (l_buckets rl) (p_key p) = Some b" using lim_inv_held [OF assms] by blast
  have "bucket_commit dbg b p NotSent now (algo_of rl) = bucket_refund dbg b p now (algo_of rl)"
    using bucket_commit_not_sent [OF lim_inv_bucket [OF inv b] keyed_member [OF p]] .
  with b show ?thesis by (simp add: commit_def refund_def outcome_backoff_def algo_of_def)
qed

text \<open>Committing a held permit as not sent and refunding it are the same operation: same resulting
  limiter, for both algorithms, at every instant.\<close>

lemma not_sent_is_refund:
  assumes "reachable dbg rl ps" and "p \<in># ps"
  shows "commit dbg rl p NotSent now = refund dbg rl p now"
  using commit_not_sent [OF reachable_inv [OF assms(1)] assms(2)] .

lemma not_sent_is_refund_witness:
  "commit True ex_limiter ex_permit NotSent (from_secs 5) = refund True ex_limiter ex_permit (from_secs 5)"
  by (rule not_sent_is_refund [OF ex_reachable]) simp

section \<open>Events\<close>

lemma ensure_bucket_capacity_calls:
  assumes "ensure_bucket_capacity rl rk bk c now = (rl', r)"
  shows "case r of
      Inl d \<Rightarrow> l_calls rl' = l_calls rl @ [(l_observer rl, OnDeny
        \<lparr>de_route_key = rk, de_bucket_key = bk, de_cost = c, de_now = now, de_deny = d,
         de_reason = KeyCardinalityBound\<rparr>)]
    | Inr _ \<Rightarrow> l_calls rl' = l_calls rl"
  using assms by (cases rule: ensure_bucket_capacity_cases) (simp_all add: notify_deny_def notify_def)

lemma reserve_entry_calls:
  "reserve_entry dbg rl bk ea c now = Some (rl', res) \<Longrightarrow>
    l_calls rl' = l_calls rl \<and> l_observer rl' = l_observer rl"
  by (auto simp: reserve_entry_def bind_eq_Some_conv split: option.splits)

text \<open>C39: A call of \<open>try_acquire\<close> that denies notifies the attached observer exactly once, with the
  denial it returns, the route key, the bucket key that was accounted, the cost and the instant;
  a call that grants notifies nobody.\<close>

theorem denials_observed_once:
  assumes "try_acquire dbg rl k c now = Some (rl', res)"
  shows "case res of
      Inr p \<Rightarrow> l_calls rl' = l_calls rl
    | Inl d \<Rightarrow> \<exists>reason. l_calls rl' = l_calls rl @ [(l_observer rl, OnDeny
        \<lparr>de_route_key = k, de_bucket_key = resolve_bucket_key rl k, de_cost = c, de_now = now,
         de_deny = d, de_reason = reason\<rparr>)]"
  using assms
proof (cases rule: try_acquire_cases)
  case (full d)
  then show ?thesis using ensure_bucket_capacity_calls [OF full(4)] by auto
next
  case (refused rl1 rl2 d)
  then show ?thesis
    using ensure_bucket_capacity_calls [OF refused(4)] ensure_bucket_capacity_frame(5) [OF refused(4)]
      reserve_entry_calls [OF refused(5)]
    by (auto simp: notify_deny_def notify_def)
next
  case (permitted rl1 p)
  then show ?thesis
    using ensure_bucket_capacity_calls [OF permitted(4)] reserve_entry_calls [OF permitted(5)] by simp
qed (auto simp: notify_deny_def notify_def)

lemma denials_observed_once_witness:
  "\<exists>rl' d ev. try_acquire True ex_limiter 7 (Cost 2) (dur 1600000000) = Some (rl', Inl d) \<and>
    l_calls rl' = [(0, OnDeny ev)] \<and> de_deny ev = d"
proof -
  have "\<exists>rl' d. try_acquire True ex_limiter 7 (Cost 2) (dur 1600000000) = Some (rl', Inl d)"
    by (simp add: ex_eval)
  then obtain rl' d where t: "try_acquire True ex_limiter 7 (Cost 2) (dur 1600000000) = Some (rl', Inl d)"
    by blast
  then show ?thesis using denials_observed_once [OF t] by (auto simp: ex_limiter_def)
qed

section \<open>Remaps\<close>

text \<open>A remap carried by feedback takes effect when the table of remaps has room or already lists the
  route: from then on the route is accounted on the new key, every other route as before. When
  the table is full the remap is refused and no route changes; in both cases the feedback event
  reports the remap exactly when it was applied.\<close>

lemma remap_applied_or_refused:
  assumes "feedback_remap rl k fb = (rl', reported)" and "fb_bucket_remap fb = Some bk"
  shows "(reported = Some bk \<and> resolve_bucket_key rl' k = bk \<or>
      reported = None \<and> resolve_bucket_key rl' k = resolve_bucket_key rl k) \<and>
    (reported = None \<longleftrightarrow> fmlookup (l_route_map rl) k = None \<and>
      (\<exists>n. cfg_max_keys (l_cfg rl) = Some n \<and> n \<le> fm_len (l_route_map rl))) \<and>
    (\<forall>j. j \<noteq> k \<longrightarrow> resolve_bucket_key rl' j = resolve_bucket_key rl j)"
  using assms
  by (auto simp: feedback_remap_def apply_route_remap_def resolve_bucket_key_def
      split: option.splits if_splits prod.splits)

lemma remap_applied_or_refused_witness:
  "\<exists>rl'. feedback_remap ex_limiter 7
      \<lparr>fb_retry_after = dur 0, fb_scope = FbRoute, fb_remaining = None, fb_reset_after = None,
       fb_bucket_remap = Some 9\<rparr> = (rl', Some 9) \<and> resolve_bucket_key rl' 7 = 9"
proof -
  let ?fb = "\<lparr>fb_retry_after = dur 0, fb_scope = FbRoute, fb_remaining = None, fb_reset_after = None,
       fb_bucket_remap = Some 9\<rparr>"
  obtain rl' r where r: "feedback_remap ex_limiter 7 ?fb = (rl', r)" by fastforce
  have "r \<noteq> None"
    using remap_applied_or_refused [OF r, of 9] by (auto simp: ex_limiter_def ex_config_def)
  then show ?thesis using remap_applied_or_refused [OF r, of 9] r by auto
qed

end
