(* ===== verification/Backoff.thy ===== *)
theory Backoff
  imports Limiter_Events
begin

text \<open>
  Backoff: an instant until which feedback blocks a bucket, or the whole limiter. Both are kept
  the same way, so the contract is a locale: a backoff is only ever raised to the later of two
  instants.
\<close>

section \<open>The contract\<close>

locale backoff =
  fixes blocked :: "'s \<Rightarrow> duration option"
    and raise :: "'s \<Rightarrow> duration \<Rightarrow> 's"
  assumes blocked_raise:
      "blocked (raise s u) = Some (case blocked s of None \<Rightarrow> u | Some v \<Rightarrow> max v u)"
    and raise_raise: "raise (raise s u) v = raise s (max u v)"
begin

definition in_force :: "'s \<Rightarrow> duration \<Rightarrow> bool" where
  "in_force s now \<longleftrightarrow> (\<exists>u. blocked s = Some u \<and> now < u)"

lemma in_force_raise: "in_force (raise s u) now \<longleftrightarrow> in_force s now \<or> now < u"
  by (cases "blocked s") (auto simp: in_force_def blocked_raise less_max_iff_disj)

lemma never_shortened: "blocked s = Some u \<Longrightarrow> \<exists>v. blocked (raise s w) = Some v \<and> u \<le> v"
  by (simp add: blocked_raise)

lemma raise_commute: "raise (raise s u) v = raise (raise s v) u"
  by (simp add: raise_raise max.commute)

lemma raise_all_perm:
  assumes "mset us = mset vs"
  shows "foldl raise s us = foldl raise s vs"
proof -
  have "fold (\<lambda>u s. raise s u) us = fold (\<lambda>u s. raise s u) vs"
    by (rule fold_multiset_equiv [OF _ assms]) (simp add: fun_eq_iff raise_commute)
  then show ?thesis by (simp add: foldl_conv_fold)
qed

end

interpretation bucket_backoff: backoff blocked_until apply_blocked_until
  by unfold_locales (auto simp: apply_blocked_until_def max.assoc split: option.split)

interpretation limiter_backoff: backoff l_global_blocked_until block_globally
  by unfold_locales (auto simp: block_globally_def max.assoc split: option.split)

section \<open>The limiter-wide backoff\<close>

lemma global_wait_iff: "global_wait rl now \<noteq> None \<longleftrightarrow> limiter_backoff.in_force rl now"
  by (auto simp: global_wait_def limiter_backoff.in_force_def split: option.splits)

lemma limiter_backoff_cong:
  "l_global_blocked_until rl' = l_global_blocked_until rl \<Longrightarrow>
    limiter_backoff.in_force rl' now = limiter_backoff.in_force rl now"
  by (simp add: limiter_backoff.in_force_def)

lemma try_acquire_global:
  assumes "try_acquire dbg rl k c now = Some (rl', res)"
  shows "l_global_blocked_until rl' = l_global_blocked_until rl"
  using assms
proof (cases rule: try_acquire_cases)
  case (full d)
  then show ?thesis using ensure_bucket_capacity_frame(2) by blast
next
  case (refused rl1 rl2 d)
  then show ?thesis using ensure_bucket_capacity_frame(2) [OF refused(4)] refused(5)
    by (auto simp: reserve_entry_def bind_eq_Some_conv split: option.splits)
next
  case (permitted rl1 p)
  then show ?thesis using ensure_bucket_capacity_frame(2) [OF permitted(4)] permitted(5)
    by (auto simp: reserve_entry_def bind_eq_Some_conv split: option.splits)
qed simp_all

lemma bucket_mut_or_insert_frame:
  assumes "bucket_mut_or_insert dbg rl rk bk now = Some (rl', found)"
  shows "l_global_blocked_until rl' = l_global_blocked_until rl"
    and "l_route_map rl' = l_route_map rl"
proof -
  obtain rl1 r where e: "ensure_bucket_capacity rl rk bk cost_one now = (rl1, r)" by fastforce
  with assms ensure_bucket_capacity_frame(2,3) [OF e] show
    "l_global_blocked_until rl' = l_global_blocked_until rl" and "l_route_map rl' = l_route_map rl"
    by (auto simp: bucket_mut_or_insert_def bind_eq_Some_conv split: if_splits sum.splits option.splits)
qed

lemma block_key_global:
  assumes "block_key dbg rl rk bk u now = Some rl'"
  shows "l_global_blocked_until rl' = l_global_blocked_until rl"
proof -
  obtain rl2 found where m: "bucket_mut_or_insert dbg rl rk bk now = Some (rl2, found)"
    using assms by (auto simp: block_key_def bind_eq_Some_conv)
  with assms bucket_mut_or_insert_frame(1) [OF m] show ?thesis
    by (cases found; cases "fmlookup (l_buckets rl2) bk") (auto simp: block_key_def)
qed

lemma block_key_route_map:
  assumes "block_key dbg rl rk bk u now = Some rl'"
  shows "l_route_map rl' = l_route_map rl"
proof -
  obtain rl2 found where m: "bucket_mut_or_insert dbg rl rk bk now = Some (rl2, found)"
    using assms by (auto simp: block_key_def bind_eq_Some_conv)
  with assms bucket_mut_or_insert_frame(2) [OF m] show ?thesis
    by (cases found; cases "fmlookup (l_buckets rl2) bk") (auto simp: block_key_def)
qed

text \<open>No call of the interface ends a backoff that is in force.\<close>

lemma client_step_backoff:
  "client_step dbg x y \<Longrightarrow> limiter_backoff.in_force (fst x) now \<Longrightarrow> limiter_backoff.in_force (fst y) now"
proof (induction rule: client_step.induct)
  case (committed p ps rl out t rl')
  have "limiter_backoff.in_force (outcome_backoff rl out t) now"
    using committed.prems
    by (simp add: outcome_backoff_def limiter_backoff.in_force_raise split: outcome.split scope.split)
  moreover have "l_global_blocked_until rl' = l_global_blocked_until (outcome_backoff rl out t)"
    using committed(2) by (auto simp: commit_def Let_def bind_eq_Some_conv split: option.splits)
  ultimately show ?case by (simp add: limiter_backoff.in_force_def)
next
  case (feedback rl k fb t rl' ps)
  from feedback(1) show ?case
  proof (cases rule: apply_feedback_cases)
    case (global_scope rl1 ar ev)
    have "limiter_backoff.in_force rl1 now"
      using feedback.prems feedback_remap_frame(5) [OF global_scope(1)] by (simp add: limiter_backoff.in_force_def)
    then have "limiter_backoff.in_force (block_globally rl1 (saturating_add t (feedback_backoff fb))) now"
      by (simp add: limiter_backoff.in_force_raise)
    then show ?thesis using global_scope by (simp add: limiter_backoff.in_force_def)
  next
    case (key_scope rl1 ar rl2 ev)
    then show ?thesis
      using feedback.prems feedback_remap_frame(5) [OF key_scope(1)] block_key_global [OF key_scope(3)]
      by (simp add: limiter_backoff.in_force_def)
  qed
qed (auto simp: limiter_backoff.in_force_def refund_def update_config_def update_config_unchecked_def
    set_observer_def Let_def bind_eq_Some_conv dest!: try_acquire_global split: option.splits if_splits)

lemma client_steps_backoff:
  "(client_step dbg)\<^sup>*\<^sup>* x y \<Longrightarrow> limiter_backoff.in_force (fst x) now \<Longrightarrow> limiter_backoff.in_force (fst y) now"
  by (induction rule: rtranclp_induct) (auto intro: client_step_backoff)

lemma in_force_until:
  assumes "\<And>n. n < u \<Longrightarrow> limiter_backoff.in_force rl n" and "now < u"
  obtains v where "l_global_blocked_until rl = Some v" and "u \<le> v"
proof -
  obtain v where v: "l_global_blocked_until rl = Some v"
    using assms by (auto simp: limiter_backoff.in_force_def)
  moreover have "u \<le> v"
  proof (rule leI)
    show "\<not> v < u"
    proof
      assume "v < u"
      then have "limiter_backoff.in_force rl v" by (rule assms(1))
      with v show False by (simp add: limiter_backoff.in_force_def)
    qed
  qed
  ultimately show thesis by (rule that)
qed

lemma saturating_add_dur_minus: "now \<le> v \<Longrightarrow> saturating_add now (dur_minus v now) = v"
  by (simp add: duration_eq_iff less_eq_duration_def)

lemma try_acquire_blocked:
  assumes "l_global_blocked_until rl = Some v" and "now < v"
  shows "\<exists>rl' d. try_acquire dbg rl k c now = Some (rl', Inl d) \<and> l_buckets rl' = l_buckets rl \<and>
    saturating_add now (retry_after d) = v"
  using assms
  by (simp add: try_acquire_def global_wait_def Let_def saturating_add_dur_minus less_imp_le)

text \<open>C23: After feedback with global scope, whatever the client then does, every key is denied until the
  instant of the feedback plus its backoff; the advised wait reaches at least that instant, and
  the denied call touches no bucket.\<close>

theorem global_feedback_blocks_every_key:
  assumes "apply_feedback dbg rl k fb t = Some rl1" and "fb_scope fb = FbGlobal"
    and "(client_step dbg)\<^sup>*\<^sup>* (rl1, ps1) (rl2, ps2)"
    and now: "now < saturating_add t (feedback_backoff fb)"
  shows "\<exists>rl3 d. try_acquire dbg rl2 j c now = Some (rl3, Inl d) \<and> l_buckets rl3 = l_buckets rl2 \<and>
    saturating_add t (feedback_backoff fb) \<le> saturating_add now (retry_after d)"
proof -
  let ?u = "saturating_add t (feedback_backoff fb)"
  have "limiter_backoff.in_force rl1 n" if "n < ?u" for n
    using assms(1)
  proof (cases rule: apply_feedback_cases)
    case (global_scope r1 ar ev)
    have "limiter_backoff.in_force (block_globally r1 ?u) n"
      using that by (simp add: limiter_backoff.in_force_raise)
    with global_scope(3) show ?thesis by (simp add: limiter_backoff.in_force_def)
  qed (simp add: assms(2))
  then have "limiter_backoff.in_force rl2 n" if "n < ?u" for n
    using client_steps_backoff [OF assms(3)] that by simp
  then obtain v where "l_global_blocked_until rl2 = Some v" "?u \<le> v"
    using now by (rule in_force_until)
  then show ?thesis using try_acquire_blocked [of rl2 v now dbg j c] less_le_trans [OF now] by metis
qed

lemma global_feedback_blocks_every_key_witness:
  "\<exists>rl1 rl3 d. apply_feedback True ex_limiter 7 (feedback_new (dur 3000000000) FbGlobal) (dur 0) = Some rl1 \<and>
    try_acquire True rl1 8 (Cost 1) (dur 1000000000) = Some (rl3, Inl d) \<and>
    dur 3000000000 \<le> saturating_add (dur 1000000000) (retry_after d)"
proof -
  let ?fb = "feedback_new (dur 3000000000) FbGlobal"
  have u: "saturating_add (dur 0) (feedback_backoff ?fb) = dur 3000000000"
    by (simp add: eval_simps)
  obtain rl1 where a: "apply_feedback True ex_limiter 7 ?fb (dur 0) = Some rl1"
    by (rule apply_feedback_inv [OF reachable_inv [OF ex_reachable]])
  have "dur 1000000000 < dur 3000000000" and "fb_scope ?fb = FbGlobal"
    by (simp_all add: duration_order max_nanos_def feedback_new_def)
  then show ?thesis
    using global_feedback_blocks_every_key [OF a, of "{#}" rl1 "{#}" "dur 1000000000" 8 "Cost 1"] a
    unfolding u by auto
qed

section \<open>The backoff of a key\<close>

lemma try_acquire_key_blocked:
  assumes "fmlookup (l_buckets rl) (resolve_bucket_key rl k) = Some b"
    and "blocked_until b = Some u" and "now < u"
  shows "\<exists>rl' d. try_acquire dbg rl k c now = Some (rl', Inl d) \<and>
    (global_wait rl now = None \<and> slow_start_pre_deny rl c now (effective_algorithm rl now) = None \<longrightarrow>
      saturating_add now (retry_after d) = u)"
proof -
  have e: "ensure_bucket_capacity rl k (resolve_bucket_key rl k) c now = (rl, Inr ())"
    using assms(1) by (simp add: ensure_bucket_capacity_def Let_def)
  have r: "bucket_try_reserve dbg b (resolve_bucket_key rl k) ea c now =
      Some (b, Inl \<lparr>bd_deny = \<lparr>retry_after = dur_minus u now\<rparr>, bd_reason = BlockedUntil\<rparr>)" for ea
    using assms(2,3) by (simp add: bucket_try_reserve_eq)
  show ?thesis
    using e r assms
    by (cases "global_wait rl now"; cases "slow_start_pre_deny rl c now (effective_algorithm rl now)")
       (auto simp: try_acquire_def Let_def reserve_entry_def saturating_add_dur_minus less_imp_le)
qed

lemma bucket_mut_or_insert_found:
  assumes "bucket_mut_or_insert dbg rl rk bk now = Some (rl', found)"
  shows "found \<longleftrightarrow> fmlookup (l_buckets rl') bk \<noteq> None"
proof (cases "fmlookup (l_buckets rl) bk")
  case (Some b)
  with assms show ?thesis by (auto simp: bucket_mut_or_insert_def)
next
  case None
  obtain rl1 r where e: "ensure_bucket_capacity rl rk bk cost_one now = (rl1, r)" by fastforce
  then have "fmlookup (l_buckets rl1) bk = None"
    using None by (cases rule: ensure_bucket_capacity_cases) auto
  with None assms e show ?thesis
    by (cases r) (auto simp: bucket_mut_or_insert_def bind_eq_Some_conv)
qed

text \<open>
  Later calls keep the backoff of a key, at instants before its end and as long as the bucket is
  not evicted: an eviction forgets the block with the bucket.
\<close>

definition key_blocked :: "key \<Rightarrow> duration \<Rightarrow> limiter \<Rightarrow> bool" where
  "key_blocked k u rl \<longleftrightarrow>
     (\<exists>b v. fmlookup (l_buckets rl) k = Some b \<and> blocked_until b = Some v \<and> u \<le> v)"

inductive call_at :: "bool \<Rightarrow> duration \<Rightarrow> limiter \<Rightarrow> limiter \<Rightarrow> bool" for dbg t where
  call_acquire: "try_acquire dbg rl k c t = Some (rl', res) \<Longrightarrow> call_at dbg t rl rl'"
| call_commit: "commit dbg rl p out t = Some rl' \<Longrightarrow> call_at dbg t rl rl'"
| call_refund: "refund dbg rl p t = Some rl' \<Longrightarrow> call_at dbg t rl rl'"
| call_feedback: "apply_feedback dbg rl k fb t = Some rl' \<Longrightarrow> call_at dbg t rl rl'"
| call_update: "update_config dbg rl cfg t = Some (rl', res) \<Longrightarrow> call_at dbg t rl rl'"

definition keeping_call :: "bool \<Rightarrow> key \<Rightarrow> duration \<Rightarrow> limiter \<Rightarrow> limiter \<Rightarrow> bool" where
  "keeping_call dbg k u rl rl' \<longleftrightarrow>
     (\<exists>t < u. call_at dbg t rl rl') \<and> fmlookup (l_buckets rl') k \<noteq> None"

lemma blocked_bucket:
  assumes "blocked_until b = Some v" and "t < v"
  shows "bucket_try_reserve dbg b k a c t = Some (b', res) \<Longrightarrow> b' = b"
    and "bucket_commit dbg b p out t a = Some b' \<Longrightarrow> \<exists>v'. blocked_until b' = Some v' \<and> v \<le> v'"
    and "bucket_refund dbg b p t a = Some b' \<Longrightarrow> blocked_until b' = Some v"
    and "bucket_on_update dbg b a a' t = Some b' \<Longrightarrow> blocked_until b' = Some v"
proof -
  have b: "clear_expired_block b t = b" using assms by (simp add: clear_expired_block_def)
  show "bucket_try_reserve dbg b k a c t = Some (b', res) \<Longrightarrow> b' = b"
    using assms by (simp add: bucket_try_reserve_eq)
  show "bucket_commit dbg b p out t a = Some b' \<Longrightarrow> \<exists>v'. blocked_until b' = Some v' \<and> v \<le> v'"
    using assms by (auto simp: bucket_commit_def b Let_def bind_eq_Some_conv bucket_backoff.blocked_raise
        split: outcome.splits scope.splits algo_state.splits algorithm_config.splits permit_meta.splits)
  show "bucket_refund dbg b p t a = Some b' \<Longrightarrow> blocked_until b' = Some v"
    using assms by (auto simp: bucket_refund_def b Let_def bind_eq_Some_conv
        split: algo_state.splits algorithm_config.splits permit_meta.splits)
  show "bucket_on_update dbg b a a' t = Some b' \<Longrightarrow> blocked_until b' = Some v"
    using assms by (auto simp: bucket_on_update_def b Let_def bind_eq_Some_conv
        split: algo_state.splits algorithm_config.splits if_splits)
qed

lemma ensure_bucket_capacity_keeps:
  assumes "ensure_bucket_capacity rl rk bk c t = (rl1, r)" and "fmlookup (l_buckets rl) k = Some b"
  shows "fmlookup (l_buckets rl1) k = Some b \<or> fmlookup (l_buckets rl1) k = None \<and> k \<noteq> bk"
  using assms by (cases rule: ensure_bucket_capacity_cases) auto

lemma reserve_entry_keeps:
  assumes "reserve_entry dbg rl bk ea c t = Some (rl', res)" and "key_blocked k u rl" and "t < u"
  shows "key_blocked k u rl'"
  using assms blocked_bucket(1)
  by (cases "k = bk") (fastforce simp: reserve_entry_def bind_eq_Some_conv key_blocked_def
      dest: less_le_trans split: option.splits)+

lemma evicted_stays_out:
  assumes "reserve_entry dbg rl bk ea c t = Some (rl', res)" and "k \<noteq> bk"
  shows "fmlookup (l_buckets rl') k = fmlookup (l_buckets rl) k"
  using assms by (auto simp: reserve_entry_def bind_eq_Some_conv split: option.splits)

lemma try_acquire_keeps:
  assumes t: "try_acquire dbg rl rk c t = Some (rl', res)"
    and "key_blocked k u rl" and "t < u" and kept: "fmlookup (l_buckets rl') k \<noteq> None"
  shows "key_blocked k u rl'"
proof -
  have via: "key_blocked k u rl2"
    if e: "ensure_bucket_capacity rl rk bk c t = (rl1, r)"
      and r: "reserve_entry dbg rl1 bk ea c t = Some (rl2, res2)"
      and k2: "fmlookup (l_buckets rl2) k \<noteq> None" for bk rl1 r ea rl2 res2
  proof (cases "fmlookup (l_buckets rl1) k")
    case None
    obtain b where "fmlookup (l_buckets rl) k = Some b" using assms(2) by (auto simp: key_blocked_def)
    from ensure_bucket_capacity_keeps [OF e this] None have "k \<noteq> bk" by simp
    with evicted_stays_out [OF r] None k2 show ?thesis by simp
  next
    case (Some b)
    then have "key_blocked k u rl1"
      using ensure_bucket_capacity_keeps [OF e] assms(2) by (fastforce simp: key_blocked_def)
    with r assms(3) show ?thesis by (rule_tac reserve_entry_keeps)
  qed
  from t show ?thesis
  proof (cases rule: try_acquire_cases)
    case (full d)
    then show ?thesis
      using ensure_bucket_capacity_keeps [OF full(4)] assms(2) kept by (fastforce simp: key_blocked_def)
  next
    case (refused rl1 rl2 d)
    with via [OF refused(4,5)] kept show ?thesis by (simp add: key_blocked_def)
  next
    case (permitted rl1 p)
    with via [OF permitted(4,5)] kept show ?thesis by simp
  qed (use assms in \<open>simp_all add: key_blocked_def\<close>)
qed

lemma block_key_keeps:
  assumes b: "block_key dbg rl rk bk w t = Some rl'"
    and "key_blocked k u rl" and kept: "fmlookup (l_buckets rl') k \<noteq> None"
  shows "key_blocked k u rl'"
proof -
  obtain b0 v where k: "fmlookup (l_buckets rl) k = Some b0" "blocked_until b0 = Some v" "u \<le> v"
    using assms(2) by (auto simp: key_blocked_def)
  obtain rl2 found where m: "bucket_mut_or_insert dbg rl rk bk t = Some (rl2, found)"
    using b by (auto simp: block_key_def bind_eq_Some_conv)
  have same: "fmlookup (l_buckets rl2) k = Some b0 \<or> fmlookup (l_buckets rl2) k = None"
  proof (cases "fmlookup (l_buckets rl) bk")
    case None
    obtain rl1 r where e: "ensure_bucket_capacity rl rk bk cost_one t = (rl1, r)" by fastforce
    have "k \<noteq> bk" using None k(1) by auto
    with ensure_bucket_capacity_keeps [OF e k(1)] m None e show ?thesis
      by (cases r) (auto simp: bucket_mut_or_insert_def bind_eq_Some_conv split: option.splits)
  qed (use m k(1) in \<open>simp add: bucket_mut_or_insert_def\<close>)
  have "\<exists>v'. blocked_until (apply_blocked_until b0 w) = Some v' \<and> v \<le> v'"
    using bucket_backoff.never_shortened [OF k(2)] .
  with same b m kept k show ?thesis
    by (cases found; cases "fmlookup (l_buckets rl2) bk"; cases "k = bk")
       (auto simp: block_key_def key_blocked_def dest: order_trans)
qed

lemma finalize_keeps:
  assumes "key_blocked k u rl" and "t < u"
  shows "commit dbg rl p out t = Some rl' \<Longrightarrow> key_blocked k u rl'"
    and "refund dbg rl p t = Some rl' \<Longrightarrow> key_blocked k u rl'"
proof -
  obtain b v where k: "fmlookup (l_buckets rl) k = Some b" "blocked_until b = Some v" "u \<le> v"
    using assms(1) by (auto simp: key_blocked_def)
  note bl = blocked_bucket(2,3) [OF k(2) less_le_trans [OF assms(2) k(3)]]
  show "key_blocked k u rl'" if "commit dbg rl p out t = Some rl'"
    using that bl(1) k by (cases "p_key p = k") (fastforce simp: commit_def Let_def bind_eq_Some_conv
        key_blocked_def intro: order_trans split: option.splits)+
  show "key_blocked k u rl'" if "refund dbg rl p t = Some rl'"
    using that bl(2) k by (cases "p_key p = k") (fastforce simp: refund_def bind_eq_Some_conv
        key_blocked_def split: option.splits)+
qed

lemma update_config_keeps:
  assumes "update_config dbg rl cfg t = Some (rl', res)" and "key_blocked k u rl" and "t < u"
  shows "key_blocked k u rl'"
proof -
  obtain b v where k: "fmlookup (l_buckets rl) k = Some b" "blocked_until b = Some v" "u \<le> v"
    using assms(2) by (auto simp: key_blocked_def)
  have "key_blocked k u rl2" if r: "update_config_unchecked dbg rl cfg t = Some rl2" for rl2
  proof -
    let ?f = "\<lambda>b. bucket_on_update dbg b (cfg_algorithm (l_cfg rl)) (cfg_algorithm cfg) t"
    obtain m where m: "fm_update_all ?f (l_buckets rl) = Some m" "rl2 = rl\<lparr>l_cfg := cfg, l_buckets := m\<rparr>"
      using r by (auto simp: update_config_unchecked_def Let_def bind_eq_Some_conv)
    have "fmlookup m k \<noteq> None"
      using fm_update_all_Some(1) [OF m(1)] k(1) by (metis fmdomI fmdom_notI)
    then obtain b' where b': "fmlookup m k = Some b'" "?f b = Some b'"
      using fm_update_all_Some(2) [OF m(1)] k(1) by auto
    from blocked_bucket(4) [OF k(2) less_le_trans [OF assms(3) k(3)] b'(2)] b'(1) m(2) k(3)
    show ?thesis by (simp add: key_blocked_def)
  qed
  with assms(1,2) show ?thesis
    by (auto simp: update_config_def Let_def bind_eq_Some_conv split: option.splits if_splits)
qed

lemma call_keeps_block:
  assumes "call_at dbg t rl rl'" and "key_blocked k u rl" and "t < u" and "fmlookup (l_buckets rl') k \<noteq> None"
  shows "key_blocked k u rl'"
  using assms(1)
proof cases
  case (call_feedback rk fb)
  then show ?thesis
  proof (cases rule: apply_feedback_cases)
    case (global_scope rl1 ar ev)
    then show ?thesis using assms(2) feedback_remap_frame(3) [OF global_scope(1)] by (simp add: key_blocked_def)
  next
    case (key_scope rl1 ar rl2 ev)
    have "key_blocked k u rl1"
      using assms(2) feedback_remap_frame(3) [OF key_scope(1)] by (simp add: key_blocked_def)
    from block_key_keeps [OF key_scope(3) this] key_scope(4) assms(4) show ?thesis
      by (simp add: key_blocked_def)
  qed
next
  case (call_acquire rk c res)
  then show ?thesis using assms(2,3,4) by (rule try_acquire_keeps)
next
  case (call_commit p out)
  then show ?thesis by (rule finalize_keeps(1) [OF assms(2,3)])
next
  case (call_refund p)
  then show ?thesis by (rule finalize_keeps(2) [OF assms(2,3)])
next
  case (call_update cfg res)
  then show ?thesis using assms(2,3) by (rule update_config_keeps)
qed

lemma keeping_calls_block:
  "(keeping_call dbg k u)\<^sup>*\<^sup>* rl rl' \<Longrightarrow> key_blocked k u rl \<Longrightarrow> key_blocked k u rl'"
  by (induction rule: rtranclp_induct) (auto simp: keeping_call_def intro: call_keeps_block)

lemma key_blocked_denies:
  assumes "key_blocked (resolve_bucket_key rl k) u rl" and "now < u"
  shows "\<exists>rl' d. try_acquire dbg rl k c now = Some (rl', Inl d) \<and>
    (global_wait rl now = None \<and> slow_start_pre_deny rl c now (effective_algorithm rl now) = None \<longrightarrow>
      u \<le> saturating_add now (retry_after d))"
  using assms try_acquire_key_blocked [where rl = rl and k = k and now = now and dbg = dbg and c = c]
  by (fastforce simp: key_blocked_def dest: less_le_trans)

lemma block_key_blocks:
  assumes "block_key dbg rl rk bk u now = Some rl'" and "fmlookup (l_buckets rl') bk \<noteq> None"
  shows "key_blocked bk u rl'"
proof -
  obtain rl2 found where m: "bucket_mut_or_insert dbg rl rk bk now = Some (rl2, found)"
    using assms(1) by (auto simp: block_key_def bind_eq_Some_conv)
  with assms bucket_mut_or_insert_found [OF m]
  obtain b where "fmlookup (l_buckets rl') bk = Some (apply_blocked_until b u)"
    by (cases "fmlookup (l_buckets rl2) bk") (auto simp: block_key_def)
  then show ?thesis by (simp add: key_blocked_def bucket_backoff.blocked_raise split: option.split)
qed

text \<open>C24: Feedback with key or route scope blocks the bucket it resolves to, if that could be tracked, until
  the instant of the feedback plus its backoff: whatever the client calls at instants before that
  one, as long as the bucket is not evicted, an acquire before it on every route that leads to the
  bucket is denied. When neither a limiter-wide backoff nor slow start denies it first, the advised
  wait reaches at least that instant.\<close>

theorem key_feedback_blocks_the_key:
  assumes "apply_feedback dbg rl k fb t = Some rl1" and "fb_scope fb \<noteq> FbGlobal"
    and "fmlookup (l_buckets rl1) (resolve_bucket_key rl1 k) \<noteq> None"
    and calls: "(keeping_call dbg (resolve_bucket_key rl1 k) (saturating_add t (feedback_backoff fb)))\<^sup>*\<^sup>* rl1 rl2"
    and route: "resolve_bucket_key rl2 j = resolve_bucket_key rl1 k"
    and now: "now < saturating_add t (feedback_backoff fb)"
  shows "\<exists>rl3 d. try_acquire dbg rl2 j c now = Some (rl3, Inl d) \<and>
    (global_wait rl2 now = None \<and> slow_start_pre_deny rl2 c now (effective_algorithm rl2 now) = None \<longrightarrow>
      saturating_add t (feedback_backoff fb) \<le> saturating_add now (retry_after d))"
  using assms(1)
proof (cases rule: apply_feedback_cases)
  case (key_scope r1 ar r2 ev)
  have "resolve_bucket_key rl1 k = resolve_bucket_key r1 k"
    using key_scope(4) block_key_route_map [OF key_scope(3)] by (simp add: resolve_bucket_key_def)
  with block_key_blocks [OF key_scope(3)] assms(3) key_scope(4)
  have "key_blocked (resolve_bucket_key rl1 k) (saturating_add t (feedback_backoff fb)) rl1"
    by (simp add: key_blocked_def)
  from key_blocked_denies [OF keeping_calls_block [OF calls this, folded route] now] show ?thesis .
qed (simp add: assms(2))

lemma key_feedback_blocks_the_key_witness:
  "\<exists>rl1 rl2 d. apply_feedback True ex_limiter 8 (feedback_new (dur 3000000000) FbKey) (dur 1000000000) = Some rl1 \<and>
    try_acquire True rl1 8 (Cost 1) (dur 2000000000) = Some (rl2, Inl d)"
proof -
  let ?fb = "feedback_new (dur 3000000000) FbKey"
  have "\<exists>rl1. apply_feedback True ex_limiter 8 ?fb (dur 1000000000) = Some rl1 \<and>
      fmlookup (l_buckets rl1) (resolve_bucket_key rl1 8) \<noteq> None"
    by (simp add: ex_eval)
  then obtain rl1 where a: "apply_feedback True ex_limiter 8 ?fb (dur 1000000000) = Some rl1"
    and b: "fmlookup (l_buckets rl1) (resolve_bucket_key rl1 8) \<noteq> None" by blast
  have "dur 2000000000 < saturating_add (dur 1000000000) (feedback_backoff ?fb)" and "fb_scope ?fb \<noteq> FbGlobal"
    by (simp_all add: eval_simps)
  then show ?thesis
    using key_feedback_blocks_the_key [OF a _ b rtranclp.rtrancl_refl refl, of "dur 2000000000" "Cost 1"] a by blast
qed

text \<open>C25: Committing a permit as rate limited by the server blocks until the instant of the commit plus the
  server's delay. With global scope every key is denied before that instant, whatever the client
  does after the commit. With key scope every route that leads to the permit's bucket is, whatever
  the client calls at instants before that one, as long as the bucket is not evicted.\<close>

theorem rate_limited_commit_blocks:
  assumes "reachable dbg rl ps" and "p \<in># ps"
    and cm: "commit dbg rl p (RateLimitedFeedback ra sc hint) t = Some rl'"
    and calls: "case sc of ScopeGlobal \<Rightarrow> (client_step dbg)\<^sup>*\<^sup>* (rl', ps1) (rl'', ps2)
      | ScopeKey \<Rightarrow> (keeping_call dbg (p_key p) (saturating_add t ra))\<^sup>*\<^sup>* rl' rl''"
    and key: "sc = ScopeKey \<Longrightarrow> resolve_bucket_key rl'' k = p_key p"
    and now: "now < saturating_add t ra"
  shows "\<exists>r d. try_acquire dbg rl'' k c now = Some (r, Inl d)"
proof (cases sc)
  case ScopeGlobal
  let ?u = "saturating_add t ra"
  have same: "l_global_blocked_until rl' = l_global_blocked_until (block_globally rl ?u)"
    using cm ScopeGlobal
    by (auto simp: commit_def Let_def outcome_backoff_def bind_eq_Some_conv split: option.splits)
  have "limiter_backoff.in_force rl' n" if "n < ?u" for n
    using that unfolding limiter_backoff_cong [OF same] by (simp add: limiter_backoff.in_force_raise)
  moreover have "(client_step dbg)\<^sup>*\<^sup>* (rl', ps1) (rl'', ps2)" using calls ScopeGlobal by simp
  ultimately have "limiter_backoff.in_force rl'' n" if "n < ?u" for n
    using client_steps_backoff that by fastforce
  then obtain v where "l_global_blocked_until rl'' = Some v" "?u \<le> v"
    using now by (rule in_force_until)
  then show ?thesis using try_acquire_blocked [of rl'' v now dbg k c] less_le_trans [OF now] by metis
next
  case ScopeKey
  have inv: "lim_inv rl ps" using assms(1) by (rule reachable_inv)
  obtain b where b: "fmlookup (l_buckets rl) (p_key p) = Some b" using lim_inv_held [OF inv assms(2)] by blast
  obtain b' where cb: "bucket_commit dbg b p (RateLimitedFeedback ra sc hint) t (algo_of rl) = Some b'"
    and "fmlookup (l_buckets rl') (p_key p) = Some b'"
    using cm b ScopeKey by (auto simp: commit_def Let_def outcome_backoff_def bind_eq_Some_conv algo_of_def)
  moreover have "\<exists>v. blocked_until b' = Some v \<and> saturating_add t ra \<le> v"
    using cb ScopeKey
    by (auto simp: bucket_commit_def Let_def bind_eq_Some_conv bucket_backoff.blocked_raise
        split: option.splits algo_state.splits algorithm_config.splits permit_meta.splits)
  ultimately have "key_blocked (p_key p) (saturating_add t ra) rl'" by (simp add: key_blocked_def)
  moreover have "(keeping_call dbg (p_key p) (saturating_add t ra))\<^sup>*\<^sup>* rl' rl''" using calls ScopeKey by simp
  ultimately have "key_blocked (resolve_bucket_key rl'' k) (saturating_add t ra) rl''"
    unfolding key [OF ScopeKey] by (metis keeping_calls_block)
  from key_blocked_denies [OF this now] show ?thesis by blast
qed

lemma rate_limited_commit_blocks_witness:
  "\<exists>rl1 rl2 d. commit True ex_limiter ex_permit (RateLimitedFeedback (dur 5000000000) ScopeKey None) (dur 2000000000) = Some rl1 \<and>
    try_acquire True rl1 7 (Cost 1) (dur 6000000000) = Some (rl2, Inl d)"
proof -
  let ?out = "RateLimitedFeedback (dur 5000000000) ScopeKey None"
  have "\<exists>rl1. commit True ex_limiter ex_permit ?out (dur 2000000000) = Some rl1 \<and>
      resolve_bucket_key rl1 7 = p_key ex_permit"
    by (simp add: ex_eval)
  then obtain rl1 where a: "commit True ex_limiter ex_permit ?out (dur 2000000000) = Some rl1"
    and b: "resolve_bucket_key rl1 7 = p_key ex_permit" by blast
  have "dur 6000000000 < saturating_add (dur 2000000000) (dur 5000000000)"
    by (simp add: eval_simps)
  then show ?thesis
    using rate_limited_commit_blocks [OF ex_reachable _ a, where rl'' = rl1 and k = 7 and now = "dur 6000000000"
        and c = "Cost 1"] a b by auto
qed

text \<open>The order in which backoffs arrive does not matter, neither for a bucket nor for the limiter: two
  sequences of the same instants leave the same state.\<close>

lemma backoffs_order_independent:
  assumes "mset us = mset vs"
  shows "foldl apply_blocked_until b us = foldl apply_blocked_until b vs \<and>
    foldl block_globally rl us = foldl block_globally rl vs"
  using bucket_backoff.raise_all_perm [OF assms] limiter_backoff.raise_all_perm [OF assms] by blast

lemma backoffs_order_independent_witness:
  "foldl apply_blocked_until ex_bucket [dur 2, dur 5, dur 3] = foldl apply_blocked_until ex_bucket [dur 5, dur 3, dur 2] \<and>
   foldl block_globally ex_limiter [dur 2, dur 5, dur 3] = foldl block_globally ex_limiter [dur 5, dur 3, dur 2]"
  by (rule backoffs_order_independent) simp

end
