(* ===== verification/Ledger.thy ===== *)
theory Ledger
  imports Backoff
begin

text \<open>
  How much a limiter lets through. A run of the limiter is recorded with the permits held and
  those finalized as sent; a bucket's ledger is a law that every operation on the bucket keeps
  between its state and the permits of its key. The locale proves once that such a law holds
  for every key of every run; a fixed window and a credit pool each instantiate it with their
  own bound.
\<close>

section \<open>Runs\<close>

text \<open>
  A run under one configuration, every instant between \<open>t0\<close> and \<open>t1\<close> in any order; \<open>ps\<close> are
  the permits held, \<open>cs\<close> those committed as sent.
\<close>

inductive limiter_run ::
  "bool \<Rightarrow> config \<Rightarrow> duration \<Rightarrow> duration \<Rightarrow> limiter \<Rightarrow> permit multiset \<Rightarrow> permit multiset \<Rightarrow> bool"
  for dbg cfg t0 t1 where
  run_start: "limiter_run dbg cfg t0 t1 (limiter_new_at cfg s) {#} {#}"
| run_granted: "limiter_run dbg cfg t0 t1 rl ps cs \<Longrightarrow> t0 \<le> now \<Longrightarrow> now \<le> t1 \<Longrightarrow> few_permits ps \<Longrightarrow>
    try_acquire dbg rl k c now = Some (rl', Inr p) \<Longrightarrow> limiter_run dbg cfg t0 t1 rl' (add_mset p ps) cs"
| run_denied: "limiter_run dbg cfg t0 t1 rl ps cs \<Longrightarrow> t0 \<le> now \<Longrightarrow> now \<le> t1 \<Longrightarrow>
    try_acquire dbg rl k c now = Some (rl', Inl d) \<Longrightarrow> limiter_run dbg cfg t0 t1 rl' ps cs"
| run_sent: "limiter_run dbg cfg t0 t1 rl ps cs \<Longrightarrow> t0 \<le> now \<Longrightarrow> now \<le> t1 \<Longrightarrow> p \<in># ps \<Longrightarrow> out \<noteq> NotSent \<Longrightarrow>
    commit dbg rl p out now = Some rl' \<Longrightarrow> limiter_run dbg cfg t0 t1 rl' (ps - {#p#}) (add_mset p cs)"
| run_not_sent: "limiter_run dbg cfg t0 t1 rl ps cs \<Longrightarrow> t0 \<le> now \<Longrightarrow> now \<le> t1 \<Longrightarrow> p \<in># ps \<Longrightarrow>
    commit dbg rl p NotSent now = Some rl' \<Longrightarrow> limiter_run dbg cfg t0 t1 rl' (ps - {#p#}) cs"
| run_refunded: "limiter_run dbg cfg t0 t1 rl ps cs \<Longrightarrow> t0 \<le> now \<Longrightarrow> now \<le> t1 \<Longrightarrow> p \<in># ps \<Longrightarrow>
    refund dbg rl p now = Some rl' \<Longrightarrow> limiter_run dbg cfg t0 t1 rl' (ps - {#p#}) cs"
| run_feedback: "limiter_run dbg cfg t0 t1 rl ps cs \<Longrightarrow> t0 \<le> now \<Longrightarrow> now \<le> t1 \<Longrightarrow>
    apply_feedback dbg rl k fb now = Some rl' \<Longrightarrow> limiter_run dbg cfg t0 t1 rl' ps cs"

text \<open>A configuration under which no key is ever evicted.\<close>

definition never_evicts :: "config \<Rightarrow> bool" where
  "never_evicts cfg \<longleftrightarrow> cfg_max_keys cfg = None \<or> cfg_overflow_policy cfg = DenyNewKey"

lemma ensure_bucket_capacity_never_evicts:
  assumes "ensure_bucket_capacity rl rk bk c now = (rl', r)" and "never_evicts (l_cfg rl)"
  shows "l_buckets rl' = l_buckets rl" and "r = Inr () \<Longrightarrow> rl' = rl"
  using assms by (cases rule: ensure_bucket_capacity_cases; auto simp: never_evicts_def)+

lemma bucket_mut_or_insert_never_evicts:
  assumes "bucket_mut_or_insert dbg rl rk bk now = Some (rl', found)" and "never_evicts (l_cfg rl)"
  shows "l_buckets rl' = l_buckets rl \<or>
    (\<exists>b. bucket_new dbg now (algo_of rl) = Some b \<and> fmlookup (l_buckets rl) bk = None \<and>
      l_buckets rl' = fmupd bk b (l_buckets rl))"
proof -
  obtain rl1 r where e: "ensure_bucket_capacity rl rk bk cost_one now = (rl1, r)" by fastforce
  note ne = ensure_bucket_capacity_never_evicts [OF e assms(2)]
  show ?thesis
    using assms(1) e ne
    by (cases r; cases "fmlookup (l_buckets rl) bk")
       (auto simp: bucket_mut_or_insert_def bind_eq_Some_conv algo_of_def)
qed

section \<open>Ledgers\<close>

locale bucket_ledger =
  fixes covers :: "algorithm_config \<Rightarrow> bool"
    and good :: "algorithm_config \<Rightarrow> duration \<Rightarrow> duration \<Rightarrow> bucket_state \<Rightarrow> permit multiset \<Rightarrow> permit multiset \<Rightarrow> bool"
  assumes fresh: "covers a \<Longrightarrow> valid_algorithm a \<Longrightarrow> t0 \<le> now \<Longrightarrow> now \<le> t1 \<Longrightarrow>
      bucket_new dbg now a = Some b \<Longrightarrow> good a t0 t1 b {#} {#}"
    and granted: "covers a \<Longrightarrow> good a t0 t1 b ps cs \<Longrightarrow> bucket_inv a b ps \<Longrightarrow> scaled_from a a' \<Longrightarrow>
      t0 \<le> now \<Longrightarrow> now \<le> t1 \<Longrightarrow> few_permits ps \<Longrightarrow>
      bucket_try_reserve dbg b k a' c now = Some (b', Inr p) \<Longrightarrow> good a t0 t1 b' (add_mset p ps) cs"
    and denied: "covers a \<Longrightarrow> good a t0 t1 b ps cs \<Longrightarrow> bucket_inv a b ps \<Longrightarrow> scaled_from a a' \<Longrightarrow>
      t0 \<le> now \<Longrightarrow> now \<le> t1 \<Longrightarrow>
      bucket_try_reserve dbg b k a' c now = Some (b', Inl d) \<Longrightarrow> good a t0 t1 b' ps cs"
    and sent: "covers a \<Longrightarrow> good a t0 t1 b ps cs \<Longrightarrow> bucket_inv a b ps \<Longrightarrow> p \<in># ps \<Longrightarrow>
      t0 \<le> now \<Longrightarrow> now \<le> t1 \<Longrightarrow> out \<noteq> NotSent \<Longrightarrow>
      bucket_commit dbg b p out now a = Some b' \<Longrightarrow> good a t0 t1 b' (ps - {#p#}) (add_mset p cs)"
    and returned: "covers a \<Longrightarrow> good a t0 t1 b ps cs \<Longrightarrow> bucket_inv a b ps \<Longrightarrow> p \<in># ps \<Longrightarrow>
      t0 \<le> now \<Longrightarrow> now \<le> t1 \<Longrightarrow>
      bucket_refund dbg b p now a = Some b' \<Longrightarrow> good a t0 t1 b' (ps - {#p#}) cs"
    and blocked: "good a t0 t1 b ps cs \<Longrightarrow> good a t0 t1 (apply_blocked_until b u) ps cs"
begin

definition ledger ::
  "algorithm_config \<Rightarrow> duration \<Rightarrow> duration \<Rightarrow> (key, bucket_state) fmap \<Rightarrow> permit multiset \<Rightarrow> permit multiset \<Rightarrow> bool" where
  "ledger a t0 t1 m ps cs \<longleftrightarrow>
     (\<forall>k. case fmlookup m k of
        Some b \<Rightarrow> good a t0 t1 b (keyed k ps) (keyed k cs)
      | None \<Rightarrow> keyed k ps = {#} \<and> keyed k cs = {#})"

lemma ledgerD: "ledger a t0 t1 m ps cs \<Longrightarrow> fmlookup m k = Some b \<Longrightarrow> good a t0 t1 b (keyed k ps) (keyed k cs)"
  unfolding ledger_def by (metis option.simps(5))

lemma ledger_untracked:
  "ledger a t0 t1 m ps cs \<Longrightarrow> fmlookup m k = None \<Longrightarrow> keyed k ps = {#} \<and> keyed k cs = {#}"
  unfolding ledger_def by (metis option.simps(4))

lemma ledger_update:
  assumes "ledger a t0 t1 m ps cs" and "good a t0 t1 b (keyed k ps') (keyed k cs')"
    and "\<And>j. j \<noteq> k \<Longrightarrow> keyed j ps' = keyed j ps \<and> keyed j cs' = keyed j cs"
  shows "ledger a t0 t1 (fmupd k b m) ps' cs'"
  unfolding ledger_def
proof
  fix j
  show "case fmlookup (fmupd k b m) j of
      Some b \<Rightarrow> good a t0 t1 b (keyed j ps') (keyed j cs')
    | None \<Rightarrow> keyed j ps' = {#} \<and> keyed j cs' = {#}"
    using assms(1) [unfolded ledger_def, THEN spec, of j] assms(2) assms(3) [of j]
    by (cases "j = k"; cases "fmlookup m j") simp_all
qed

lemma reserve_entry_ledger:
  assumes r: "reserve_entry dbg rl bk ea c now = Some (rl', res)"
    and inv: "lim_inv rl ps" and cov: "covers (algo_of rl)" and sc: "scaled_from (algo_of rl) ea"
    and led: "ledger (algo_of rl) t0 t1 (l_buckets rl) ps cs" and now: "t0 \<le> now" "now \<le> t1"
  shows "case res of
      Inr p \<Rightarrow> few_permits ps \<longrightarrow> ledger (algo_of rl) t0 t1 (l_buckets rl') (add_mset p ps) cs
    | Inl d \<Rightarrow> ledger (algo_of rl) t0 t1 (l_buckets rl') ps cs"
proof -
  have step: "case res of
      Inr p \<Rightarrow> few_permits ps \<longrightarrow> ledger (algo_of rl) t0 t1 (fmupd bk b' (l_buckets rl)) (add_mset p ps) cs
    | Inl d \<Rightarrow> ledger (algo_of rl) t0 t1 (fmupd bk b' (l_buckets rl)) ps cs"
    if b: "bucket_inv (algo_of rl) b (keyed bk ps)" "good (algo_of rl) t0 t1 b (keyed bk ps) (keyed bk cs)"
      and t: "bucket_try_reserve dbg b bk ea c now = Some (b', res)" for b b'
  proof (cases res)
    case (Inl d)
    then show ?thesis
      using ledger_update [OF led, of b' bk ps cs] denied [OF cov b(2,1) sc now] t by simp
  next
    case (Inr p)
    moreover have "ledger (algo_of rl) t0 t1 (fmupd bk b' (l_buckets rl)) (add_mset p ps) cs"
      if few: "few_permits ps"
    proof (rule ledger_update [OF led])
      have few': "few_permits (keyed bk ps)" using few by (rule few_permits_keyed)
      have "p_key p = bk"
        using bucket_pool.reserve_granted [OF b(1) sc few'] t Inr by blast
      then show "good (algo_of rl) t0 t1 b' (keyed bk (add_mset p ps)) (keyed bk cs)"
        using granted [OF cov b(2,1) sc now few'] t Inr by simp
      show "keyed j (add_mset p ps) = keyed j ps \<and> keyed j cs = keyed j cs" if "j \<noteq> bk" for j
        using that \<open>p_key p = bk\<close> by simp
    qed
    ultimately show ?thesis by simp
  qed
  show ?thesis
  proof (cases "fmlookup (l_buckets rl) bk")
    case (Some b)
    then obtain b' where b': "bucket_try_reserve dbg b bk ea c now = Some (b', res)"
        "l_buckets rl' = fmupd bk b' (l_buckets rl)"
      using r by (auto simp: reserve_entry_def bind_eq_Some_conv)
    from step [OF lim_inv_bucket [OF inv Some] ledgerD [OF led Some] b'(1)] b'(2)
    show ?thesis by (simp split: sum.splits)
  next
    case None
    then obtain b b' where b: "bucket_new dbg now (algo_of rl) = Some b"
        "bucket_try_reserve dbg b bk ea c now = Some (b', res)" "l_buckets rl' = fmupd bk b' (l_buckets rl)"
      using r by (auto simp: reserve_entry_def bind_eq_Some_conv algo_of_def)
    have va: "valid_algorithm (algo_of rl)" using inv by (simp add: lim_inv_def)
    have "bucket_inv (algo_of rl) b (keyed bk ps)"
      using bucket_new_inv [OF va, of dbg now] b(1) ledger_untracked [OF led None] by auto
    moreover have "good (algo_of rl) t0 t1 b (keyed bk ps) (keyed bk cs)"
      using fresh [OF cov va now b(1)] ledger_untracked [OF led None] by simp
    ultimately show ?thesis using step [OF _ _ b(2)] b(3) by (simp split: sum.splits)
  qed
qed

lemma try_acquire_ledger:
  assumes t: "try_acquire dbg rl k c now = Some (rl', res)"
    and inv: "lim_inv rl ps" and cov: "covers (algo_of rl)" and ne: "never_evicts (l_cfg rl)"
    and led: "ledger (algo_of rl) t0 t1 (l_buckets rl) ps cs" and now: "t0 \<le> now" "now \<le> t1"
  shows "case res of
      Inr p \<Rightarrow> few_permits ps \<longrightarrow> ledger (algo_of rl) t0 t1 (l_buckets rl') (add_mset p ps) cs
    | Inl d \<Rightarrow> ledger (algo_of rl) t0 t1 (l_buckets rl') ps cs"
  using t
proof (cases rule: try_acquire_cases)
  case (full d)
  then show ?thesis using ensure_bucket_capacity_never_evicts(1) [OF full(4) ne] led by simp
next
  case (refused rl1 rl2 d)
  then have "reserve_entry dbg rl (resolve_bucket_key rl k) (effective_algorithm rl now) c now = Some (rl2, Inl d)"
    using ensure_bucket_capacity_never_evicts(2) [OF refused(4) ne] by simp
  from reserve_entry_ledger [OF this inv cov effective_algorithm_scaled led now] refused show ?thesis by simp
next
  case (permitted rl1 p)
  then have "reserve_entry dbg rl (resolve_bucket_key rl k) (effective_algorithm rl now) c now = Some (rl', Inr p)"
    using ensure_bucket_capacity_never_evicts(2) [OF permitted(4) ne] by simp
  from reserve_entry_ledger [OF this inv cov effective_algorithm_scaled led now] permitted show ?thesis by simp
qed (use led in simp_all)

lemma commit_ledger:
  assumes c: "commit dbg rl p out now = Some rl'" and p: "p \<in># ps"
    and inv: "lim_inv rl ps" and cov: "covers (algo_of rl)" and out: "out \<noteq> NotSent"
    and led: "ledger (algo_of rl) t0 t1 (l_buckets rl) ps cs" and now: "t0 \<le> now" "now \<le> t1"
  shows "ledger (algo_of rl) t0 t1 (l_buckets rl') (ps - {#p#}) (add_mset p cs)"
proof -
  obtain b where b: "fmlookup (l_buckets rl) (p_key p) = Some b" using lim_inv_held [OF inv p] by blast
  then obtain b' where "bucket_commit dbg b p out now (algo_of rl) = Some b'"
      and rl': "l_buckets rl' = fmupd (p_key p) b' (l_buckets rl)"
    using c by (auto simp: commit_def Let_def bind_eq_Some_conv algo_of_def)
  then have "good (algo_of rl) t0 t1 b' (keyed (p_key p) ps - {#p#}) (add_mset p (keyed (p_key p) cs))"
    using sent [OF cov ledgerD [OF led b] lim_inv_bucket [OF inv b] keyed_member [OF p] now out] by simp
  then show ?thesis unfolding rl' by (intro ledger_update [OF led]) simp_all
qed

lemma refund_ledger:
  assumes c: "refund dbg rl p now = Some rl'" and p: "p \<in># ps"
    and inv: "lim_inv rl ps" and cov: "covers (algo_of rl)"
    and led: "ledger (algo_of rl) t0 t1 (l_buckets rl) ps cs" and now: "t0 \<le> now" "now \<le> t1"
  shows "ledger (algo_of rl) t0 t1 (l_buckets rl') (ps - {#p#}) cs"
proof -
  obtain b where b: "fmlookup (l_buckets rl) (p_key p) = Some b" using lim_inv_held [OF inv p] by blast
  then obtain b' where "bucket_refund dbg b p now (algo_of rl) = Some b'"
      and rl': "l_buckets rl' = fmupd (p_key p) b' (l_buckets rl)"
    using c by (auto simp: refund_def bind_eq_Some_conv algo_of_def)
  then have "good (algo_of rl) t0 t1 b' (keyed (p_key p) ps - {#p#}) (keyed (p_key p) cs)"
    using returned [OF cov ledgerD [OF led b] lim_inv_bucket [OF inv b] keyed_member [OF p] now] by simp
  then show ?thesis unfolding rl' by (intro ledger_update [OF led]) simp_all
qed

lemma block_key_ledger:
  assumes b: "block_key dbg rl rk bk u now = Some rl'" and inv: "lim_inv rl ps"
    and cov: "covers (algo_of rl)" and ne: "never_evicts (l_cfg rl)"
    and led: "ledger (algo_of rl) t0 t1 (l_buckets rl) ps cs" and now: "t0 \<le> now" "now \<le> t1"
  shows "ledger (algo_of rl) t0 t1 (l_buckets rl') ps cs"
proof -
  obtain rl2 found where m: "bucket_mut_or_insert dbg rl rk bk now = Some (rl2, found)"
    using b by (auto simp: block_key_def bind_eq_Some_conv)
  have led2: "ledger (algo_of rl) t0 t1 (l_buckets rl2) ps cs"
    using bucket_mut_or_insert_never_evicts [OF m ne]
  proof (elim disjE exE conjE)
    fix b assume n: "bucket_new dbg now (algo_of rl) = Some b" "fmlookup (l_buckets rl) bk = None"
      and rl2: "l_buckets rl2 = fmupd bk b (l_buckets rl)"
    have "valid_algorithm (algo_of rl)" using inv by (simp add: lim_inv_def)
    then have "good (algo_of rl) t0 t1 b (keyed bk ps) (keyed bk cs)"
      using fresh [OF cov _ now n(1)] ledger_untracked [OF led n(2)] by simp
    then show ?thesis unfolding rl2 by (intro ledger_update [OF led]) simp_all
  qed (use led in simp)
  have "ledger (algo_of rl) t0 t1 (fmupd bk (apply_blocked_until b2 u) (l_buckets rl2)) ps cs"
    if "fmlookup (l_buckets rl2) bk = Some b2" for b2
    by (rule ledger_update [OF led2]) (simp_all add: blocked ledgerD [OF led2 that])
  with b m led2 show ?thesis
    by (cases found; cases "fmlookup (l_buckets rl2) bk") (auto simp: block_key_def)
qed

lemma apply_feedback_ledger:
  assumes a: "apply_feedback dbg rl k fb now = Some rl'" and inv: "lim_inv rl ps"
    and cov: "covers (algo_of rl)" and ne: "never_evicts (l_cfg rl)"
    and led: "ledger (algo_of rl) t0 t1 (l_buckets rl) ps cs" and now: "t0 \<le> now" "now \<le> t1"
  shows "ledger (algo_of rl) t0 t1 (l_buckets rl') ps cs"
  using a
proof (cases rule: apply_feedback_cases)
  case (global_scope rl1 ar ev)
  then show ?thesis using led feedback_remap_frame(3) [OF global_scope(1)] by simp
next
  case (key_scope rl1 ar rl2 ev)
  note fr = feedback_remap_frame [OF key_scope(1)]
  have "ledger (algo_of rl1) t0 t1 (l_buckets rl2) ps cs"
    by (rule block_key_ledger [OF key_scope(3)]) (use fr inv cov ne led now in \<open>simp_all add: algo_of_def\<close>)
  then show ?thesis using fr key_scope by (simp add: algo_of_def)
qed

text \<open>The law holds for every key throughout a run.\<close>

lemma run_ledger:
  assumes "limiter_run dbg cfg t0 t1 rl ps cs"
    and "built cfg" and "never_evicts cfg" and "covers (cfg_algorithm cfg)"
  shows "lim_inv rl ps \<and> l_cfg rl = cfg \<and> ledger (algo_of rl) t0 t1 (l_buckets rl) ps cs"
  using assms(1)
proof (induction rule: limiter_run.induct)
  case (run_start s)
  have "ledger a t0 t1 fmempty {#} {#}" for a by (simp add: ledger_def)
  with assms(2) show ?case
    by (simp add: built_valid limiter_new_inv) (simp add: limiter_new_at_def)
next
  case (run_granted rl ps cs now k c rl' p)
  have "l_cfg rl' = l_cfg rl" using run_granted operation_cfg(1) by blast
  with run_granted assms(3,4) try_acquire_result [OF run_granted(5), of ps]
    try_acquire_ledger [OF run_granted(5), of ps t0 t1 cs]
  show ?case by (auto simp: algo_of_def)
next
  case (run_denied rl ps cs now k c rl' d)
  have "l_cfg rl' = l_cfg rl" using run_denied operation_cfg(1) by blast
  with run_denied assms(3,4) try_acquire_result [OF run_denied(4), of ps]
    try_acquire_ledger [OF run_denied(4), of ps t0 t1 cs]
  show ?case by (auto simp: algo_of_def)
next
  case (run_sent rl ps cs now p out rl')
  have "l_cfg rl' = l_cfg rl" using run_sent operation_cfg(2) by blast
  with run_sent assms(3,4) commit_inv(1) [OF _ _ run_sent(6), of ps] commit_ledger [OF run_sent(6), of ps t0 t1 cs]
  show ?case by (auto simp: algo_of_def)
next
  case (run_not_sent rl ps cs now p rl')
  then have r: "refund dbg rl p now = Some rl'" using commit_not_sent by metis
  then have "l_cfg rl' = l_cfg rl" using run_not_sent operation_cfg(3) by blast
  with run_not_sent assms(3,4) refund_inv(1) [OF _ _ r, of ps] refund_ledger [OF r, of ps t0 t1 cs]
  show ?case by (auto simp: algo_of_def)
next
  case (run_refunded rl ps cs now p rl')
  have "l_cfg rl' = l_cfg rl" using run_refunded operation_cfg(3) by blast
  with run_refunded assms(3,4) refund_inv(1) [OF _ _ run_refunded(5), of ps]
    refund_ledger [OF run_refunded(5), of ps t0 t1 cs]
  show ?case by (auto simp: algo_of_def)
next
  case (run_feedback rl ps cs now k fb rl')
  have "l_cfg rl' = l_cfg rl" using run_feedback operation_cfg(4) by blast
  with run_feedback assms(3,4) apply_feedback_result [OF run_feedback(4), of ps]
    apply_feedback_ledger [OF run_feedback(4), of ps t0 t1 cs]
  show ?case by (auto simp: algo_of_def)
qed

end

end
