(* ===== verification/Throughput.thy ===== *)
theory Throughput
  imports Ledger
begin

text \<open>
  The two throughput bounds: a credit pool lets through at most its capacity plus what its rate
  adds over time, and a fixed window at most its limit per window.
\<close>

lemma weights_union [simp]: "weights (ps + cs) = weights ps + weights cs"
  by (simp add: weights_def)

section \<open>The credit pool\<close>

fun is_token :: "algorithm_config \<Rightarrow> bool" where
  "is_token (CfgTokenBucket cap r) \<longleftrightarrow> True"
| "is_token (CfgFixedWindow m w) \<longleftrightarrow> False"

text \<open>Credits left, held and spent together never exceed the capacity plus what has accrued.\<close>

fun pool_good ::
  "algorithm_config \<Rightarrow> algo_state \<Rightarrow> duration \<Rightarrow> duration \<Rightarrow> permit multiset \<Rightarrow> permit multiset \<Rightarrow> bool" where
  "pool_good (CfgTokenBucket cap r) (AlgoTokenBucket s) t0 t1 ps cs \<longleftrightarrow>
     t0 \<le> tb_last_update s \<and> tb_last_update s \<le> t1 \<and>
     weights ps + weights cs + unat (tb_credits s) \<le>
       unat cap + accrued (unat r) (nanos_of (tb_last_update s) - nanos_of t0)"
| "pool_good _ _ t0 t1 ps cs \<longleftrightarrow> False"

lemma pool_good_refill:
  assumes g: "pool_good (CfgTokenBucket cap r) (AlgoTokenBucket s) t0 t1 ps cs"
    and r': "unat r' \<le> unat r" and now: "now \<le> t1"
  shows "pool_good (CfgTokenBucket cap r) (AlgoTokenBucket (tb_refill s cap' r' now)) t0 t1 ps cs"
proof -
  let ?s' = "tb_refill s cap' r' now" and ?l = "nanos_of (tb_last_update s)"
  let ?l' = "nanos_of (max (tb_last_update s) now)"
  have ord: "nanos_of t0 \<le> ?l" "?l \<le> ?l'"
    using g by (simp_all add: less_eq_duration_def nanos_of_max)
  have "unat (tb_credits ?s') \<le> unat (tb_credits s) + accrued (unat r) (?l' - ?l)"
    using tb_refill_credits_bound [of s cap' r' now] accrued_mono_rate [OF r', of "?l' - ?l"] by linarith
  moreover have "accrued (unat r) (?l - nanos_of t0) + accrued (unat r) (?l' - ?l) \<le>
      accrued (unat r) (?l' - nanos_of t0)"
    using accrued_superadditive [of "unat r" "?l - nanos_of t0" "?l' - ?l"] ord by simp
  ultimately show ?thesis using g now by (auto simp: le_max_iff_disj)
qed

text \<open>The part of the law that reads the state: fewer credits keep it.\<close>

lemma pool_good_less:
  "pool_good (CfgTokenBucket cap r) (AlgoTokenBucket s) t0 t1 ps cs \<Longrightarrow>
    tb_last_update s' = tb_last_update s \<Longrightarrow>
    weights ps' + weights cs' + unat (tb_credits s') \<le> weights ps + weights cs + unat (tb_credits s) \<Longrightarrow>
    pool_good (CfgTokenBucket cap r) (AlgoTokenBucket s') t0 t1 ps' cs'"
  by simp

lemma token_try_reserve_pool:
  assumes g: "pool_good (CfgTokenBucket cap r) (AlgoTokenBucket s) t0 t1 ps cs"
    and r': "unat r' \<le> unat r" and now: "now \<le> t1"
    and t: "token_try_reserve dbg s k cap' r' c now = Some (s', res)"
  shows "pool_good (CfgTokenBucket cap r) (AlgoTokenBucket s') t0 t1
    (case res of Inr p \<Rightarrow> add_mset p ps | Inl d \<Rightarrow> ps) cs"
proof (cases "cap' = 0")
  case True
  with t g show ?thesis by (auto simp: token_try_reserve_def)
next
  case False
  note rf = pool_good_refill [OF g r' now, of cap']
  obtain s1 r1 where s1: "tb_try_reserve dbg s cap' r' c now = Some (s1, r1)" using tb_try_reserve_total by blast
  show ?thesis
  proof (cases r1)
    case (Inl d)
    with s1 t False rf tb_try_reserve_denied(1) [of dbg s cap' r' c now s1 d] show ?thesis
      by (auto simp: token_try_reserve_def)
  next
    case (Inr u)
    then have gr: "tb_try_reserve dbg s cap' r' c now = Some (s1, Inr ())" using s1 by simp
    with t False obtain p where p: "res = Inr p" "p_cost p = c" "s' = s1"
      by (auto simp: token_try_reserve_def)
    have "pool_good (CfgTokenBucket cap r) (AlgoTokenBucket s1) t0 t1 (add_mset p ps) cs"
      by (rule pool_good_less [OF rf]) (use tb_try_reserve_granted [OF gr] p in simp_all)
    with p show ?thesis by simp
  qed
qed

lemma tb_refund_pool:
  assumes g: "pool_good (CfgTokenBucket cap r) (AlgoTokenBucket s) t0 t1 ps cs"
    and now: "now \<le> t1" and p: "p \<in># ps" and t: "tb_refund dbg s cap (p_cost p) now r = Some s'"
  shows "pool_good (CfgTokenBucket cap r) (AlgoTokenBucket s') t0 t1 (ps - {#p#}) cs"
proof (rule pool_good_less [OF pool_good_refill [OF g _ now, of r cap]])
  let ?s = "tb_refill s cap r now"
  show "tb_last_update s' = tb_last_update ?s"
    using t by (auto simp: tb_refund_def Let_def bind_eq_Some_conv)
  have "tb_credits s' \<le> tb_credits ?s + ucast (cost_get (p_cost p))"
    using t by (auto simp: tb_refund_def Let_def bind_eq_Some_conv checked_plus_def split: if_splits)
  then have "unat (tb_credits s') \<le> unat (tb_credits ?s) + weight (p_cost p)"
    using unat_word_ariths(1) [of "tb_credits ?s" "ucast (cost_get (p_cost p))"]
    by (simp add: word_le_nat_alt)
  then show "weights (ps - {#p#}) + weights cs + unat (tb_credits s') \<le> weights ps + weights cs + unat (tb_credits ?s)"
    using weights_remove [OF p] weight_le_weights [OF p] by simp
qed simp

definition pool_ledger ::
  "algorithm_config \<Rightarrow> duration \<Rightarrow> duration \<Rightarrow> bucket_state \<Rightarrow> permit multiset \<Rightarrow> permit multiset \<Rightarrow> bool" where
  "pool_ledger a t0 t1 b ps cs \<longleftrightarrow> pool_good a (algo b) t0 t1 ps cs"

lemma pool_good_cases:
  assumes "pool_good a st t0 t1 ps cs"
  obtains cap r s where "a = CfgTokenBucket cap r" "st = AlgoTokenBucket s"
  using assms by (cases "(a, st, t0, t1, ps, cs)" rule: pool_good.cases) auto

lemma algo_try_reserve:
  assumes "bucket_try_reserve dbg b k a c now = Some (b', res)"
  obtains d where "algo b' = algo b" "res = Inl d"
    | s s' m w where "a = CfgFixedWindow m w" "algo b = AlgoFixedWindow s" "algo b' = AlgoFixedWindow s'"
        "fw_try_reserve dbg s k m w c now = Some (s', res)"
    | s s' cap r where "a = CfgTokenBucket cap r" "algo b = AlgoTokenBucket s" "algo b' = AlgoTokenBucket s'"
        "token_try_reserve dbg s k cap r c now = Some (s', res)"
  using assms
  by (auto simp: bucket_try_reserve_eq bucket_decide_def bind_eq_Some_conv
      split: option.splits if_splits algo_state.splits algorithm_config.splits)

lemma pool_ledger_try_reserve:
  assumes g: "pool_ledger a t0 t1 b ps cs" and sc: "scaled_from a a'" and now: "now \<le> t1"
    and t: "bucket_try_reserve dbg b k a' c now = Some (b', res)"
  shows "pool_ledger a t0 t1 b' (case res of Inr p \<Rightarrow> add_mset p ps | Inl d \<Rightarrow> ps) cs"
proof -
  obtain cap r s where a: "a = CfgTokenBucket cap r" "algo b = AlgoTokenBucket s"
    using g by (auto simp: pool_ledger_def elim: pool_good_cases)
  from t show ?thesis
  proof (cases rule: algo_try_reserve)
    case (1 d)
    with g show ?thesis by (simp add: pool_ledger_def)
  next
    case (3 s2 s' cap' r')
    then have "unat r' \<le> unat r" using sc a by (simp add: word_le_nat_alt)
    from token_try_reserve_pool [OF _ this now 3(4), of cap t0 ps cs] g a 3 show ?thesis
      by (simp add: pool_ledger_def)
  qed (use a in simp)
qed

lemma algo_bucket_refund:
  assumes "bucket_refund dbg b p now (CfgTokenBucket cap r) = Some b'"
    and "algo b = AlgoTokenBucket s" and "p_meta p = MetaTokenBucket"
  obtains s' where "tb_refund dbg s cap (p_cost p) now r = Some s'" and "algo b' = AlgoTokenBucket s'"
  using assms by (auto simp: bucket_refund_def bind_eq_Some_conv)

lemma algo_bucket_commit:
  assumes "bucket_commit dbg b p out now (CfgTokenBucket cap r) = Some b'" and "out \<noteq> NotSent"
    and "algo b = AlgoTokenBucket s" and "p_meta p = MetaTokenBucket"
  shows "algo b' = AlgoTokenBucket (tb_commit s (p_cost p))"
  using assms by (cases out) (auto simp: bucket_commit_def token_commit_def Let_def split: scope.splits)

interpretation pool_run: bucket_ledger is_token pool_ledger
proof (unfold_locales, goal_cases)
  case (1 a t0 now t1 dbg b)
  then show ?case
    by (cases a) (auto simp: pool_ledger_def bucket_new_def algo_new_def tb_new_def)
next
  case (2 a t0 t1 b ps cs a' now dbg k c b' p)
  then show ?case using pool_ledger_try_reserve [of a t0 t1 b ps cs a' now dbg k c b' "Inr p"] by simp
next
  case (3 a t0 t1 b ps cs a' now dbg k c b' d)
  then show ?case using pool_ledger_try_reserve [of a t0 t1 b ps cs a' now dbg k c b' "Inl d"] by simp
next
  case (4 a t0 t1 b ps cs p now out dbg b')
  then obtain cap r s where a: "a = CfgTokenBucket cap r" "algo b = AlgoTokenBucket s"
    by (auto simp: pool_ledger_def elim: pool_good_cases)
  then have "p_meta p = MetaTokenBucket" using 4 by (auto simp: bucket_inv_def tb_inv_def)
  with 4 a weights_remove [OF 4(4)] weight_le_weights [OF 4(4)] algo_bucket_commit [of dbg b p out now cap r b' s]
  show ?case by (simp add: pool_ledger_def)
next
  case (5 a t0 t1 b ps cs p now dbg b')
  then obtain cap r s where a: "a = CfgTokenBucket cap r" "algo b = AlgoTokenBucket s"
    by (auto simp: pool_ledger_def elim: pool_good_cases)
  then have "p_meta p = MetaTokenBucket" using 5 by (auto simp: bucket_inv_def tb_inv_def)
  then obtain s' where "tb_refund dbg s cap (p_cost p) now r = Some s'" "algo b' = AlgoTokenBucket s'"
    using 5 a algo_bucket_refund by blast
  then show ?case using tb_refund_pool [of cap r s t0 t1 ps cs now p dbg s'] 5 a
    by (simp add: pool_ledger_def)
next
  case (6 a t0 t1 b ps cs u)
  then show ?case by (simp add: pool_ledger_def)
qed

text \<open>C3: In a run under one configuration, a credit pool that never evicts (its keys have no bound, or a new
  key over the bound is denied), and calls that fall between two instants, in whatever order, the
  total cost a key has been granted and not given back is at most the capacity plus what the
  refill rate yields over the length of the interval; slow start only lowers it. Under
  \<open>EvictOldestKey\<close> a key that comes back after an eviction starts with a full pool.\<close>

theorem credit_pool_rate_bound:
  assumes "limiter_run dbg cfg t0 t1 rl ps cs" and "built cfg" and "never_evicts cfg"
    and "cfg_algorithm cfg = CfgTokenBucket capacity refill_per_sec"
  shows "weights (keyed k ps) + weights (keyed k cs) \<le>
    unat capacity + unat refill_per_sec * (nanos_of t1 - nanos_of t0) div nanos_per_sec"
proof (cases "fmlookup (l_buckets rl) k")
  case None
  have "keyed k ps = {#} \<and> keyed k cs = {#}"
    using pool_run.run_ledger [OF assms(1-3)] pool_run.ledger_untracked [OF _ None] assms(4) by auto
  then show ?thesis by simp
next
  case (Some b)
  have a: "algo_of rl = CfgTokenBucket capacity refill_per_sec"
    and g: "pool_ledger (algo_of rl) t0 t1 b (keyed k ps) (keyed k cs)"
    using pool_run.run_ledger [OF assms(1-3)] pool_run.ledgerD [OF _ Some] assms(4)
    by (auto simp: algo_of_def)
  obtain s where s: "algo b = AlgoTokenBucket s" using g a by (cases "algo b") (auto simp: pool_ledger_def)
  have "tb_last_update s \<le> t1" and
    "weights (keyed k ps) + weights (keyed k cs) \<le>
      unat capacity + accrued (unat refill_per_sec) (nanos_of (tb_last_update s) - nanos_of t0)"
    using g a s by (simp_all add: pool_ledger_def)
  moreover from this(1) have "accrued (unat refill_per_sec) (nanos_of (tb_last_update s) - nanos_of t0) \<le>
      accrued (unat refill_per_sec) (nanos_of t1 - nanos_of t0)"
    by (intro accrued_mono diff_le_mono) (simp add: less_eq_duration_def)
  ultimately show ?thesis by (simp add: accrued_def)
qed

lemma credit_pool_rate_bound_witness:
  "weights (keyed 7 {#ex_token_permit#}) + weights (keyed 7 {#}) \<le> 10 + 2 * 500000000 div nanos_per_sec"
proof -
  have ord: "dur 1000000000 \<le> from_millis 1500" "from_millis 1500 \<le> dur 1500000000"
    by (simp_all add: eval_simps)
  have "limiter_run True ex_tokens (dur 1000000000) (dur 1500000000) ex_token_limiter {#ex_token_permit#} {#}"
    using run_granted [OF run_start ord _ ex_token_acquire [unfolded limiter_new_def]]
    by (simp add: few_permits_def)
  moreover have "never_evicts ex_tokens" and "cfg_algorithm ex_tokens = CfgTokenBucket 10 2"
    by (simp_all add: never_evicts_def ex_tokens_def)
  ultimately show ?thesis
    using credit_pool_rate_bound [OF _ ex_tokens_built, of True "dur 1000000000" "dur 1500000000"
        ex_token_limiter "{#ex_token_permit#}" "{#}" 10 2 7]
    by (simp add: max_nanos_def)
qed

section \<open>The fixed window\<close>

fun is_window :: "algorithm_config \<Rightarrow> bool" where
  "is_window (CfgFixedWindow m w) \<longleftrightarrow> True"
| "is_window (CfgTokenBucket cap r) \<longleftrightarrow> False"

text \<open>What has been charged to the window that starts at \<open>ws\<close>.\<close>

definition charged :: "duration \<Rightarrow> permit multiset \<Rightarrow> nat" where
  "charged ws ps = weights (filter_mset (\<lambda>p. p_meta p = MetaFixedWindow ws) ps)"

lemma charged_simps [simp]:
  "charged ws {#} = 0"
  "charged ws (add_mset p ps) = (if p_meta p = MetaFixedWindow ws then weight (p_cost p) else 0) + charged ws ps"
  "charged ws (ps + qs) = charged ws ps + charged ws qs"
  by (simp_all add: charged_def)

lemma charged_remove:
  "p \<in># ps \<Longrightarrow> charged ws ps = charged ws (ps - {#p#}) + (if p_meta p = MetaFixedWindow ws then weight (p_cost p) else 0)"
  by (metis add.commute charged_simps(2) insert_DiffM)

text \<open>
  The current window's charges are what the state counts, later windows have none, and none
  exceeds the limit.
\<close>

fun window_good ::
  "algorithm_config \<Rightarrow> algo_state \<Rightarrow> permit multiset \<Rightarrow> bool" where
  "window_good (CfgFixedWindow m w) (AlgoFixedWindow s) qs \<longleftrightarrow>
     charged (fw_window_start s) qs = fw_used s \<and>
     (\<forall>ws. fw_window_start s < ws \<longrightarrow> charged ws qs = 0) \<and> (\<forall>ws. charged ws qs \<le> unat m)"
| "window_good _ _ qs \<longleftrightarrow> False"

lemma window_start_advances:
  assumes "saturating_add ws window \<le> now" and "now < dur_max" and "window_start_for dbg now window = Some ws'"
  shows "ws < ws'"
proof -
  have "now < saturating_add ws' window" using window_end_gt [OF assms(3,2)] .
  with assms(1) have "saturating_add ws window < saturating_add ws' window" by simp
  then show ?thesis by (auto simp: less_duration_def)
qed

lemma window_good_reset:
  assumes g: "window_good (CfgFixedWindow m w) (AlgoFixedWindow s) qs"
    and now: "now < dur_max" and r: "fw_maybe_reset_window dbg s now w = Some s'"
  shows "window_good (CfgFixedWindow m w) (AlgoFixedWindow s') qs"
proof (cases "s' = s")
  case False
  with r obtain ws where "saturating_add (fw_window_start s) w \<le> now"
      and ws: "window_start_for dbg now w = Some ws"
      and s': "s' = s\<lparr>fw_window_start := ws, fw_spent := 0, fw_reserved := 0\<rparr>"
    by (auto simp: fw_maybe_reset_window_def Let_def bind_eq_Some_conv split: if_splits)
  then have "fw_window_start s < ws" using window_start_advances now by blast
  with g s' show ?thesis by (auto simp: fw_used_def)
qed (use g in simp)

text \<open>A window does not move while a permit of it is held.\<close>

lemma fw_pinned: "fw_inv s ps \<Longrightarrow> p \<in># ps \<Longrightarrow> fw_maybe_reset_window dbg s now window = Some s"
  using weight_le_weights [of p ps] weight_pos [of "p_cost p"]
  by (auto simp: fw_maybe_reset_window_def fw_inv_def)

lemma fw_commit_used:
  assumes "fw_inv s ps" and "p \<in># ps" and "fw_commit dbg s (p_cost p) (fw_window_start s) out now w = Some s'"
    and "out \<noteq> NotSent"
  shows "fw_used s' = fw_used s" and "fw_window_start s' = fw_window_start s"
  using assms weight_le_weights [OF assms(2)]
  by (auto simp: fw_commit_def fw_pinned [OF assms(1,2)] Let_def fw_used_def fw_inv_def
      unat_sat_add unat_sat_sub weight_def)

lemma fw_refund_used:
  assumes "fw_inv s ps" and "p \<in># ps" and "fw_refund dbg s (p_cost p) (fw_window_start s) now w = Some s'"
  shows "fw_used s = fw_used s' + weight (p_cost p)" and "fw_window_start s' = fw_window_start s"
  using assms weight_le_weights [OF assms(2)]
  by (auto simp: fw_refund_def fw_pinned [OF assms(1,2)] fw_used_def fw_inv_def unat_sat_sub weight_def)

lemma fw_try_reserve_window:
  assumes g: "window_good (CfgFixedWindow m w) (AlgoFixedWindow s) qs" and inv: "fw_inv s ps"
    and w: "\<not> is_zero w" and m': "unat m' \<le> unat m" and now: "now < dur_max"
    and t: "fw_try_reserve dbg s k m' w c now = Some (s', res)"
  shows "window_good (CfgFixedWindow m w) (AlgoFixedWindow s') (case res of Inr p \<Rightarrow> add_mset p qs | Inl d \<Rightarrow> qs)"
proof -
  obtain s1 where s1: "fw_maybe_reset_window dbg s now w = Some s1" "fw_inv s1 ps"
    using fw_reset_some [OF inv w] .
  have used: "fw_used s1 < 2 ^ 32" using s1(2) by (simp add: fw_inv_def)
  have g1: "window_good (CfgFixedWindow m w) (AlgoFixedWindow s1) qs"
    using window_good_reset [OF g now s1(1)] .
  have fits: "unat (fw_reserved s1 + cost_get c) = unat (fw_reserved s1) + weight c"
    if "\<not> unat m' < fw_used s1 + weight c"
    using that unat_word_less [of m'] by (subst unat_plus_fits) (simp_all add: fw_used_def weight_def)
  show ?thesis
    using t g1 fits m' unfolding fw_try_reserve_from [OF s1(1) used]
    by (auto simp: fw_used_def split: if_splits)
qed

definition window_ledger ::
  "algorithm_config \<Rightarrow> duration \<Rightarrow> duration \<Rightarrow> bucket_state \<Rightarrow> permit multiset \<Rightarrow> permit multiset \<Rightarrow> bool" where
  "window_ledger a t0 t1 b ps cs \<longleftrightarrow> (t1 < dur_max \<longrightarrow> window_good a (algo b) (ps + cs))"

lemma window_inv_cases:
  assumes "is_window a" and "bucket_inv a b ps"
  obtains m w s where "a = CfgFixedWindow m w" "algo b = AlgoFixedWindow s" "\<not> is_zero w" "fw_inv s ps"
  using assms(2) unfolding bucket_inv_def by (cases rule: algo_inv_cases) (use assms(1) that in auto)

lemma window_ledger_try_reserve:
  assumes cov: "is_window a" and g: "window_ledger a t0 t1 b ps cs" and inv: "bucket_inv a b ps"
    and sc: "scaled_from a a'" and now: "now \<le> t1"
    and t: "bucket_try_reserve dbg b k a' c now = Some (b', res)"
  shows "window_ledger a t0 t1 b' (case res of Inr p \<Rightarrow> add_mset p ps | Inl d \<Rightarrow> ps) cs"
proof -
  obtain m w s where a: "a = CfgFixedWindow m w" "algo b = AlgoFixedWindow s" "\<not> is_zero w" "fw_inv s ps"
    using window_inv_cases [OF cov inv] .
  from t show ?thesis
  proof (cases rule: algo_try_reserve)
    case (1 d)
    with g show ?thesis by (simp add: window_ledger_def)
  next
    case (2 s2 s' m' w')
    then have m': "unat m' \<le> unat m" "w' = w" "s2 = s" using sc a by (simp_all add: word_le_nat_alt)
    show ?thesis
      unfolding window_ledger_def
    proof
      assume t1: "t1 < dur_max"
      then have "window_good (CfgFixedWindow m w) (AlgoFixedWindow s) (ps + cs)"
        using g a by (simp only: window_ledger_def)
      moreover have "fw_try_reserve dbg s k m' w c now = Some (s', res)" using 2 m' by simp
      ultimately have "window_good (CfgFixedWindow m w) (AlgoFixedWindow s')
          (case res of Inr p \<Rightarrow> add_mset p (ps + cs) | Inl d \<Rightarrow> ps + cs)"
        using fw_try_reserve_window a(3,4) m'(1) le_less_trans [OF now t1] by blast
      then show "window_good a (algo b') ((case res of Inr p \<Rightarrow> add_mset p ps | Inl d \<Rightarrow> ps) + cs)"
        using a(1) 2(3) by (cases res) simp_all
    qed
  qed (use a in simp)
qed

interpretation window_run: bucket_ledger is_window window_ledger
proof (unfold_locales, goal_cases)
  case (1 a t0 now t1 dbg b)
  then obtain m w where a: "a = CfgFixedWindow m w" by (cases a) auto
  then obtain ws where "algo b = AlgoFixedWindow \<lparr>fw_window_start = ws, fw_reserved = 0, fw_spent = 0\<rparr>"
    using 1 by (auto simp: bucket_new_def algo_new_def fw_new_def bind_eq_Some_conv)
  with a show ?case by (simp add: window_ledger_def fw_used_def)
next
  case (2 a t0 t1 b ps cs a' now dbg k c b' p)
  then show ?case using window_ledger_try_reserve [of a t0 t1 b ps cs a' now dbg k c b' "Inr p"] by simp
next
  case (3 a t0 t1 b ps cs a' now dbg k c b' d)
  then show ?case using window_ledger_try_reserve [of a t0 t1 b ps cs a' now dbg k c b' "Inl d"] by simp
next
  case (4 a t0 t1 b ps cs p now out dbg b')
  then obtain m w s where a: "a = CfgFixedWindow m w" "algo b = AlgoFixedWindow s" "fw_inv s ps"
    using window_inv_cases by blast
  then have "p_meta p = MetaFixedWindow (fw_window_start s)" using 4 by (auto simp: fw_inv_def)
  with 4 a obtain s' where s': "fw_commit dbg s (p_cost p) (fw_window_start s) out now w = Some s'"
      "algo b' = AlgoFixedWindow s'"
    by (auto simp: bucket_commit_def Let_def bind_eq_Some_conv split: outcome.splits scope.splits)
  have "ps - {#p#} + add_mset p cs = ps + cs" using 4(4) by simp
  then show ?case using 4(2) a fw_commit_used [OF a(3) 4(4) s'(1) 4(7)] s'(2)
    by (simp only: window_ledger_def window_good.simps)
next
  case (5 a t0 t1 b ps cs p now dbg b')
  then obtain m w s where a: "a = CfgFixedWindow m w" "algo b = AlgoFixedWindow s" "fw_inv s ps"
    using window_inv_cases by blast
  then have pw: "p_meta p = MetaFixedWindow (fw_window_start s)" using 5 by (auto simp: fw_inv_def)
  with 5 a obtain s' where s': "fw_refund dbg s (p_cost p) (fw_window_start s) now w = Some s'"
      "algo b' = AlgoFixedWindow s'"
    by (auto simp: bucket_refund_def bind_eq_Some_conv)
  note used = fw_refund_used [OF a(3) 5(4) s'(1)]
  have ch: "charged ws (ps + cs) = charged ws (ps - {#p#} + cs) +
      (if ws = fw_window_start s then weight (p_cost p) else 0)" for ws
    using charged_remove [OF 5(4), of ws] pw by auto
  show ?case
    unfolding window_ledger_def
  proof
    assume "t1 < dur_max"
    then have g: "window_good (CfgFixedWindow m w) (AlgoFixedWindow s) (ps + cs)"
      using 5(2) a by (simp only: window_ledger_def)
    have "charged ws (ps - {#p#} + cs) \<le> charged ws (ps + cs)" for ws using ch [of ws] by simp
    then have "charged ws (ps - {#p#} + cs) \<le> unat m" for ws
      using g le_trans by (simp only: window_good.simps) blast
    moreover have "charged (fw_window_start s) (ps - {#p#} + cs) = fw_used s'"
      using g ch [of "fw_window_start s"] used(1) by (simp only: window_good.simps) simp
    moreover have "charged ws (ps - {#p#} + cs) = 0" if "fw_window_start s < ws" for ws
      using g ch [of ws] that by (simp only: window_good.simps)
    ultimately show "window_good a (algo b') (ps - {#p#} + cs)"
      using a(1) s'(2) used(2) by (simp only: window_good.simps) blast
  qed
next
  case (6 a t0 t1 b ps cs u)
  then show ?case by (simp add: window_ledger_def)
qed

text \<open>C2: In a run under one configuration, a fixed window that never evicts (its keys have no bound, or a
  new key over the bound is denied), for every key and every window label the total cost of the
  permits that carry the label as their window start and are held or were committed as sent is at
  most the configured maximum, whatever the order of the calls, and however the clock moves below
  the largest \<open>Duration\<close>; slow start only lowers it. The label is the window the permit was granted
  in, as its bucket counts: a bucket stays in its window while a permit is held, past the window of
  the clock (\<open>held_permit_overissues\<close>). Under \<open>EvictOldestKey\<close> an evicted key forgets what it spent
  (\<open>eviction_forgets_what_was_spent\<close>).\<close>

theorem fixed_window_limit:
  assumes "limiter_run dbg cfg t0 t1 rl ps cs" and "built cfg" and "never_evicts cfg"
    and "cfg_algorithm cfg = CfgFixedWindow max_per_window window" and "t1 < dur_max"
  shows "charged ws (keyed k ps) + charged ws (keyed k cs) \<le> unat max_per_window"
proof (cases "fmlookup (l_buckets rl) k")
  case None
  have "keyed k ps = {#} \<and> keyed k cs = {#}"
    using window_run.run_ledger [OF assms(1-3)] window_run.ledger_untracked [OF _ None] assms(4) by auto
  then show ?thesis by simp
next
  case (Some b)
  have a: "algo_of rl = CfgFixedWindow max_per_window window"
    and g: "window_ledger (algo_of rl) t0 t1 b (keyed k ps) (keyed k cs)"
    using window_run.run_ledger [OF assms(1-3)] window_run.ledgerD [OF _ Some] assms(4)
    by (auto simp: algo_of_def)
  then show ?thesis using assms(5) by (cases "algo b") (auto simp: window_ledger_def)
qed

definition ex_steady :: config where
  "ex_steady = ex_config\<lparr>cfg_overflow_policy := DenyNewKey\<rparr>"

lemma ex_steady_acquire:
  "try_acquire True (limiter_new_at ex_steady (dur 0)) 7 (Cost 2) (from_millis 1500) =
    Some (ex_limiter\<lparr>l_cfg := ex_steady\<rparr>, Inr ex_permit)"
  by (simp add: ex_steady_def ex_eval)

lemma ex_steady_built: "built ex_steady"
  using built_policy [of ex_config DenyNewKey] ex_config_built
  by (simp add: ex_steady_def with_overflow_policy_def)

lemma fixed_window_limit_witness:
  "charged (dur 1000000000) (keyed 7 {#ex_permit#}) + charged (dur 1000000000) (keyed 7 {#}) \<le> 3"
proof -
  have ord: "dur 0 \<le> from_millis 1500" "from_millis 1500 \<le> dur 1500000000" "dur 1500000000 < dur_max"
    by (simp_all add: eval_simps)
  have "limiter_run True ex_steady (dur 0) (dur 1500000000) (ex_limiter\<lparr>l_cfg := ex_steady\<rparr>) {#ex_permit#} {#}"
    using run_granted [OF run_start ord(1,2) _ ex_steady_acquire] by (simp add: few_permits_def)
  moreover have "never_evicts ex_steady" and "cfg_algorithm ex_steady = CfgFixedWindow 3 (dur 1000000000)"
    by (simp_all add: never_evicts_def ex_steady_def ex_config_def)
  ultimately show ?thesis
    using fixed_window_limit [OF _ ex_steady_built, of True "dur 0" "dur 1500000000" _ "{#ex_permit#}"
        "{#}" 3 _ "dur 1000000000" 7] ord(3) by simp
qed

text \<open>Under the other policy a key that was evicted has forgotten what it spent, within its window.\<close>

definition ex_crowded :: config where
  "ex_crowded =
     \<lparr>cfg_algorithm = CfgFixedWindow 1 (dur 10000000000), cfg_max_keys = Some 1,
      cfg_overflow_policy = EvictOldestKey, cfg_slow_start = None\<rparr>"

lemma eviction_forgets_what_was_spent:
  "\<exists>l1 l2 l3 l4 l5 p1 p2 p3.
    try_acquire dbg (limiter_new ex_crowded) 7 (Cost 1) (from_secs 1) = Some (l1, Inr p1) \<and>
    commit dbg l1 p1 Confirmed (from_secs 1) = Some l2 \<and>
    try_acquire dbg l2 8 (Cost 1) (from_secs 1) = Some (l3, Inr p2) \<and>
    commit dbg l3 p2 Confirmed (from_secs 1) = Some l4 \<and>
    try_acquire dbg l4 7 (Cost 1) (from_secs 1) = Some (l5, Inr p3)"
  by (simp add: ex_crowded_def eval_simps)

text \<open>It has forgotten the backoff of a minute that the server imposed on it, too.\<close>

lemma eviction_unblocks_the_key:
  "\<exists>l1 l2 l3 l4 p1 p2.
    apply_feedback dbg (limiter_new ex_crowded) 7 (feedback_new (dur 60000000000) FbKey) (from_secs 1) = Some l1 \<and>
    try_acquire dbg l1 8 (Cost 1) (from_secs 2) = Some (l2, Inr p1) \<and>
    commit dbg l2 p1 Confirmed (from_secs 2) = Some l3 \<and>
    try_acquire dbg l3 7 (Cost 1) (from_secs 3) = Some (l4, Inr p2)"
  by (simp add: ex_crowded_def eval_simps)

end
