(* ===== verification/Pool_Properties.thy ===== *)
theory Pool_Properties
  imports Throughput
begin

text \<open>
  The credit pool in detail: the waits it advises, giving credits back, capacity changes, and two
  behaviours at its edges, the loss of accrued fractions under frequent polling and the
  unchecked addition of a refund.
\<close>

section \<open>Waits\<close>

definition pool_grants :: "bool \<Rightarrow> token_state \<Rightarrow> u64 \<Rightarrow> u64 \<Rightarrow> cost \<Rightarrow> duration \<Rightarrow> bool" where
  "pool_grants dbg s capacity refill_per_sec c now \<longleftrightarrow>
     (case tb_try_reserve dbg s capacity refill_per_sec c now of Some (_, Inr _) \<Rightarrow> True | _ \<Rightarrow> False)"

lemma pool_grants_iff:
  "pool_grants dbg s cap r c now \<longleftrightarrow>
    weight c \<le> unat cap \<and> weight c \<le> unat (tb_credits (tb_refill s cap r now))"
  by (auto simp: pool_grants_def tb_try_reserve_cases Let_def)

lemma pool_wait:
  assumes d: "tb_try_reserve dbg s capacity refill_per_sec c now = Some (s', Inl d)"
    and "tb_last_update s \<le> now" and cap: "weight c \<le> unat capacity" and r: "0 < unat refill_per_sec"
    and "now \<le> now'"
  shows "pool_grants dbg s' capacity refill_per_sec c now' \<longleftrightarrow>
    nanos_of now + nanos_of (retry_after d) \<le> nanos_of now'"
proof -
  note den = tb_try_reserve_denied [OF d]
  let ?C = "unat (tb_credits s')" and ?dt = "nanos_of now' - nanos_of now"
  have last: "tb_last_update s' = now" using den(1) assms(2) by (simp add: max_def)
  have C: "?C < weight c" using den(3) cap by simp
  have def: "unat (ucast (cost_get c) - tb_credits s') = weight c - ?C"
    using C by (subst unat_minus_fits) (simp_all add: word_le_nat_alt)
  have "refill_per_sec \<noteq> 0" using r by auto
  then have wait: "nanos_of (retry_after d) = ceil_div ((weight c - ?C) * nanos_per_sec) (unat refill_per_sec)"
    using den(2) cap def nanos_of_retry_after_for_deficit [OF r] by simp
  have ord: "nanos_of now \<le> nanos_of now'" using assms(5) by (simp add: less_eq_duration_def)
  have "pool_grants dbg s' capacity refill_per_sec c now' \<longleftrightarrow> weight c - ?C \<le> accrued (unat refill_per_sec) ?dt"
  proof (cases "now = now'")
    case True
    then show ?thesis using C last by (simp add: pool_grants_iff tb_refill_same accrued_def)
  next
    case False
    then have "tb_last_update s' < now'" using assms(5) last by simp
    then show ?thesis using C cap last by (auto simp: pool_grants_iff unat_tb_refill_credits)
  qed
  also have "\<dots> \<longleftrightarrow> ceil_div ((weight c - ?C) * nanos_per_sec) (unat refill_per_sec) \<le> ?dt"
    unfolding accrued_def by (rule reach_iff_ceil [OF r]) (simp add: nanos_per_sec_def)
  also have "\<dots> \<longleftrightarrow> nanos_of now + nanos_of (retry_after d) \<le> nanos_of now'"
    using wait ord by (simp only: le_diff_conv2) (simp add: add.commute)
  finally show ?thesis .
qed


definition ex_pool :: token_state where
  "ex_pool = \<lparr>tb_last_update = dur 0, tb_credits = 2, tb_in_flight = 8\<rparr>"


text \<open>A denial without end, a wait of \<open>Duration::MAX\<close>, is given exactly when the cost exceeds the
  capacity or the pool is never refilled, and is then true: no later call under the same limits
  is granted.\<close>

lemma pool_permanent_denial:
  assumes d: "tb_try_reserve dbg s capacity refill_per_sec c now = Some (s', Inl d)"
  shows "(retry_after d = dur_max \<longleftrightarrow> unat capacity < weight c \<or> refill_per_sec = 0) \<and>
    (retry_after d = dur_max \<longrightarrow> \<not> pool_grants dbg s' capacity refill_per_sec c now')"
proof -
  note den = tb_try_reserve_denied [OF d]
  have iff: "retry_after d = dur_max \<longleftrightarrow> unat capacity < weight c \<or> refill_per_sec = 0"
    using den(2) retry_after_for_deficit_not_max [of refill_per_sec] by (auto simp: unat_gt_0)
  moreover have "\<not> pool_grants dbg s' capacity refill_per_sec c now'" if "refill_per_sec = 0" "weight c \<le> unat capacity"
  proof -
    have "unat (tb_credits (tb_refill s' capacity 0 now')) \<le> unat (tb_credits s')"
      using tb_refill_credits_bound [of s' capacity 0 now'] by simp
    then show ?thesis using den(3) that by (simp add: pool_grants_iff)
  qed
  moreover have "\<not> pool_grants dbg s' capacity refill_per_sec c now'" if "unat capacity < weight c"
    using that by (simp add: pool_grants_iff)
  ultimately show ?thesis by (meson not_le)
qed

lemma pool_permanent_denial_witness: "\<not> pool_grants True ex_pool 10 0 (Cost 3) (from_secs 1000000)"
proof -
  have d: "tb_try_reserve True ex_pool 10 0 (Cost 3) (dur 0) = Some (ex_pool, Inl \<lparr>retry_after = dur_max\<rparr>)"
    by (simp add: ex_pool_def eval_simps)
  show ?thesis using pool_permanent_denial [OF d, of "from_secs 1000000"] by simp
qed

section \<open>Giving credits back\<close>

text \<open>Reserving and refunding at the same instant is the same as only bringing the pool up to date: no
  credit is lost or made.\<close>

lemma pool_reserve_refund:
  assumes g: "tb_try_reserve dbg s capacity refill_per_sec c now = Some (s', Inr ())"
    and "unat (tb_credits s) \<le> unat capacity" and "unat (tb_in_flight s) + weight c < 2 ^ 64"
  shows "tb_refund dbg s' capacity c now refill_per_sec = Some (tb_refill s capacity refill_per_sec now)"
proof -
  let ?s = "tb_refill s capacity refill_per_sec now"
  note gr = tb_try_reserve_granted [OF g]
  have same: "tb_refill s' capacity refill_per_sec now = s'" using gr(2) by (simp add: tb_refill_same)
  have cr: "tb_credits s' + ucast (cost_get c) = tb_credits ?s"
    by (rule word_unat_eq_iff [THEN iffD2], subst unat_plus_fits)
       (use gr(1) unat_word_less [of "tb_credits ?s"] in simp_all)
  have fit: "checked_plus dbg (tb_credits s') (ucast (cost_get c)) = Some (tb_credits ?s)"
    using cr gr(1) unat_word_less [of "tb_credits ?s"] by (simp add: checked_plus_def)
  have fl: "sat_sub (tb_in_flight s') (ucast (cost_get c)) = tb_in_flight s"
    by (rule word_unat_eq_iff [THEN iffD2]) (use gr(3) assms(3) in \<open>simp add: unat_sat_sub\<close>)
  have "tb_credits ?s \<le> capacity"
    using tb_refill_credits_le_capacity [OF assms(2) order_refl] by (simp add: word_le_nat_alt)
  then have "min (tb_credits ?s) capacity = tb_credits ?s" by simp
  with fit fl gr(2) same show ?thesis by (simp add: tb_refund_def Let_def)
qed

lemma pool_reserve_refund_witness:
  "tb_refund True \<lparr>tb_last_update = dur 500000000, tb_credits = 1, tb_in_flight = 11\<rparr> 10 (Cost 3) (dur 500000000) 4 =
    Some (tb_refill ex_pool 10 4 (dur 500000000))"
proof -
  have g: "tb_try_reserve True ex_pool 10 4 (Cost 3) (dur 500000000) =
      Some (\<lparr>tb_last_update = dur 500000000, tb_credits = 1, tb_in_flight = 11\<rparr>, Inr ())"
    by (simp add: ex_pool_def eval_simps)
  show ?thesis
    by (rule pool_reserve_refund [OF g]) (simp_all add: ex_pool_def weight_def cost_get_Cost)
qed

section \<open>Capacity changes\<close>

text \<open>A change of capacity keeps what has been consumed when the pool grows, clamps the credits when it
  shrinks, and leaves the credits of permits in flight and the refill clock alone.\<close>

lemma pool_capacity_change:
  assumes "unat (tb_credits s) \<le> unat old"
  shows "let s' = tb_apply_capacity_change s old new in
    unat (tb_credits s') \<le> unat new \<and>
    (if old \<le> new then unat new - unat (tb_credits s') = unat old - unat (tb_credits s)
     else unat (tb_credits s') = min (unat (tb_credits s)) (unat new)) \<and>
    tb_in_flight s' = tb_in_flight s \<and> tb_last_update s' = tb_last_update s"
proof -
  have "unat new - unat (tb_credits (tb_apply_capacity_change s old new)) = unat old - unat (tb_credits s)"
    if "old \<le> new"
    using tb_apply_capacity_change_deficit [OF assms, of new] that by (simp add: word_le_nat_alt)
  moreover have "unat (tb_credits (tb_apply_capacity_change s old new)) = min (unat (tb_credits s)) (unat new)"
    if "\<not> old \<le> new"
    using that by (simp add: tb_apply_capacity_change_def unat_min)
  ultimately show ?thesis by (simp add: Let_def tb_apply_capacity_change_le)
qed

lemma pool_capacity_change_witness: "unat (tb_credits (tb_apply_capacity_change ex_pool 10 25)) = 17"
  using pool_capacity_change [of ex_pool 10 25] by (auto simp: ex_pool_def Let_def)

section \<open>Polling\<close>

text \<open>A client that asks again at each of the given instants, as long as it is denied.\<close>

fun poll ::
  "bool \<Rightarrow> token_state \<Rightarrow> u64 \<Rightarrow> u64 \<Rightarrow> cost \<Rightarrow> duration list \<Rightarrow> (token_state \<times> bool) option" where
  "poll dbg s capacity refill_per_sec c [] = Some (s, False)"
| "poll dbg s capacity refill_per_sec c (t # ts) =
     do {
       (s', res) \<leftarrow> tb_try_reserve dbg s capacity refill_per_sec c t;
       (case res of
          Inr _ \<Rightarrow> Some (s', True)
        | Inl _ \<Rightarrow> poll dbg s' capacity refill_per_sec c ts)
     }"

text \<open>Instants that grow, each gap too short for the rate to yield one whole credit.\<close>

fun short_gaps :: "u64 \<Rightarrow> duration \<Rightarrow> duration list \<Rightarrow> bool" where
  "short_gaps refill_per_sec prev [] \<longleftrightarrow> True"
| "short_gaps refill_per_sec prev (t # ts) \<longleftrightarrow>
     prev \<le> t \<and> unat refill_per_sec * (nanos_of t - nanos_of prev) < nanos_per_sec \<and>
     short_gaps refill_per_sec t ts"

text \<open>C40: A client that polls an exhausted pool more often than the pool earns one credit is never served:
  every call moves the refill clock to its instant and drops the fraction of a credit earned
  since the last one, so after any number of polls, spread over any length of time, the pool
  holds what it held before the first.\<close>

theorem polling_starves:
  assumes "unat (tb_credits s) < weight c" and "unat (tb_credits s) \<le> unat capacity"
    and "short_gaps refill_per_sec (tb_last_update s) ts"
  shows "\<exists>s'. poll dbg s capacity refill_per_sec c ts = Some (s', False) \<and> tb_credits s' = tb_credits s"
  using assms
proof (induction ts arbitrary: s)
  case (Cons t ts)
  let ?s = "tb_refill s capacity refill_per_sec t"
  have "unat (tb_credits ?s) = unat (tb_credits s)"
  proof (cases "tb_last_update s = t")
    case False
    then have "tb_last_update s < t" using Cons.prems by auto
    moreover have "accrued (unat refill_per_sec) (nanos_of t - nanos_of (tb_last_update s)) = 0"
      using Cons.prems by (simp add: accrued_def)
    ultimately show ?thesis using Cons.prems by (simp add: unat_tb_refill_credits)
  qed (simp add: tb_refill_same)
  then have same: "tb_credits ?s = tb_credits s" by (rule word_unat_eq_iff [THEN iffD2])
  have "tb_last_update ?s = t" using Cons.prems by (simp add: max_def)
  then have "\<exists>s'. poll dbg ?s capacity refill_per_sec c ts = Some (s', False) \<and> tb_credits s' = tb_credits s"
    using Cons.IH [of ?s] Cons.prems same by simp
  moreover have "\<exists>d. tb_try_reserve dbg s capacity refill_per_sec c t = Some (?s, Inl d)"
  proof -
    obtain s1 r where r: "tb_try_reserve dbg s capacity refill_per_sec c t = Some (s1, r)"
      using tb_try_reserve_total by blast
    moreover have "\<not> (\<exists>s1. tb_try_reserve dbg s capacity refill_per_sec c t = Some (s1, Inr ()))"
      using Cons.prems(1) same by (simp add: tb_try_reserve_granted_iff)
    ultimately show ?thesis using tb_try_reserve_denied(1) by (cases r) auto
  qed
  ultimately show ?case by auto
qed simp

lemma polling_starves_witness:
  "\<exists>s'. poll True (tb_new (dur 0) 0) 10 1 (Cost 1)
      [dur 900000000, dur 1800000000, dur 2700000000, dur 3600000000, dur 4500000000] = Some (s', False) \<and>
    tb_credits s' = 0"
  using polling_starves [of "tb_new (dur 0) 0" "Cost 1" 10 1
      "[dur 900000000, dur 1800000000, dur 2700000000, dur 3600000000, dur 4500000000]" True]
  by (simp add: tb_new_def weight_def cost_get_Cost duration_order max_nanos_def nanos_per_sec_def)

section \<open>The unchecked addition\<close>

text \<open>With a capacity at the top of \<open>u64\<close>, refunding into a pool that has refilled overflows the sum of
  credits and cost: a build with overflow checks panics, and one without wraps, which empties a
  pool that was full.\<close>

lemma refund_overflows:
  "\<exists>s. tb_try_reserve dbg (tb_new (dur 0) 18446744073709551615) 18446744073709551615 1 (Cost 1) (dur 0) =
      Some (s, Inr ()) \<and>
    tb_refund True s 18446744073709551615 (Cost 1) (dur 1000000000) 1 = None \<and>
    (\<exists>s'. tb_refund False s 18446744073709551615 (Cost 1) (dur 1000000000) 1 = Some s' \<and> tb_credits s' = 0)"
proof -
  let ?s = "\<lparr>tb_last_update = dur 0, tb_credits = 18446744073709551614, tb_in_flight = 1\<rparr>"
  have r: "tb_try_reserve dbg (tb_new (dur 0) 18446744073709551615) 18446744073709551615 1 (Cost 1) (dur 0) =
      Some (?s, Inr ())"
    by (simp add: eval_simps)
  have "tb_credits (tb_refill ?s 18446744073709551615 1 (dur 1000000000)) = 18446744073709551615"
    by (simp add: eval_simps)
  then have full: "unat (tb_credits (tb_refill ?s 18446744073709551615 1 (dur 1000000000))) = 18446744073709551615"
    by simp
  then have "2 ^ 64 \<le> unat (tb_credits (tb_refill ?s 18446744073709551615 1 (dur 1000000000))) + weight (Cost 1)"
    by (simp add: weight_def cost_get_Cost)
  from tb_refund_overflow [OF this] r full show ?thesis
    by (auto simp: weight_def cost_get_Cost unat_eq_0)
qed

end
