(* ===== verification/Window_Properties.thy ===== *)
theory Window_Properties
  imports Throughput
begin

text \<open>
  The fixed window in detail: which window an instant belongs to, what a call decides, the waits
  it advises, giving capacity back, and what a permit held past the end of its window does.
\<close>

section \<open>Windows\<close>

text \<open>The window of an instant starts at the largest multiple of the window's length that is not after
  it, computed without loss through the 128-bit nanosecond count; the instant lies before the
  window's end. Asked for an empty window the code panics, in either build profile.\<close>

lemma window_of_instant:
  "(is_zero window \<longrightarrow> window_start_for dbg now window = None) \<and>
   (\<not> is_zero window \<longrightarrow> (\<exists>ws. window_start_for dbg now window = Some ws \<and>
      nanos_of ws = nanos_of now div nanos_of window * nanos_of window \<and> ws \<le> now \<and>
      nanos_of now < nanos_of ws + nanos_of window))"
proof (intro conjI impI)
  show "window_start_for dbg now window = None" if "is_zero window"
    using that by (rule window_start_for_zero)
  show "\<exists>ws. window_start_for dbg now window = Some ws \<and>
      nanos_of ws = nanos_of now div nanos_of window * nanos_of window \<and> ws \<le> now \<and>
      nanos_of now < nanos_of ws + nanos_of window" if nz: "\<not> is_zero window"
  proof -
    have w: "0 < nanos_of window" using nz by (simp add: is_zero_def)
    obtain ws where ws: "window_start_for dbg now window = Some ws"
        "nanos_of ws = nanos_of now div nanos_of window * nanos_of window"
      using window_start_for_nanos [OF nz] .
    moreover have "nanos_of now < nanos_of ws + nanos_of window"
      using div_mult_mod_eq [of "nanos_of now" "nanos_of window"] mod_less_divisor [OF w] ws(2)
      by (metis add_less_cancel_left)
    ultimately show ?thesis using window_start_le by blast
  qed
qed

lemma window_of_instant_witness: "window_start_for True (dur 25000000000) (dur 10000000000) = Some (dur 20000000000)"
  using window_of_instant [of "dur 10000000000" True "dur 25000000000"]
  by (auto simp: is_zero_def max_nanos_def duration_eq_iff)

section \<open>Decisions\<close>

text \<open>What a fixed window decides, once its state has been brought up to date: a limit of zero is
  disabled, a cost above the limit can never be met, a cost that does not fit beside what is
  spent and reserved must wait for the window's end, and any other cost is granted; the grant
  adds exactly the cost to what is reserved and the permit belongs to the current window.\<close>

lemma fixed_window_decision:
  assumes inv: "fw_inv s ps" and w: "\<not> is_zero window"
  shows "\<exists>s1. fw_maybe_reset_window dbg s now window = Some s1 \<and>
    fw_try_reserve dbg s k m window c now =
      (if m = 0 then Some (s1, Inl \<lparr>bd_deny = \<lparr>retry_after = window\<rparr>, bd_reason = Disabled\<rparr>)
       else if unat m < weight c then
         Some (s1, Inl \<lparr>bd_deny = \<lparr>retry_after = dur_max\<rparr>, bd_reason = Unachievable\<rparr>)
       else if unat m < fw_used s1 + weight c then
         Some (s1, Inl \<lparr>bd_deny = \<lparr>retry_after =
           saturating_sub (saturating_add (fw_window_start s1) window) now\<rparr>, bd_reason = WindowExhausted\<rparr>)
       else Some (s1\<lparr>fw_reserved := fw_reserved s1 + cost_get c\<rparr>,
         Inr \<lparr>p_key = k, p_cost = c, p_window_start = fw_window_start s1, p_issued_at = now,
              p_deadline = saturating_add (fw_window_start s1) window,
              p_meta = MetaFixedWindow (fw_window_start s1)\<rparr>))"
proof -
  obtain s1 where s1: "fw_maybe_reset_window dbg s now window = Some s1" "fw_inv s1 ps"
    using fw_reset_some [OF inv w] .
  then have "fw_used s1 < 2 ^ 32" by (simp add: fw_inv_def)
  from fw_try_reserve_from [OF s1(1) this, of k m c] s1(1) show ?thesis
    by (simp add: fw_retry_after_def Let_def)
qed

definition ex_window :: fw_state where
  "ex_window = \<lparr>fw_window_start = dur 10000000000, fw_reserved = 0, fw_spent = 2\<rparr>"

lemma ex_window_inv: "fw_inv ex_window {#}"
  by (simp add: ex_window_def fw_inv_def fw_used_def)

lemma fixed_window_decision_witness:
  "fw_try_reserve True ex_window 7 3 (dur 10000000000) (Cost 2) (dur 12000000000) =
    Some (ex_window, Inl \<lparr>bd_deny = \<lparr>retry_after = dur 8000000000\<rparr>, bd_reason = WindowExhausted\<rparr>)"
  using fixed_window_decision [OF ex_window_inv, of "dur 10000000000" True "dur 12000000000" 7 3 "Cost 2"]
  by (auto simp: ex_window_def fw_used_def weight_def cost_get_Cost fw_maybe_reset_window_def Let_def
      is_zero_def saturating_add_def saturating_sub_def duration_order max_nanos_def)

section \<open>Waits\<close>

definition window_grants :: "bool \<Rightarrow> fw_state \<Rightarrow> u32 \<Rightarrow> duration \<Rightarrow> cost \<Rightarrow> duration \<Rightarrow> bool" where
  "window_grants dbg s m window c now \<longleftrightarrow>
     (case fw_try_reserve dbg s 0 m window c now of Some (_, Inr _) \<Rightarrow> True | _ \<Rightarrow> False)"

lemma window_grants_iff:
  assumes "fw_inv s ps" and "\<not> is_zero window" and "fw_maybe_reset_window dbg s now window = Some s1"
  shows "window_grants dbg s m window c now \<longleftrightarrow> m \<noteq> 0 \<and> fw_used s1 + weight c \<le> unat m"
proof -
  have "fw_used s1 < 2 ^ 32" using fw_inv_reset [OF assms(1,3,2)] by (simp add: fw_inv_def)
  from fw_try_reserve_from [OF assms(3) this, of 0 m c] show ?thesis
    by (auto simp: window_grants_def not_less)
qed

lemma window_wait:
  assumes inv: "fw_inv s {#}" and w: "\<not> is_zero window"
    and d: "fw_try_reserve dbg s k m window c now = Some (s', Inl d)"
    and ex: "bd_reason d = WindowExhausted" and now: "now \<le> now'" "now' < dur_max"
  shows "window_grants dbg s' m window c now' \<longleftrightarrow>
    nanos_of now + nanos_of (retry_after (bd_deny d)) \<le> nanos_of now'"
proof -
  obtain s1 where s1: "fw_maybe_reset_window dbg s now window = Some s1" "fw_inv s1 {#}"
    using fw_reset_some [OF inv w] .
  let ?over = "saturating_add (fw_window_start s1) window"
  from fixed_window_decision [OF inv w, of dbg now k m c] s1(1) d ex
  have s': "s' = s1" and m: "m \<noteq> 0" "weight c \<le> unat m" "unat m < fw_used s1 + weight c"
    and wait: "retry_after (bd_deny d) = saturating_sub ?over now"
    by (auto split: if_splits)
  have res: "fw_reserved s1 = 0" using s1(2) by (simp add: fw_inv_def unat_eq_0)
  have lt: "now < ?over"
  proof -
    have "now < dur_max" using now by simp
    then show ?thesis
      using s1(1) res window_end_gt
      by (auto simp: fw_maybe_reset_window_def Let_def bind_eq_Some_conv not_le split: if_splits)
  qed
  obtain s2 where s2: "fw_maybe_reset_window dbg s1 now' window = Some s2" using fw_reset_some [OF s1(2) w] by blast
  have "window_grants dbg s' m window c now' \<longleftrightarrow> fw_used s2 + weight c \<le> unat m"
    using window_grants_iff [OF s1(2) w s2] m(1) s' by simp
  also have "\<dots> \<longleftrightarrow> ?over \<le> now'"
    using s2 res m by (auto simp: fw_maybe_reset_window_def Let_def bind_eq_Some_conv fw_used_def split: if_splits)
  also have "\<dots> \<longleftrightarrow> nanos_of now + nanos_of (retry_after (bd_deny d)) \<le> nanos_of now'"
    using lt by (simp add: wait less_eq_duration_def less_duration_def)
  finally show ?thesis .
qed

text \<open>C28: When no permit is held, a denial because the window is exhausted advises the exact wait: asked
  again at any later instant, without other calls in between, the window grants if and only if
  the wait has passed.\<close>

theorem window_wait_exact:
  assumes inv: "fw_inv s {#}" and w: "\<not> is_zero window"
    and d: "fw_try_reserve dbg s k m window c now = Some (s', Inl d)"
    and ex: "bd_reason d = WindowExhausted" and now: "now \<le> now'" "now' < dur_max"
  shows "window_grants dbg s' m window c now' \<longleftrightarrow>
    nanos_of now + nanos_of (retry_after (bd_deny d)) \<le> nanos_of now'"
  using assms by (rule window_wait)

lemma window_wait_exact_witness:
  "window_grants True ex_window 3 (dur 10000000000) (Cost 2) (dur 20000000000) \<and>
   \<not> window_grants True ex_window 3 (dur 10000000000) (Cost 2) (dur 19999999999)"
proof -
  have d: "fw_try_reserve True ex_window 7 3 (dur 10000000000) (Cost 2) (dur 12000000000) =
      Some (ex_window, Inl \<lparr>bd_deny = \<lparr>retry_after = dur 8000000000\<rparr>, bd_reason = WindowExhausted\<rparr>)"
    by (simp add: ex_window_def eval_simps)
  show ?thesis
    using window_wait_exact [OF ex_window_inv _ d, of "dur 20000000000"]
      window_wait_exact [OF ex_window_inv _ d, of "dur 19999999999"]
    by (simp add: is_zero_def duration_order max_nanos_def)
qed

section \<open>Giving capacity back\<close>

text \<open>Reserving and refunding at the same instant leaves the window as bringing it up to date alone
  would: the refund restores exactly the capacity that was reserved.\<close>

lemma window_reserve_refund:
  assumes inv: "fw_inv s ps" and w: "\<not> is_zero window"
    and g: "fw_try_reserve dbg s k m window c now = Some (s', Inr p)"
  shows "fw_refund dbg s' (p_cost p) (p_window_start p) now window = fw_maybe_reset_window dbg s now window"
proof -
  obtain s1 where s1: "fw_maybe_reset_window dbg s now window = Some s1" "fw_inv s1 ps"
    using fw_reset_some [OF inv w] .
  from fixed_window_decision [OF inv w, of dbg now k m c] s1(1) g
  have fits: "\<not> unat m < fw_used s1 + weight c" and s': "s' = s1\<lparr>fw_reserved := fw_reserved s1 + cost_get c\<rparr>"
    and p: "p_cost p = c" "p_window_start p = fw_window_start s1"
    by (auto split: if_splits)
  have r: "unat (fw_reserved s') = unat (fw_reserved s1) + weight c"
    using fits unat_word_less [of m] s' by (simp add: fw_used_def weight_def unat_plus_fits)
  then have "fw_reserved s' \<noteq> 0" by auto
  then have "fw_maybe_reset_window dbg s' now window = Some s'" by (simp add: fw_maybe_reset_window_def)
  moreover have "sat_sub (fw_reserved s') (cost_get c) = fw_reserved s1"
    by (rule word_unat_eq_iff [THEN iffD2]) (use r in \<open>simp add: unat_sat_sub weight_def\<close>)
  ultimately show ?thesis using s1(1) s' p by (simp add: fw_refund_def)
qed

lemma window_reserve_refund_witness:
  "fw_refund True (ex_window\<lparr>fw_reserved := 1\<rparr>) (Cost 1) (dur 10000000000) (dur 12000000000) (dur 10000000000) =
    fw_maybe_reset_window True ex_window (dur 12000000000) (dur 10000000000)"
proof -
  have g: "fw_try_reserve True ex_window 7 3 (dur 10000000000) (Cost 1) (dur 12000000000) =
      Some (ex_window\<lparr>fw_reserved := 1\<rparr>, Inr \<lparr>p_key = 7, p_cost = Cost 1, p_window_start = dur 10000000000,
        p_issued_at = dur 12000000000, p_deadline = dur 20000000000, p_meta = MetaFixedWindow (dur 10000000000)\<rparr>)"
    by (simp add: ex_window_def eval_simps)
  show ?thesis
    using window_reserve_refund [OF ex_window_inv _ g] by (simp add: is_zero_def max_nanos_def)
qed

section \<open>Permits held past the end of their window\<close>

text \<open>While a permit is held its window does not move, however late it is: a cost that did not fit is
  still denied, and once the window is over the advised wait is zero although the call keeps
  being denied until the permit is finalized.\<close>

lemma held_permit_pins_window:
  assumes inv: "fw_inv s ps" and "ps \<noteq> {#}" and w: "\<not> is_zero window"
    and "weight c \<le> unat m" and full: "unat m < fw_used s + weight c"
  shows "\<exists>d. fw_try_reserve dbg s k m window c now = Some (s, Inl d) \<and> bd_reason d = WindowExhausted \<and>
    (saturating_add (fw_window_start s) window \<le> now \<longrightarrow> retry_after (bd_deny d) = dur_zero)"
proof -
  obtain p where "p \<in># ps" using assms(2) by blast
  then have s1: "fw_maybe_reset_window dbg s now window = Some s" by (rule fw_pinned [OF inv])
  have "m \<noteq> 0" using assms(4) by auto
  with fixed_window_decision [OF inv w, of dbg now k m c] s1 assms(4) full show ?thesis
    by (auto simp: duration_eq_iff less_eq_duration_def)
qed

definition ex_pinned :: fw_state where
  "ex_pinned = \<lparr>fw_window_start = dur 1000000000, fw_reserved = 2, fw_spent = 0\<rparr>"

lemma held_permit_pins_window_witness:
  "\<exists>d. fw_try_reserve True ex_pinned 7 2 (dur 1000000000) (Cost 1) (dur 99000000000) = Some (ex_pinned, Inl d) \<and>
    retry_after (bd_deny d) = dur_zero"
proof -
  have inv: "fw_inv ex_pinned {#ex_permit#}"
    by (simp add: ex_pinned_def ex_permit_def fw_inv_def fw_used_def weight_def cost_get_Cost)
  show ?thesis
    using held_permit_pins_window [OF inv, of "dur 1000000000" "Cost 1" 2 True 7 "dur 99000000000"]
    by (auto simp: ex_pinned_def fw_used_def weight_def cost_get_Cost is_zero_def max_nanos_def
        less_eq_duration_def)
qed

definition ex_two_per_ten :: config where
  "ex_two_per_ten =
     \<lparr>cfg_algorithm = CfgFixedWindow 2 (dur 10000000000), cfg_max_keys = None,
      cfg_overflow_policy = DenyNewKey, cfg_slow_start = None\<rparr>"

text \<open>The bound holds per window of the accounting, not per window of the clock: with two units per ten
  seconds, a permit held since instant 0 makes a call at 11 seconds count against the first
  window; when both are committed the window moves on with nothing spent, and two more calls are
  granted, so that three permits are issued, and four requests committed, between 10 and 20
  seconds.\<close>

lemma held_permit_overissues:
  "\<exists>l1 l2 l3 l4 l5 l6 p1 p2 p3 p4.
    try_acquire dbg (limiter_new ex_two_per_ten) 7 (Cost 1) (dur 0) = Some (l1, Inr p1) \<and>
    try_acquire dbg l1 7 (Cost 1) (dur 11000000000) = Some (l2, Inr p2) \<and>
    commit dbg l2 p1 Confirmed (dur 11000000000) = Some l3 \<and>
    commit dbg l3 p2 Confirmed (dur 11000000000) = Some l4 \<and>
    try_acquire dbg l4 7 (Cost 1) (dur 11000000000) = Some (l5, Inr p3) \<and>
    try_acquire dbg l5 7 (Cost 1) (dur 11000000000) = Some (l6, Inr p4)"
  by (simp add: ex_two_per_ten_def eval_simps)

end
