(* ===== verification/Ramp_Properties.thy ===== *)
theory Ramp_Properties
  imports Window_Properties
begin

text \<open>
  Slow start in detail: the limit in force at an instant, the waits advised while it is too low,
  what a grant is checked against, and two gaps between the ramp and the rest of the limiter.
\<close>

section \<open>The limit in force\<close>

text \<open>The limit in force is the configured one scaled by the elapsed share of the ramp, rounded down,
  and the configured one after the ramp: for the 32-bit limit of a fixed window without
  exception, for the 64-bit limits of a credit pool when the ramp is shorter than \<open>2^64\<close>
  nanoseconds. It never exceeds the configured limit and never shrinks as time passes.\<close>

lemma ramp_exact:
  "unat (effective_max m slow st now) =
     (if nanos_of (ss_ramp slow) \<le> nanos_of now - nanos_of st then unat m
      else unat m * (nanos_of now - nanos_of st) div nanos_of (ss_ramp slow)) \<and>
   effective_max m slow st now \<le> m \<and>
   (now \<le> now' \<longrightarrow> effective_max m slow st now \<le> effective_max m slow st now') \<and>
   (nanos_of (ss_ramp slow) < 2 ^ 64 \<longrightarrow>
      unat (effective_u64 q slow st now) =
        (if nanos_of (ss_ramp slow) \<le> nanos_of now - nanos_of st then unat q
         else unat q * (nanos_of now - nanos_of st) div nanos_of (ss_ramp slow)) \<and>
      effective_u64 q slow st now \<le> q \<and>
      (now \<le> now' \<longrightarrow> effective_u64 q slow st now \<le> effective_u64 q slow st now'))"
  using ramp32.eff_mono [where s = slow and now = now and now' = now' and m = m and st = st]
    ramp64.eff_mono [where s = slow and now = now and now' = now' and m = q and st = st]
  by (simp add: unat_effective_max unat_effective_u64 short_ramp_def ramp_share_def
      effective_max_le effective_u64_le)

definition ex_ramp :: slow_start where
  "ex_ramp = \<lparr>ss_ramp = dur 10000000000\<rparr>"

lemma ramp_exact_witness:
  "unat (effective_max 7 ex_ramp (dur 0) (dur 5000000000)) = 3 \<and>
   unat (effective_u64 7 ex_ramp (dur 0) (dur 5000000000)) = 3"
  using ramp_exact [of 7 ex_ramp "dur 0" "dur 5000000000" "dur 5000000000" 7]
  by (simp add: ex_ramp_def max_nanos_def)

section \<open>The waits\<close>

fun full_limit_allows :: "algorithm_config \<Rightarrow> cost \<Rightarrow> bool" where
  "full_limit_allows (CfgFixedWindow m w) c \<longleftrightarrow> weight c \<le> unat m"
| "full_limit_allows (CfgTokenBucket cap r) c \<longleftrightarrow> weight c \<le> unat cap"

lemma slow_start_pre_deny_window:
  assumes "cfg_slow_start (l_cfg rl) = Some slow" and "algo_of rl = CfgFixedWindow m w" and "weight c \<le> unat m"
  shows "slow_start_pre_deny rl c now (effective_algorithm rl now) =
    (if cost_get c \<le> effective_max m slow (l_started_at rl) now then None
     else Some \<lparr>retry_after = retry_after_for_cost m slow (l_started_at rl) now (cost_get c)\<rparr>)"
proof -
  have "m \<noteq> 0" using assms(3) by auto
  then show ?thesis using assms(1,2)
    by (simp add: slow_start_pre_deny_def effective_algorithm_def algo_of_def Let_def not_le)
qed

lemma slow_start_pre_deny_pool:
  assumes "cfg_slow_start (l_cfg rl) = Some slow" and "algo_of rl = CfgTokenBucket cap r"
  shows "slow_start_pre_deny rl c now (effective_algorithm rl now) =
    (if ucast (cost_get c) \<le> effective_u64 cap slow (l_started_at rl) now then None
     else Some \<lparr>retry_after = retry_after_for_cost_u64 cap slow (l_started_at rl) now (ucast (cost_get c))\<rparr>)"
  using assms by (simp add: slow_start_pre_deny_def effective_algorithm_def algo_of_def Let_def)

text \<open>C29: A denial because of slow start, for a cost the configured limit allows, advises the exact wait: at
  a later instant slow start stops denying the cost if and only if the wait has passed. The
  instant of the denial is not before the limiter was created; a fixed window may ramp for as long
  as it likes, a credit pool for less than \<open>2^64\<close> nanoseconds (some 584 years).\<close>

theorem slow_start_wait_exact:
  assumes slow: "cfg_slow_start (l_cfg rl) = Some slow" and ok: "full_limit_allows (algo_of rl) c"
    and short: "case algo_of rl of CfgFixedWindow _ _ \<Rightarrow> True
      | CfgTokenBucket _ _ \<Rightarrow> nanos_of (ss_ramp slow) < 2 ^ 64"
    and d: "slow_start_pre_deny rl c now (effective_algorithm rl now) = Some d"
    and "l_started_at rl \<le> now" and "now \<le> now'"
  shows "slow_start_pre_deny rl c now' (effective_algorithm rl now') = None \<longleftrightarrow>
    nanos_of now + nanos_of (retry_after d) \<le> nanos_of now'"
proof (cases "algo_of rl")
  case (CfgFixedWindow m w)
  then have le: "weight c \<le> unat m" using ok by simp
  have "retry_after d = retry_after_for_cost m slow (l_started_at rl) now (cost_get c)"
    using d slow_start_pre_deny_window [OF slow CfgFixedWindow le] by (auto split: if_splits)
  then show ?thesis
    using ramp32.wait_exact [where s = slow and c = "cost_get c" and m = m and st = "l_started_at rl"
        and now = now and now' = now'] le assms(5,6)
      slow_start_pre_deny_window [OF slow CfgFixedWindow le, of now']
    by (simp add: weight_def)
next
  case (CfgTokenBucket cap r)
  then have le: "weight c \<le> unat cap" using ok by simp
  have "retry_after d = retry_after_for_cost_u64 cap slow (l_started_at rl) now (ucast (cost_get c))"
    using d slow_start_pre_deny_pool [OF slow CfgTokenBucket] by (auto split: if_splits)
  then show ?thesis
    using ramp64.wait_exact [where s = slow and c = "ucast (cost_get c)" and m = cap
        and st = "l_started_at rl" and now = now and now' = now'] le short CfgTokenBucket assms(5,6)
      slow_start_pre_deny_pool [OF slow CfgTokenBucket, of c now']
    by (simp add: short_ramp_def)
qed

definition ex_ramping :: limiter where
  "ex_ramping = limiter_new_at
     \<lparr>cfg_algorithm = CfgFixedWindow 10 (dur 10000000000), cfg_max_keys = None,
      cfg_overflow_policy = DenyNewKey, cfg_slow_start = Some ex_ramp\<rparr> (dur 0)"

lemma slow_start_wait_exact_witness:
  "slow_start_pre_deny ex_ramping (Cost 6) (dur 6000000000) (effective_algorithm ex_ramping (dur 6000000000)) = None \<and>
   slow_start_pre_deny ex_ramping (Cost 6) (dur 5999999999) (effective_algorithm ex_ramping (dur 5999999999)) \<noteq> None"
proof -
  have d: "slow_start_pre_deny ex_ramping (Cost 6) (dur 5000000000) (effective_algorithm ex_ramping (dur 5000000000)) =
      Some \<lparr>retry_after = dur 1000000000\<rparr>"
    by (simp add: ex_ramping_def ex_ramp_def eval_simps)
  show ?thesis
    using slow_start_wait_exact [of ex_ramping ex_ramp "Cost 6", OF _ _ _ d, of "dur 6000000000"]
      slow_start_wait_exact [of ex_ramping ex_ramp "Cost 6", OF _ _ _ d, of "dur 5999999999"]
    by (simp add: ex_ramping_def ex_ramp_def limiter_new_at_def algo_of_def weight_def cost_get_Cost
        duration_order max_nanos_def)
qed

section \<open>What a grant is checked against\<close>

lemma fw_try_reserve_used:
  assumes "fw_inv s ps" and "\<not> is_zero window" and "fw_try_reserve dbg s k m window c now = Some (s', Inr p)"
  shows "fw_used s' \<le> unat m" and "p_key p = k"
proof -
  obtain s1 where s1: "fw_maybe_reset_window dbg s now window = Some s1" "fw_inv s1 ps"
    using fw_reset_some [OF assms(1,2)] .
  then have used: "fw_used s1 < 2 ^ 32" by (simp add: fw_inv_def)
  have fits: "unat (fw_reserved s1 + cost_get c) = unat (fw_reserved s1) + weight c"
    if "\<not> unat m < fw_used s1 + weight c"
    using that unat_word_less [of m] by (subst unat_plus_fits) (simp_all add: fw_used_def weight_def)
  show "fw_used s' \<le> unat m" and "p_key p = k"
    using assms(3) fits unfolding fw_try_reserve_from [OF s1(1) used]
    by (auto simp: fw_used_def split: if_splits)
qed

lemma reserve_entry_granted:
  assumes r: "reserve_entry dbg rl bk ea c now = Some (rl', Inr p)" and inv: "lim_inv rl ps"
  obtains b0 b ps0 where "bucket_inv (algo_of rl) b0 ps0"
    and "bucket_try_reserve dbg b0 bk ea c now = Some (b, Inr p)" and "fmlookup (l_buckets rl') bk = Some b"
proof (cases "fmlookup (l_buckets rl) bk")
  case (Some b0)
  with r lim_inv_bucket [OF inv Some] that show thesis
    by (auto simp: reserve_entry_def bind_eq_Some_conv)
next
  case None
  have "valid_algorithm (algo_of rl)" using inv by (simp add: lim_inv_def)
  then obtain b0 where "bucket_new dbg now (algo_of rl) = Some b0" "bucket_inv (algo_of rl) b0 {#}"
    using bucket_new_inv [of "algo_of rl" dbg now] by blast
  with r None that show thesis
    by (auto simp: reserve_entry_def bind_eq_Some_conv algo_of_def)
qed

text \<open>A fixed window never has more spent and reserved, right after a grant, than the limit in force at
  the instant of the grant, however far the ramp has come.\<close>

lemma grant_within_ramp:
  assumes "reachable dbg rl ps"
    and t: "try_acquire dbg rl k c now = Some (rl', Inr p)"
    and slow: "cfg_slow_start (l_cfg rl) = Some slow"
    and a: "cfg_algorithm (l_cfg rl) = CfgFixedWindow m window"
  shows "\<exists>b s. fmlookup (l_buckets rl') (p_key p) = Some b \<and> algo b = AlgoFixedWindow s \<and>
    fw_used s \<le> unat (effective_max m slow (l_started_at rl) now)"
  using t
proof (cases rule: try_acquire_cases)
  case (permitted rl1 q)
  then have q: "q = p" by simp
  have inv: "lim_inv rl1 ps"
    using ensure_bucket_capacity_inv [OF reachable_inv [OF assms(1)] permitted(4)] .
  have ea: "effective_algorithm rl now = CfgFixedWindow (effective_max m slow (l_started_at rl) now) window"
    using slow a by (simp add: effective_algorithm_def)
  have a1: "algo_of rl1 = CfgFixedWindow m window"
    using ensure_bucket_capacity_frame(1) [OF permitted(4)] a by (simp add: algo_of_def)
  obtain b0 b ps0 where b: "bucket_inv (algo_of rl1) b0 ps0"
      "bucket_try_reserve dbg b0 (resolve_bucket_key rl k) (effective_algorithm rl now) c now = Some (b, Inr p)"
      "fmlookup (l_buckets rl') (resolve_bucket_key rl k) = Some b"
    using reserve_entry_granted [OF permitted(5) [unfolded q] inv] .
  from b(2) show ?thesis
  proof (cases rule: algo_try_reserve)
    case (2 s s' m' w')
    then have "fw_inv s ps0" "\<not> is_zero window" using b(1) a1 by (simp_all add: bucket_inv_def)
    with 2 ea fw_try_reserve_used [of s ps0 window dbg _ m' c now s' p] b(3) show ?thesis by fastforce
  qed (use ea in simp_all)
qed simp_all

lemma grant_within_ramp_witness:
  "\<exists>rl' p b s. try_acquire True ex_ramping 1 (Cost 5) (dur 5000000000) = Some (rl', Inr p) \<and>
    fmlookup (l_buckets rl') (p_key p) = Some b \<and> algo b = AlgoFixedWindow s \<and> fw_used s \<le> 5"
proof -
  have "\<exists>rl' p. try_acquire True ex_ramping 1 (Cost 5) (dur 5000000000) = Some (rl', Inr p)"
    by (simp add: ex_ramping_def ex_ramp_def eval_simps)
  then obtain rl' p where t: "try_acquire True ex_ramping 1 (Cost 5) (dur 5000000000) = Some (rl', Inr p)" by blast
  have "built (l_cfg ex_ramping)"
    by (simp add: valid_built valid_config_def ex_ramping_def limiter_new_at_def is_zero_def max_nanos_def)
  then have "reachable True ex_ramping {#}"
    using start [of "l_cfg ex_ramping" True "dur 0"] by (simp add: ex_ramping_def limiter_new_at_def)
  moreover have "unat (effective_max 10 ex_ramp (dur 0) (dur 5000000000)) = 5"
    by (simp add: ex_ramp_def eval_simps)
  ultimately show ?thesis
    using grant_within_ramp [OF _ t, of "{#}" ex_ramp 10 "dur 10000000000"] t
    by (auto simp: ex_ramping_def limiter_new_at_def)
qed

section \<open>Three gaps\<close>

text \<open>A credit pool created during the ramp starts with the credits of the configured capacity, and at
  the instant of its creation nothing clamps them: with capacity 10, half way through the ramp,
  ten units are granted at once although the capacity in force is 5.\<close>

lemma ramp_does_not_bound_a_new_pool:
  "\<exists>l1 l2 p1 p2.
    effective_algorithm (limiter_new_at
      \<lparr>cfg_algorithm = CfgTokenBucket 10 1, cfg_max_keys = None, cfg_overflow_policy = DenyNewKey,
       cfg_slow_start = Some ex_ramp\<rparr> (dur 0)) (dur 5000000000) = CfgTokenBucket 5 0 \<and>
    try_acquire dbg (limiter_new_at
      \<lparr>cfg_algorithm = CfgTokenBucket 10 1, cfg_max_keys = None, cfg_overflow_policy = DenyNewKey,
       cfg_slow_start = Some ex_ramp\<rparr> (dur 0)) 7 (Cost 5) (dur 5000000000) = Some (l1, Inr p1) \<and>
    try_acquire dbg l1 7 (Cost 5) (dur 5000000000) = Some (l2, Inr p2)"
  by (simp add: ex_ramp_def eval_simps)

text \<open>Slow start is consulted before the backoff of a key: for a key that feedback has blocked for a
  minute, a cost the ramp does not allow yet is denied with the ramp's wait of one second.\<close>

lemma ramp_hides_key_backoff:
  "\<exists>l1 l2 d. apply_feedback dbg ex_ramping 7 (feedback_new (dur 60000000000) FbKey) (dur 0) = Some l1 \<and>
    try_acquire dbg l1 7 (Cost 6) (dur 5000000000) = Some (l2, Inl d) \<and> retry_after d = dur 1000000000"
  by (simp add: ex_ramping_def ex_ramp_def eval_simps)

text \<open>A pool whose refill rate scales to zero advises the wait that means never: with one credit per second,
  half way through the ramp, the exhausted pool answers as if the cost could not be served, and
  serves it when the ramp is over.\<close>

lemma ramp_advises_never:
  "\<exists>l1 l2 l3 l4 p1 p2 p3.
    try_acquire dbg (limiter_new_at (with_slow_start (token_bucket 10 1) (slow_start_new (from_secs 10))) (from_secs 0))
      7 (Cost 5) (from_secs 5) = Some (l1, Inr p1) \<and>
    try_acquire dbg l1 7 (Cost 5) (from_secs 5) = Some (l2, Inr p2) \<and>
    try_acquire dbg l2 7 (Cost 5) (from_secs 6) = Some (l3, Inl \<lparr>retry_after = dur_max\<rparr>) \<and>
    try_acquire dbg l3 7 (Cost 5) (from_secs 11) = Some (l4, Inr p3)"
  by (simp add: eval_simps)

end
