(* ===== verification/In_Flight.thy ===== *)
theory In_Flight
  imports Limiter_Events
begin

text \<open>
  In-flight deduplication (\<open>src/in_flight.rs\<close>): a table of operations under way, each with the
  waiters that joined it and a deadline, and the helper that carries a permit of the limiter
  together with its waiters. The table finds due entries with a heap that may hold stale items;
  it is rebuilt when it grows too long.
\<close>

section \<open>The heap\<close>

text \<open>
  \<open>BinaryHeap<Reverse<T>>\<close> of the standard library, a priority queue whose \<open>peek\<close> and \<open>pop\<close>
  give the least item. The model keeps its items in a sorted list; how the library arranges
  them is not visible, and items that compare equal are equal.
\<close>

type_synonym 'a heap = "'a list"

definition heap_new :: "'a heap" where
  "heap_new = []"

definition heap_push :: "'a::linorder \<Rightarrow> 'a heap \<Rightarrow> 'a heap" where
  "heap_push x h = insort x h"

definition heap_peek :: "'a heap \<Rightarrow> 'a option" where
  "heap_peek h = (case h of [] \<Rightarrow> None | x # _ \<Rightarrow> Some x)"

definition heap_pop :: "'a heap \<Rightarrow> 'a heap" where
  "heap_pop h = tl h"

text \<open>The contract of a priority queue, over the multiset of its items.\<close>

locale min_heap =
  fixes inv :: "'h \<Rightarrow> bool" and items :: "'h \<Rightarrow> 'a::linorder multiset"
    and new :: 'h and push :: "'a \<Rightarrow> 'h \<Rightarrow> 'h" and peek :: "'h \<Rightarrow> 'a option" and pop :: "'h \<Rightarrow> 'h"
  assumes new: "inv new \<and> items new = {#}"
    and push: "inv h \<Longrightarrow> inv (push x h) \<and> items (push x h) = add_mset x (items h)"
    and peek_None: "inv h \<Longrightarrow> peek h = None \<longleftrightarrow> items h = {#}"
    and peek_Some: "inv h \<Longrightarrow> peek h = Some x \<Longrightarrow> x \<in># items h \<and> (\<forall>y \<in># items h. x \<le> y)"
    and pop: "inv h \<Longrightarrow> peek h = Some x \<Longrightarrow> inv (pop h) \<and> items (pop h) = items h - {#x#}"
begin

text \<open>When the least item is not due, none is.\<close>

lemma none_due:
  assumes "inv h" and "peek h = Some x" and "\<not> due x" and "\<And>y z. y \<le> z \<Longrightarrow> due z \<Longrightarrow> due y"
  shows "\<forall>y \<in># items h. \<not> due y"
  using peek_Some [OF assms(1,2)] assms(3,4) by blast

lemma push_all:
  "inv h \<Longrightarrow> inv (foldl (\<lambda>h x. push (f x) h) h xs) \<and>
    items (foldl (\<lambda>h x. push (f x) h) h xs) = items h + image_mset f (mset xs)"
  by (induction xs arbitrary: h) (simp_all add: push)

lemma pop_split: "inv h \<Longrightarrow> peek h = Some x \<Longrightarrow> items h = add_mset x (items (pop h))"
  using pop peek_Some by (metis insert_DiffM)

end

interpretation heap: min_heap sorted mset heap_new heap_push heap_peek heap_pop
proof (unfold_locales, goal_cases)
  case (4 h x)
  then show ?case by (cases h) (auto simp: heap_peek_def)
next
  case (5 h x)
  then show ?case by (cases h) (auto simp: heap_peek_def heap_pop_def)
qed (simp_all add: heap_new_def heap_push_def heap_peek_def sorted_insort split: list.split)

section \<open>The table\<close>

datatype begin_result = New | Joined | PayloadMismatch | TableFull

datatype 'w waiters = One 'w | Many "'w list"

fun waiters_push :: "'w waiters \<Rightarrow> 'w \<Rightarrow> 'w waiters" where
  "waiters_push (One w0) w = Many [w0, w]"
| "waiters_push (Many v) w = Many (v @ [w])"

fun into_vec :: "'w waiters \<Rightarrow> 'w list" where
  "into_vec (One w) = [w]"
| "into_vec (Many v) = v"

record ('f, 'w) entry_state =
  es_fp :: 'f
  es_deadline :: duration
  es_waiters :: "'w waiters"
  es_seq :: u64

datatype 'id heap_item = HeapItem (hi_deadline: duration) (hi_seq: u64) (hi_id: 'id)

text \<open>Items are compared by deadline, then sequence number, then id.\<close>

definition heap_item_le :: "'a::linorder heap_item \<Rightarrow> 'a heap_item \<Rightarrow> bool" where
  "heap_item_le a b \<longleftrightarrow>
     hi_deadline a < hi_deadline b \<or>
     hi_deadline a = hi_deadline b \<and>
       (hi_seq a < hi_seq b \<or> hi_seq a = hi_seq b \<and> hi_id a \<le> hi_id b)"

instantiation heap_item :: (linorder) linorder
begin

definition less_eq_heap_item :: "'a heap_item \<Rightarrow> 'a heap_item \<Rightarrow> bool" where
  "less_eq_heap_item = heap_item_le"

definition less_heap_item :: "'a heap_item \<Rightarrow> 'a heap_item \<Rightarrow> bool" where
  "less_heap_item a b \<longleftrightarrow> a \<le> b \<and> \<not> b \<le> a"

instance
  by standard (auto simp: less_eq_heap_item_def less_heap_item_def heap_item_le_def intro: heap_item.expand)

end

lemma heap_item_deadline_mono: "a \<le> b \<Longrightarrow> hi_deadline a \<le> hi_deadline b"
  by (auto simp: less_eq_heap_item_def heap_item_le_def)

record ('id, 'f, 'w) in_flight_table =
  t_max :: nat
  t_seq :: u64
  t_map :: "('id, ('f, 'w) entry_state) fmap"
  t_heap :: "'id heap_item heap"

definition table_new :: "nat \<Rightarrow> ('id, 'f, 'w) in_flight_table" where
  "table_new max_in_flight =
     \<lparr>t_max = max_in_flight, t_seq = 0, t_map = fmempty, t_heap = heap_new\<rparr>"

definition table_len :: "('id, 'f, 'w) in_flight_table \<Rightarrow> nat" where
  "table_len t = fm_len (t_map t)"

definition table_is_empty :: "('id, 'f, 'w) in_flight_table \<Rightarrow> bool" where
  "table_is_empty t \<longleftrightarrow> fm_len (t_map t) = 0"

definition next_seq :: "('id, 'f, 'w) in_flight_table \<Rightarrow> ('id, 'f, 'w) in_flight_table \<times> u64" where
  "next_seq t = (let s = t_seq t + 1 in (t\<lparr>t_seq := s\<rparr>, s))"

text \<open>
  The heap is rebuilt from the map, whose order of iteration does not matter. The product in the
  threshold saturates only above \<open>2^62\<close> live entries, which no memory holds.
\<close>

definition compact_heap ::
  "('id::linorder, 'f, 'w) in_flight_table \<Rightarrow> ('id, 'f, 'w) in_flight_table" where
  "compact_heap t =
     t\<lparr>t_heap := foldl (\<lambda>h x. heap_push (HeapItem (es_deadline (snd x)) (es_seq (snd x)) (fst x)) h)
        heap_new (sorted_list_of_fmap (t_map t))\<rparr>"

definition maybe_compact_heap ::
  "('id::linorder, 'f, 'w) in_flight_table \<Rightarrow> ('id, 'f, 'w) in_flight_table" where
  "maybe_compact_heap t =
     (let live = fm_len (t_map t) in
      if live = 0 then t\<lparr>t_heap := heap_new\<rparr>
      else
        let threshold = live * 4 + 64 in
        if threshold < length (t_heap t) then compact_heap t else t)"

definition begin_entry ::
  "('id::linorder, 'f, 'w) in_flight_table \<Rightarrow> 'id \<Rightarrow> 'f \<Rightarrow> duration \<Rightarrow> 'w
    \<Rightarrow> ('id, 'f, 'w) in_flight_table \<times> begin_result" where
  "begin_entry t i fp deadline waiter =
     (case fmlookup (t_map t) i of
        Some st \<Rightarrow>
          if es_fp st \<noteq> fp then (t, PayloadMismatch)
          else (t\<lparr>t_map := fmupd i (st\<lparr>es_waiters := waiters_push (es_waiters st) waiter\<rparr>) (t_map t)\<rparr>, Joined)
      | None \<Rightarrow>
          if t_max t \<le> fm_len (t_map t) then (t, TableFull)
          else
            let (t1, seq) = next_seq t;
                t2 = t1\<lparr>t_heap := heap_push (HeapItem deadline seq i) (t_heap t1)\<rparr>;
                t3 = t2\<lparr>t_map := fmupd i
                  \<lparr>es_fp = fp, es_deadline = deadline, es_waiters = One waiter, es_seq = seq\<rparr> (t_map t2)\<rparr>
            in (maybe_compact_heap t3, New))"

definition complete_entry ::
  "('id::linorder, 'f, 'w) in_flight_table \<Rightarrow> 'id \<Rightarrow> ('id, 'f, 'w) in_flight_table \<times> 'w list" where
  "complete_entry t i =
     (let out = (case fmlookup (t_map t) i of Some e \<Rightarrow> into_vec (es_waiters e) | None \<Rightarrow> [])
      in (maybe_compact_heap (t\<lparr>t_map := fmdrop i (t_map t)\<rparr>), out))"

text \<open>The loop of \<open>expire\<close> over the heap and the map, with what it returns.\<close>

function expire_loop ::
  "duration \<Rightarrow> ('id::linorder) heap_item heap \<Rightarrow> ('id, ('f, 'w) entry_state) fmap
    \<Rightarrow> 'id heap_item heap \<times> ('id, ('f, 'w) entry_state) fmap \<times> ('id \<times> 'w list) list" where
  "expire_loop now h m =
     (case heap_peek h of
        None \<Rightarrow> (h, m, [])
      | Some item \<Rightarrow>
          if now < hi_deadline item then (h, m, [])
          else
            (case fmlookup m (hi_id item) of
               None \<Rightarrow> expire_loop now (heap_pop h) m
             | Some cur \<Rightarrow>
                 if es_seq cur \<noteq> hi_seq item then expire_loop now (heap_pop h) m
                 else
                   let (h', m', out) = expire_loop now (heap_pop h) (fmdrop (hi_id item) m)
                   in (h', m', (hi_id item, into_vec (es_waiters cur)) # out)))"
  by pat_completeness auto
termination
  by (relation "measure (\<lambda>(now, h, m). length h)")
     (auto simp: heap_peek_def heap_pop_def split: list.splits)

declare expire_loop.simps [simp del]

definition expire ::
  "('id::linorder, 'f, 'w) in_flight_table \<Rightarrow> duration
    \<Rightarrow> ('id, 'f, 'w) in_flight_table \<times> ('id \<times> 'w list) list" where
  "expire t now =
     (let (h, m, out) = expire_loop now (t_heap t) (t_map t)
      in (maybe_compact_heap (t\<lparr>t_heap := h, t_map := m\<rparr>), out))"

section \<open>Permits in flight\<close>

datatype expiry_policy = CommitSentNoConfirm | RefundPolicy

record 'w limiter_in_flight =
  lf_permit :: permit
  lf_deadline :: duration
  lf_waiters :: "'w waiters"

definition lf_new :: "permit \<Rightarrow> duration \<Rightarrow> 'w \<Rightarrow> 'w limiter_in_flight" where
  "lf_new p deadline waiter = \<lparr>lf_permit = p, lf_deadline = deadline, lf_waiters = One waiter\<rparr>"

definition lf_join :: "'w limiter_in_flight \<Rightarrow> 'w \<Rightarrow> 'w limiter_in_flight" where
  "lf_join e waiter = e\<lparr>lf_waiters := waiters_push (lf_waiters e) waiter\<rparr>"

definition lf_complete :: "'w limiter_in_flight \<Rightarrow> 'w list" where
  "lf_complete e = into_vec (lf_waiters e)"

definition lf_finalize ::
  "bool \<Rightarrow> 'w limiter_in_flight \<Rightarrow> limiter \<Rightarrow> outcome \<Rightarrow> duration \<Rightarrow> (limiter \<times> 'w list) option" where
  "lf_finalize dbg e rl out now =
     do {
       rl' \<leftarrow> (case out of
          NotSent \<Rightarrow> refund dbg rl (lf_permit e) now
        | _ \<Rightarrow> commit dbg rl (lf_permit e) out now);
       Some (rl', into_vec (lf_waiters e))
     }"

definition lf_expire ::
  "bool \<Rightarrow> 'w limiter_in_flight \<Rightarrow> limiter \<Rightarrow> expiry_policy \<Rightarrow> duration \<Rightarrow> (limiter \<times> 'w list) option" where
  "lf_expire dbg e rl policy now =
     do {
       rl' \<leftarrow> (case policy of
          CommitSentNoConfirm \<Rightarrow> commit dbg rl (lf_permit e) SentNoConfirm now
        | RefundPolicy \<Rightarrow> refund dbg rl (lf_permit e) now);
       Some (rl', into_vec (lf_waiters e))
     }"

lemmas in_flight_eval [eval_simps] =
  heap_new_def heap_push_def heap_peek_def heap_pop_def table_new_def table_len_def
  table_is_empty_def next_seq_def compact_heap_def maybe_compact_heap_def begin_entry_def
  complete_entry_def expire_loop.simps expire_def lf_new_def lf_join_def lf_complete_def
  lf_finalize_def lf_expire_def less_eq_heap_item_def heap_item_le_def

end
