(* ===== verification/In_Flight_Properties.thy ===== *)
theory In_Flight_Properties
  imports In_Flight
begin

text \<open>
  The in-flight table: its invariant ties the heap to the live entries, \<open>expire\<close> returns exactly
  the entries that are due, the heap stays within its bound, every waiter that was accepted is
  handed back exactly once, and a permit in flight is finalized as its outcome says.
\<close>

section \<open>The invariant\<close>

definition item_of :: "'id \<Rightarrow> ('f, 'w) entry_state \<Rightarrow> 'id heap_item" where
  "item_of i e = HeapItem (es_deadline e) (es_seq e) i"

text \<open>
  Every live entry has its item in the heap; an item of a live entry's id and sequence number is
  that entry's item, so that stale items are recognized.
\<close>

definition covered :: "'id::linorder heap_item list \<Rightarrow> ('id, ('f, 'w) entry_state) fmap \<Rightarrow> bool" where
  "covered h m \<longleftrightarrow> sorted h \<and>
     (\<forall>i e. fmlookup m i = Some e \<longrightarrow> item_of i e \<in> set h \<and>
       (\<forall>x \<in> set h. hi_id x = i \<and> hi_seq x = es_seq e \<longrightarrow> x = item_of i e))"

lemma coveredD:
  assumes "covered h m" and "fmlookup m i = Some e"
  shows "item_of i e \<in> set h" and "x \<in> set h \<Longrightarrow> hi_id x = i \<Longrightarrow> hi_seq x = es_seq e \<Longrightarrow> x = item_of i e"
  using assms by (auto simp: covered_def)

lemma item_of_simps [simp]:
  "hi_deadline (item_of i e) = es_deadline e" "hi_seq (item_of i e) = es_seq e" "hi_id (item_of i e) = i"
  by (simp_all add: item_of_def)

lemma heap_cons:
  assumes "heap_peek h = Some x"
  shows "h = x # heap_pop h"
  using assms by (cases h) (auto simp: heap_peek_def heap_pop_def)

text \<open>Dropping the first item when it is nobody's, or together with its entry.\<close>

lemma covered_pop_stale:
  assumes "covered h m" and "heap_peek h = Some x"
    and "\<And>e. fmlookup m (hi_id x) = Some e \<Longrightarrow> es_seq e \<noteq> hi_seq x"
  shows "covered (heap_pop h) m"
proof -
  have h: "h = x # heap_pop h" using heap_cons [OF assms(2)] .
  have s: "sorted (x # heap_pop h)" using assms(1) h by (simp add: covered_def)
  have in_h: "y \<in> set (heap_pop h) \<Longrightarrow> y \<in> set h" for y by (subst h) simp
  have "item_of i e \<in> set (heap_pop h)" if e: "fmlookup m i = Some e" for i e
  proof -
    have "item_of i e \<noteq> x" using assms(3) e by auto
    then show ?thesis using coveredD(1) [OF assms(1) e] by (subst (asm) h) simp
  qed
  with s in_h assms(1) show ?thesis by (auto simp: covered_def)
qed

lemma covered_pop_live:
  assumes "covered h m" and "heap_peek h = Some x"
  shows "covered (heap_pop h) (fmdrop (hi_id x) m)"
proof -
  have "covered h (fmdrop (hi_id x) m)" using assms(1) by (auto simp: covered_def)
  from covered_pop_stale [OF this assms(2)] show ?thesis by simp
qed

section \<open>Expiry\<close>

definition is_due :: "('id, ('f, 'w) entry_state) fmap \<Rightarrow> duration \<Rightarrow> 'id \<Rightarrow> bool" where
  "is_due m now i \<longleftrightarrow> (\<exists>e. fmlookup m i = Some e \<and> es_deadline e \<le> now)"

definition deadline_of :: "('id, ('f, 'w) entry_state) fmap \<Rightarrow> 'id \<Rightarrow> duration" where
  "deadline_of m i = (case fmlookup m i of Some e \<Rightarrow> es_deadline e | None \<Rightarrow> dur_zero)"

definition waiting :: "('id, ('f, 'w) entry_state) fmap \<Rightarrow> 'id \<Rightarrow> 'w list" where
  "waiting m i = (case fmlookup m i of Some e \<Rightarrow> into_vec (es_waiters e) | None \<Rightarrow> [])"

text \<open>What the loop leaves and returns, by its own recursion.\<close>

definition expired ::
  "('id::linorder, ('f, 'w) entry_state) fmap \<Rightarrow> duration \<Rightarrow> 'id heap_item list \<Rightarrow>
    'id heap_item list \<Rightarrow> ('id, ('f, 'w) entry_state) fmap \<Rightarrow> ('id \<times> 'w list) list \<Rightarrow> bool" where
  "expired m now h h' m' out \<longleftrightarrow>
     covered h' m' \<and> set h' \<subseteq> set h \<and> length h' \<le> length h \<and>
     (\<forall>i. fmlookup m' i = (if is_due m now i then None else fmlookup m i)) \<and>
     distinct (map fst out) \<and> set (map fst out) = {i. is_due m now i} \<and>
     (\<forall>(i, ws) \<in> set out. ws = waiting m i) \<and> sorted (map (deadline_of m \<circ> fst) out)"

text \<open>One turn that drops a stale item, and one that expires the entry of the item.\<close>

lemma expired_stale:
  assumes "heap_peek h = Some x" and "expired m now (heap_pop h) h' m' out"
  shows "expired m now h h' m' out"
proof -
  have "set (heap_pop h) \<subseteq> set h" "length (heap_pop h) \<le> length h"
    by (subst (2) heap_cons [OF assms(1)], simp add: subset_insertI)+
  with assms(2) show ?thesis unfolding expired_def by (meson order_trans)
qed

lemma expired_live:
  assumes cov: "covered h m" and x: "heap_peek h = Some x" and due: "hi_deadline x \<le> now"
    and e: "fmlookup m (hi_id x) = Some e" "es_seq e = hi_seq x"
    and rec: "expired (fmdrop (hi_id x) m) now (heap_pop h) h' m' out"
  shows "expired m now h h' m' ((hi_id x, into_vec (es_waiters e)) # out)"
proof -
  let ?i = "hi_id x" and ?m = "fmdrop (hi_id x) m"
  note h = heap_cons [OF x]
  have xh: "x \<in> set h" by (subst h) simp
  have dx: "es_deadline e = hi_deadline x" using coveredD(2) [OF cov e(1) xh refl] e(2) by (metis item_of_simps(1))
  have due_m: "is_due m now j \<longleftrightarrow> j = ?i \<or> is_due ?m now j" for j
    using e due dx by (auto simp: is_due_def)
  have not_i: "\<not> is_due ?m now ?i" by (simp add: is_due_def)
  have same: "waiting ?m j = waiting m j" "deadline_of ?m j = deadline_of m j" if "j \<noteq> ?i" for j
    using that by (simp_all add: waiting_def deadline_of_def)
  have late: "hi_deadline x \<le> deadline_of m j" if dj: "is_due ?m now j" for j
  proof -
    obtain e' where "fmlookup ?m j = Some e'" using dj unfolding is_due_def by blast
    then have e': "fmlookup m j = Some e'" by (simp split: if_splits)
    have "sorted h" using cov by (simp add: covered_def)
    then have "x \<le> item_of j e'"
      using heap.peek_Some [of h x] x coveredD(1) [OF cov e'] by auto
    then show ?thesis using heap_item_deadline_mono [of x "item_of j e'"] e' by (simp add: deadline_of_def)
  qed
  have out: "set (map fst out) = {j. is_due ?m now j}" using rec by (simp only: expired_def)
  then have ids: "j \<in> fst ` set out \<longleftrightarrow> is_due ?m now j" for j by auto
  have "sorted (map (deadline_of m \<circ> fst) out)"
  proof -
    have "deadline_of ?m (fst y) = deadline_of m (fst y)" if "y \<in> set out" for y
      using same(2) ids [of "fst y"] not_i that by (metis image_eqI)
    then have "map (deadline_of m \<circ> fst) out = map (deadline_of ?m \<circ> fst) out" by simp
    then show ?thesis using rec by (simp only: expired_def)
  qed
  moreover have "\<forall>y \<in> set out. deadline_of m ?i \<le> deadline_of m (fst y)"
    using ids late e(1) dx by (force simp: deadline_of_def)
  moreover have "\<forall>(j, ws) \<in> set out. ws = waiting m j"
  proof -
    have "waiting ?m j = waiting m j" if "(j, ws) \<in> set out" for j ws
      using that ids [of j] not_i same(1) by force
    then show ?thesis using rec unfolding expired_def by fastforce
  qed
  moreover have "set (heap_pop h) \<subseteq> set h" "length (heap_pop h) \<le> length h"
    by (subst (2) h, simp add: subset_insertI)+
  moreover have "fmlookup m' j = (if is_due m now j then None else fmlookup m j)" for j
    using rec due_m [of j] unfolding expired_def by (cases "j = ?i") auto
  ultimately show ?thesis
    using rec e(1) ids not_i due_m unfolding expired_def by (auto simp: waiting_def)
qed

lemma expired_nothing: "covered h m \<Longrightarrow> \<forall>i. \<not> is_due m now i \<Longrightarrow> expired m now h h m []"
  by (simp add: expired_def)

lemma expire_loop_exact:
  assumes "covered h m" and "expire_loop now h m = (h', m', out)"
  shows "expired m now h h' m' out"
  using assms
proof (induction now h m arbitrary: h' m' out rule: expire_loop.induct)
  case (1 now h m)
  have srt: "sorted h" using "1.prems"(1) by (simp add: covered_def)
  note none = expired_nothing [OF "1.prems"(1)]
  show ?case
  proof (cases "heap_peek h")
    case None
    then have "h = []" by (cases h) (simp_all add: heap_peek_def)
    then have "fmlookup m i = None" for i
      using coveredD(1) [OF "1.prems"(1), of i] by (cases "fmlookup m i") auto
    then have "\<forall>i. \<not> is_due m now i" by (simp add: is_due_def)
    then have "expired m now h h m []" by (rule none)
    with None "1.prems"(2) show ?thesis by (simp add: expire_loop.simps)
  next
    case (Some x)
    show ?thesis
    proof (cases "now < hi_deadline x")
      case True
      have mono: "y \<le> z \<Longrightarrow> hi_deadline z \<le> now \<Longrightarrow> hi_deadline y \<le> now" for y z :: "'a heap_item"
        by (meson heap_item_deadline_mono order_trans)
      have "\<forall>y \<in># mset h. \<not> hi_deadline y \<le> now"
        by (rule heap.none_due [OF srt Some _ mono]) (use True in \<open>simp_all add: not_le\<close>)
      then have "\<forall>i. \<not> is_due m now i"
        using coveredD(1) [OF "1.prems"(1)] by (fastforce simp: is_due_def)
      then have "expired m now h h m []" by (rule none)
      with Some True "1.prems"(2) show ?thesis by (simp add: expire_loop.simps)
    next
      case due: False
      show ?thesis
      proof (cases "\<exists>e. fmlookup m (hi_id x) = Some e \<and> es_seq e = hi_seq x")
        case True
        then obtain e where e: "fmlookup m (hi_id x) = Some e" "es_seq e = hi_seq x" by blast
        obtain h2 m2 out2 where r: "expire_loop now (heap_pop h) (fmdrop (hi_id x) m) = (h2, m2, out2)"
          using prod_cases3 by blast
        have "expired (fmdrop (hi_id x) m) now (heap_pop h) h2 m2 out2"
          using "1.IH"(3) [OF Some due e(1)] e(2) covered_pop_live [OF "1.prems"(1) Some] r by simp
        then have "expired m now h h2 m2 ((hi_id x, into_vec (es_waiters e)) # out2)"
          using expired_live [OF "1.prems"(1) Some _ e] due by (simp add: not_less)
        with due Some e r "1.prems"(2) show ?thesis by (simp add: expire_loop.simps [of now h m])
      next
        case False
        then have r: "expire_loop now (heap_pop h) m = (h', m', out)"
          using Some due "1.prems"(2) by (simp add: expire_loop.simps [of now h m] split: option.splits)
        have cov: "covered (heap_pop h) m"
          using covered_pop_stale [OF "1.prems"(1) Some] False by blast
        have "expired m now (heap_pop h) h' m' out"
        proof (cases "fmlookup m (hi_id x)")
          case None
          from "1.IH"(1) [OF Some due None cov r] show ?thesis .
        next
          case e: (Some e)
          with False have "es_seq e \<noteq> hi_seq x" by blast
          from "1.IH"(2) [OF Some due e this cov r] show ?thesis .
        qed
        then show ?thesis by (rule expired_stale [OF Some])
      qed
    qed
  qed
qed

section \<open>Every operation keeps the table\<close>

definition table_inv :: "('id::linorder, 'f, 'w) in_flight_table \<Rightarrow> bool" where
  "table_inv t \<longleftrightarrow> covered (t_heap t) (t_map t) \<and> (\<forall>x \<in> set (t_heap t). hi_seq x \<le> t_seq t) \<and>
     fm_len (t_map t) \<le> t_max t \<and> length (t_heap t) \<le> 4 * fm_len (t_map t) + 64"

text \<open>What compaction needs: everything of the invariant but the length of the heap.\<close>

definition table_pre :: "('id::linorder, 'f, 'w) in_flight_table \<Rightarrow> bool" where
  "table_pre t \<longleftrightarrow> covered (t_heap t) (t_map t) \<and> (\<forall>x \<in> set (t_heap t). hi_seq x \<le> t_seq t) \<and>
     fm_len (t_map t) \<le> t_max t"

lemma table_inv_pre: "table_inv t \<Longrightarrow> table_pre t"
  by (simp add: table_inv_def table_pre_def)

lemma fm_len_0: "fm_len m = 0 \<longleftrightarrow> m = fmempty"
  by (metis fm_len_def fcard_0_eq fmdom_empty fmdrop_fset_fmdom fmdrop_fset_null)

lemma compact_heap_keeps [simp]:
  "t_map (maybe_compact_heap t) = t_map t" "t_seq (maybe_compact_heap t) = t_seq t"
  "t_max (maybe_compact_heap t) = t_max t"
  by (simp_all add: maybe_compact_heap_def compact_heap_def Let_def)

lemma sorted_list_of_fmap_iff:
  "x \<in> set (sorted_list_of_fmap m) \<longleftrightarrow> fmlookup m (fst x) = Some (snd x)"
  by (cases x) (auto simp: sorted_list_of_fmap_def image_iff fmlookup_dom_iff)

lemma length_sorted_list_of_fmap: "length (sorted_list_of_fmap m) = fm_len m"
  by (simp add: sorted_list_of_fmap_def fm_len_def fcard.rep_eq sorted_list_of_fset.rep_eq)

text \<open>A rebuilt heap holds the items of the live entries and nothing else.\<close>

lemma compact_heap_items:
  "sorted (t_heap (compact_heap t)) \<and>
    mset (t_heap (compact_heap t)) =
      image_mset (\<lambda>x. item_of (fst x) (snd x)) (mset (sorted_list_of_fmap (t_map t)))"
  using heap.push_all [of heap_new "\<lambda>x. item_of (fst x) (snd x)" "sorted_list_of_fmap (t_map t)"] heap.new
  by (simp add: compact_heap_def item_of_def heap_new_def)

lemma compact_heap_set:
  "x \<in> set (t_heap (compact_heap t)) \<longleftrightarrow> (\<exists>e. fmlookup (t_map t) (hi_id x) = Some e \<and> x = item_of (hi_id x) e)"
proof -
  have "x \<in> set (t_heap (compact_heap t)) \<longleftrightarrow>
      x \<in> (\<lambda>x. item_of (fst x) (snd x)) ` set (sorted_list_of_fmap (t_map t))"
    using arg_cong [OF conjunct2 [OF compact_heap_items [of t]], of set_mset] by simp
  also have "\<dots> \<longleftrightarrow> (\<exists>a b. fmlookup (t_map t) a = Some b \<and> x = item_of a b)"
    by (simp add: sorted_list_of_fmap_iff image_iff Bex_def)
  also have "\<dots> \<longleftrightarrow> (\<exists>e. fmlookup (t_map t) (hi_id x) = Some e \<and> x = item_of (hi_id x) e)"
    by (metis item_of_simps(3))
  finally show ?thesis .
qed

lemma length_compact_heap: "length (t_heap (compact_heap t)) = fm_len (t_map t)"
  using arg_cong [OF conjunct2 [OF compact_heap_items [of t]], of size]
  by (simp add: length_sorted_list_of_fmap)

lemma maybe_compact_heap_inv:
  assumes "table_pre t"
  shows "table_inv (maybe_compact_heap t)"
proof -
  have cov: "covered (t_heap t) (t_map t)" and seqs: "\<forall>x \<in> set (t_heap t). hi_seq x \<le> t_seq t"
    using assms by (simp_all add: table_pre_def)
  consider (none) "t_map t = fmempty" | (long) "fm_len (t_map t) \<noteq> 0" "4 * fm_len (t_map t) + 64 < length (t_heap t)"
    | (short) "fm_len (t_map t) \<noteq> 0" "length (t_heap t) \<le> 4 * fm_len (t_map t) + 64"
    by (metis fm_len_0 not_le)
  then show ?thesis
  proof cases
    case none
    then show ?thesis by (simp add: maybe_compact_heap_def table_inv_def covered_def heap_new_def)
  next
    case long
    then have c: "maybe_compact_heap t = compact_heap t"
      by (simp add: maybe_compact_heap_def Let_def mult.commute)
    have frame: "t_map (compact_heap t) = t_map t" "t_seq (compact_heap t) = t_seq t" "t_max (compact_heap t) = t_max t"
      by (simp_all add: compact_heap_def)
    have "covered (t_heap (compact_heap t)) (t_map t)"
      using compact_heap_items [of t] by (auto simp: covered_def compact_heap_set)
    moreover have "\<forall>x \<in> set (t_heap (compact_heap t)). hi_seq x \<le> t_seq t"
      using coveredD(1) [OF cov] seqs by (metis compact_heap_set item_of_simps(2))
    ultimately show ?thesis
      using assms by (simp add: c frame table_inv_def table_pre_def length_compact_heap)
  next
    case short
    then show ?thesis using assms
      by (simp add: maybe_compact_heap_def table_inv_def table_pre_def mult.commute)
  qed
qed

lemma table_new_inv: "table_inv (table_new n)"
  by (simp add: table_inv_def table_new_def covered_def heap_new_def)

lemma word_less_Suc:
  fixes x y :: "'a::len word"
  assumes "x \<noteq> - 1" and "y \<le> x"
  shows "y < x + 1"
proof -
  have "1 + x \<noteq> 0" using assms(1) by (metis add.commute add_eq_0_iff)
  then have "unat (1 + x) = Suc (unat x)" by (rule unatSuc)
  then show ?thesis using assms(2) by (simp add: word_less_nat_alt word_le_nat_alt add.commute)
qed

text \<open>A new entry's sequence number is above every one in the heap, unless the counter wraps.\<close>

lemma covered_begin:
  assumes cov: "covered h m" and seqs: "\<forall>x \<in> set h. hi_seq x < s" and i: "fmlookup m i = None" and e: "es_seq e = s"
  shows "covered (heap_push (item_of i e) h) (fmupd i e m)"
proof -
  have srt: "sorted (heap_push (item_of i e) h)"
    using cov by (simp add: covered_def heap_push_def sorted_insort)
  have set: "set (heap_push (item_of i e) h) = insert (item_of i e) (set h)"
    by (simp add: heap_push_def set_insort_key)
  have "x = item_of i e" if "x \<in> set h" "hi_seq x = s" for x using that seqs by auto
  with cov srt e show ?thesis by (auto simp: covered_def set)
qed

lemma covered_join:
  assumes "covered h m" and "fmlookup m i = Some e" and "es_seq e' = es_seq e" and "es_deadline e' = es_deadline e"
  shows "covered h (fmupd i e' m)"
proof -
  have "item_of i e' = item_of i e" using assms(3,4) by (simp add: item_of_def)
  with assms show ?thesis by (auto simp: covered_def)
qed

lemma covered_drop: "covered h m \<Longrightarrow> covered h (fmdrop i m)"
  by (auto simp: covered_def)

lemma begin_entry_cases:
  assumes "begin_entry t i fp deadline w = (t', r)"
  obtains (mismatch) e where "fmlookup (t_map t) i = Some e" "es_fp e \<noteq> fp" "r = PayloadMismatch" "t' = t"
    | (joined) e where "fmlookup (t_map t) i = Some e" "es_fp e = fp" "r = Joined"
        "t' = t\<lparr>t_map := fmupd i (e\<lparr>es_waiters := waiters_push (es_waiters e) w\<rparr>) (t_map t)\<rparr>"
    | (full) "fmlookup (t_map t) i = None" "t_max t \<le> fm_len (t_map t)" "r = TableFull" "t' = t"
    | (new) e where "fmlookup (t_map t) i = None" "fm_len (t_map t) < t_max t" "r = New"
        "e = \<lparr>es_fp = fp, es_deadline = deadline, es_waiters = One w, es_seq = t_seq t + 1\<rparr>"
        "t' = maybe_compact_heap (t\<lparr>t_seq := t_seq t + 1, t_heap := heap_push (item_of i e) (t_heap t),
          t_map := fmupd i e (t_map t)\<rparr>)"
  using assms
  by (auto simp: begin_entry_def next_seq_def Let_def item_of_def not_le split: option.splits if_splits)

lemma begin_entry_inv:
  assumes inv: "table_inv t" and seq: "t_seq t \<noteq> - 1" and b: "begin_entry t i fp deadline w = (t', r)"
  shows "table_inv t'"
  using b
proof (cases rule: begin_entry_cases)
  case (joined e)
  have "covered (t_heap t) (t_map t')"
    using covered_join [of "t_heap t" "t_map t" i e] inv joined by (simp add: table_inv_def)
  moreover have "fm_len (t_map t') = fm_len (t_map t)"
    using joined by (simp add: fm_len_fmupd fmdomI)
  ultimately show ?thesis using inv joined by (simp add: table_inv_def)
next
  case (new e)
  have lt: "hi_seq x < t_seq t + 1" if "x \<in> set (t_heap t)" for x
    using inv that by (intro word_less_Suc [OF seq]) (simp add: table_inv_def)
  have "set (heap_push (item_of i e) (t_heap t)) = insert (item_of i e) (set (t_heap t))"
    by (simp add: heap_push_def set_insort_key)
  moreover have "covered (heap_push (item_of i e) (t_heap t)) (fmupd i e (t_map t))"
    by (rule covered_begin [of _ _ "t_seq t + 1"]) (use inv lt new in \<open>simp_all add: table_inv_def\<close>)
  moreover have "fm_len (fmupd i e (t_map t)) \<le> t_max t"
    using new(2) by (simp add: fm_len_fmupd)
  ultimately show ?thesis
    unfolding new(5) using lt new(4) by (intro maybe_compact_heap_inv) (auto simp: table_pre_def less_imp_le)
qed (use inv in simp_all)

lemma complete_entry_inv:
  assumes "table_inv t" and "complete_entry t i = (t', ws)"
  shows "table_inv t'"
proof -
  have "table_pre (t\<lparr>t_map := fmdrop i (t_map t)\<rparr>)"
    using assms(1) by (auto simp: table_inv_def table_pre_def covered_drop fm_len_fmdrop)
  then show ?thesis using maybe_compact_heap_inv assms(2) by (auto simp: complete_entry_def Let_def)
qed

lemma expire_exact:
  assumes inv: "table_inv t" and e: "expire t now = (t', out)"
  shows "table_inv t' \<and> (\<exists>h. expired (t_map t) now (t_heap t) h (t_map t') out)"
proof -
  obtain h m where l: "expire_loop now (t_heap t) (t_map t) = (h, m, out)"
    and t': "t' = maybe_compact_heap (t\<lparr>t_heap := h, t_map := m\<rparr>)"
    using e by (auto simp: expire_def split: prod.splits)
  have ex: "expired (t_map t) now (t_heap t) h m out"
    by (rule expire_loop_exact [OF _ l]) (use inv in \<open>simp add: table_inv_def\<close>)
  have "fmdom m |\<subseteq>| fmdom (t_map t)"
    using ex by (intro fsubsetI) (metis expired_def fmlookup_dom_iff option.distinct(1))
  then have "fm_len m \<le> fm_len (t_map t)" by (simp add: fm_len_def fcard_mono)
  then have "table_pre (t\<lparr>t_heap := h, t_map := m\<rparr>)"
    using ex inv by (auto simp: expired_def table_pre_def table_inv_def)
  with ex show ?thesis using maybe_compact_heap_inv by (auto simp: t')
qed

section \<open>Runs of the table\<close>

text \<open>
  A run from an empty table, with the waiters accepted and the waiters handed back so far, each
  with its id. The counter of entries must not be about to wrap when one begins: a run makes
  fewer than \<open>2^64\<close> of them.
\<close>

inductive table_run ::
  "nat \<Rightarrow> ('id::linorder, 'f, 'w) in_flight_table \<Rightarrow> ('id \<times> 'w) list \<Rightarrow> ('id \<times> 'w) list \<Rightarrow> bool" for n where
  start: "table_run n (table_new n) [] []"
| began: "table_run n t acc del \<Longrightarrow> t_seq t \<noteq> - 1 \<Longrightarrow> begin_entry t i fp deadline w = (t', r) \<Longrightarrow>
    table_run n t' (if r = New \<or> r = Joined then acc @ [(i, w)] else acc) del"
| completed: "table_run n t acc del \<Longrightarrow> complete_entry t i = (t', ws) \<Longrightarrow>
    table_run n t' acc (del @ map (Pair i) ws)"
| expires: "table_run n t acc del \<Longrightarrow> expire t now = (t', out) \<Longrightarrow>
    table_run n t' acc (del @ concat (map (\<lambda>(i, ws). map (Pair i) ws) out))"

lemma table_run_inv: "table_run n t acc del \<Longrightarrow> table_inv t"
proof (induction rule: table_run.induct)
  case start
  show ?case by (rule table_new_inv)
next
  case (began t acc del i fp deadline w t' r)
  show ?case by (rule begin_entry_inv [OF began.IH began.hyps(2,3)])
next
  case (completed t acc del i t' ws)
  show ?case by (rule complete_entry_inv [OF completed.IH completed.hyps(2)])
next
  case (expires t acc del now t' out)
  show ?case using expire_exact [OF expires.IH expires.hyps(2)] by simp
qed

lemma begin_entry_max: "begin_entry t i fp d w = (t', r) \<Longrightarrow> t_max t' = t_max t"
  by (erule begin_entry_cases) simp_all

lemma complete_entry_max: "complete_entry t i = (t', ws) \<Longrightarrow> t_max t' = t_max t"
  by (auto simp: complete_entry_def Let_def)

lemma expire_max: "expire t now = (t', out) \<Longrightarrow> t_max t' = t_max t"
  by (auto simp: expire_def split: prod.splits)

lemma table_run_max: "table_run n t acc del \<Longrightarrow> t_max t = n"
  by (induction rule: table_run.induct)
     (simp_all add: table_new_def begin_entry_max complete_entry_max expire_max)

text \<open>The waiters of one id in a sequence.\<close>

definition of_id :: "'id \<Rightarrow> ('id \<times> 'w) list \<Rightarrow> 'w list" where
  "of_id i xs = map snd (filter (\<lambda>x. fst x = i) xs)"

lemma of_id_simps [simp]:
  "of_id i [] = []" "of_id i (xs @ ys) = of_id i xs @ of_id i ys"
  "of_id i ((j, w) # xs) = (if j = i then w # of_id i xs else of_id i xs)"
  by (simp_all add: of_id_def)

lemma of_id_Pair [simp]: "of_id i (map (Pair j) ws) = (if j = i then ws else [])"
  by (induction ws) auto

lemma into_vec_push [simp]: "into_vec (waiters_push v w) = into_vec v @ [w]"
  by (cases v) simp_all

lemma of_id_concat:
  assumes "distinct (map fst out)" and "\<forall>(i, ws) \<in> set out. ws = f i"
  shows "of_id j (concat (map (\<lambda>(i, ws). map (Pair i) ws) out)) = (if j \<in> fst ` set out then f j else [])"
  using assms by (induction out) (auto simp: image_iff)

lemma waiting_simps [simp]:
  "waiting (fmupd i e m) j = (if i = j then into_vec (es_waiters e) else waiting m j)"
  "waiting (fmdrop i m) j = (if i = j then [] else waiting m j)" "waiting fmempty j = []"
  by (simp_all add: waiting_def)

lemma begin_entry_waiting:
  "begin_entry t i fp d w = (t', r) \<Longrightarrow>
    waiting (t_map t') j = waiting (t_map t) j @ (if j = i \<and> (r = New \<or> r = Joined) then [w] else [])"
  by (erule begin_entry_cases) (auto simp: waiting_def)

lemma complete_entry_waiting:
  "complete_entry t i = (t', ws) \<Longrightarrow>
    ws = waiting (t_map t) i \<and> waiting (t_map t') j = (if j = i then [] else waiting (t_map t) j)"
  by (auto simp: complete_entry_def Let_def waiting_def)

lemma expire_waiting:
  assumes "table_inv t" and "expire t now = (t', out)"
  shows "waiting (t_map t) j = of_id j (concat (map (\<lambda>(i, ws). map (Pair i) ws) out)) @ waiting (t_map t') j"
proof -
  obtain h where ex: "expired (t_map t) now (t_heap t) h (t_map t') out" using expire_exact [OF assms] by blast
  then have "of_id j (concat (map (\<lambda>(i, ws). map (Pair i) ws) out)) =
      (if is_due (t_map t) now j then waiting (t_map t) j else [])"
    by (subst of_id_concat [where f = "waiting (t_map t)"]) (auto simp: expired_def)
  with ex show ?thesis by (auto simp: expired_def waiting_def)
qed

lemma table_run_waiters:
  "table_run n t acc del \<Longrightarrow> of_id j acc = of_id j del @ waiting (t_map t) j"
proof (induction rule: table_run.induct)
  case start
  show ?case by (simp add: table_new_def)
next
  case (began t acc del i fp deadline w t' r)
  then show ?case using begin_entry_waiting [OF began.hyps(3), of j] by auto
next
  case (completed t acc del i t' ws)
  then show ?case using complete_entry_waiting [OF completed.hyps(2), of j] by auto
next
  case (expires t acc del now t' out)
  then show ?case using expire_waiting [OF table_run_inv [OF expires.hyps(1)] expires.hyps(2), of j] by simp
qed

section \<open>What the table promises\<close>

text \<open>The table as its clients see it: for each live id the fingerprint, deadline and waiters.\<close>

type_synonym ('id, 'f, 'w) table_spec = "'id \<Rightarrow> ('f \<times> duration \<times> 'w list) option"

definition table_abs :: "('id, 'f, 'w) in_flight_table \<Rightarrow> ('id, 'f, 'w) table_spec" where
  "table_abs t i = map_option (\<lambda>e. (es_fp e, es_deadline e, into_vec (es_waiters e))) (fmlookup (t_map t) i)"

definition spec_begin ::
  "nat \<Rightarrow> ('id, 'f, 'w) table_spec \<Rightarrow> 'id \<Rightarrow> 'f \<Rightarrow> duration \<Rightarrow> 'w \<Rightarrow> ('id, 'f, 'w) table_spec \<times> begin_result" where
  "spec_begin n s i fp deadline w =
     (case s i of
        Some (fp', d, ws) \<Rightarrow>
          if fp' = fp then (s(i \<mapsto> (fp', d, ws @ [w])), Joined) else (s, PayloadMismatch)
      | None \<Rightarrow>
          if card (dom s) < n then (s(i \<mapsto> (fp, deadline, [w])), New) else (s, TableFull))"

definition spec_complete ::
  "('id, 'f, 'w) table_spec \<Rightarrow> 'id \<Rightarrow> ('id, 'f, 'w) table_spec \<times> 'w list" where
  "spec_complete s i = (s(i := None), case s i of Some (_, _, ws) \<Rightarrow> ws | None \<Rightarrow> [])"

lemma dom_table_abs: "dom (table_abs t) = fset (fmdom (t_map t))"
  by (auto simp: table_abs_def fmlookup_dom_iff)

lemma table_abs_update:
  "table_abs (t\<lparr>t_map := fmupd i e (t_map t)\<rparr>) =
    (table_abs t)(i \<mapsto> (es_fp e, es_deadline e, into_vec (es_waiters e)))"
  "table_abs (t\<lparr>t_map := fmdrop i (t_map t)\<rparr>) = (table_abs t)(i := None)"
  by (auto simp: table_abs_def fun_eq_iff)

lemma table_abs_cong: "t_map t = t_map t' \<Longrightarrow> table_abs t = table_abs t'"
  by (simp add: table_abs_def fun_eq_iff)

text \<open>C19: The in-flight table behaves as a bounded map from ids to a fingerprint, a deadline and the waiters
  in the order they joined: \<open>begin\<close> opens an entry only for an id that is not in flight and only
  when fewer than the bound are, joins on an equal fingerprint, and changes nothing on another
  fingerprint or a full table; \<open>complete\<close> removes the entry and hands back its waiters. The heap
  never shows.\<close>

theorem in_flight_refines_map:
  "map_prod table_abs id (begin_entry t i fp deadline w) =
      spec_begin (t_max t) (table_abs t) i fp deadline w \<and>
    map_prod table_abs id (complete_entry t i) = spec_complete (table_abs t) i"
proof
  obtain t' r where b: "begin_entry t i fp deadline w = (t', r)" by fastforce
  have card: "card (dom (table_abs t)) = fm_len (t_map t)"
    by (simp add: dom_table_abs fm_len_def fcard.rep_eq)
  show "map_prod table_abs id (begin_entry t i fp deadline w) =
      spec_begin (t_max t) (table_abs t) i fp deadline w"
    using b
  proof (cases rule: begin_entry_cases)
    case (new e)
    have "table_abs t' = table_abs (t\<lparr>t_map := fmupd i e (t_map t)\<rparr>)"
      by (rule table_abs_cong) (simp add: new(5))
    with new b card show ?thesis
      by (simp add: spec_begin_def table_abs_update) (simp add: table_abs_def)
  qed (use b card in \<open>simp_all add: spec_begin_def table_abs_update, simp_all add: table_abs_def\<close>)
  have "table_abs (maybe_compact_heap (t\<lparr>t_map := fmdrop i (t_map t)\<rparr>)) =
      table_abs (t\<lparr>t_map := fmdrop i (t_map t)\<rparr>)"
    by (rule table_abs_cong) simp
  then show "map_prod table_abs id (complete_entry t i) = spec_complete (table_abs t) i"
    by (simp add: complete_entry_def spec_complete_def Let_def table_abs_update)
       (simp add: table_abs_def split: option.split)
qed

lemma table_abs_due:
  "(\<exists>fp d. table_abs t i = Some (fp, d, ws) \<and> d \<le> now) \<longleftrightarrow>
    is_due (t_map t) now i \<and> ws = waiting (t_map t) i"
  by (auto simp: table_abs_def is_due_def waiting_def)

text \<open>C20: \<open>expire\<close> on any table a run reaches returns each live id whose deadline has come exactly once,
  with all its waiters in the order they joined, ids in the order of their deadlines, and keeps
  every other entry as it was.\<close>

theorem expire_returns_the_due:
  assumes "table_run n t acc del" and "expire t now = (t', out)"
  shows "distinct (map fst out) \<and>
    (\<forall>i ws. (i, ws) \<in> set out \<longleftrightarrow> (\<exists>fp d. table_abs t i = Some (fp, d, ws) \<and> d \<le> now)) \<and>
    sorted (map (deadline_of (t_map t) \<circ> fst) out) \<and>
    (\<forall>i. table_abs t' i = (if i \<in> fst ` set out then None else table_abs t i))"
proof -
  obtain h where ex: "expired (t_map t) now (t_heap t) h (t_map t') out"
    using expire_exact [OF table_run_inv [OF assms(1)] assms(2)] by blast
  have ids: "i \<in> fst ` set out \<longleftrightarrow> is_due (t_map t) now i" for i using ex by (auto simp: expired_def)
  have "\<forall>(i, ws) \<in> set out. ws = waiting (t_map t) i" using ex unfolding expired_def by blast
  then have mem: "(i, ws) \<in> set out \<longleftrightarrow> is_due (t_map t) now i \<and> ws = waiting (t_map t) i" for i ws
    using ids [of i] by (cases "is_due (t_map t) now i") (force simp: image_iff)+
  have gone: "table_abs t' i = (if i \<in> fst ` set out then None else table_abs t i)" for i
    using ex ids [of i] by (simp add: expired_def table_abs_def)
  have "distinct (map fst out)" "sorted (map (deadline_of (t_map t) \<circ> fst) out)"
    using ex unfolding expired_def by blast+
  with mem gone show ?thesis by (simp add: table_abs_due)
qed

text \<open>C18: Over any run of the table, the waiters handed back for an id by completions and expiries are, in
  order, a prefix of the waiters accepted for it, and the rest are the ones still waiting: each
  accepted waiter is handed back exactly once and none is invented, whatever ids come back after
  their completion and however the heap was compacted.\<close>

theorem waiters_delivered_once:
  assumes "table_run n t acc del"
  shows "of_id i acc = of_id i del @ (case table_abs t i of Some (fp, d, ws) \<Rightarrow> ws | None \<Rightarrow> [])"
  using table_run_waiters [OF assms, of i] by (auto simp: waiting_def table_abs_def split: option.split)

text \<open>C36: The table never holds more than its bound of entries, and its heap, stale items included, at
  most four items per live entry and 64 more, however many entries were completed before their
  deadlines.\<close>

theorem in_flight_bounded:
  assumes "table_run n t acc del"
  shows "table_len t \<le> n \<and> length (t_heap t) \<le> 4 * table_len t + 64"
  using table_run_inv [OF assms] table_run_max [OF assms] by (simp add: table_inv_def table_len_def)

text \<open>A run with a stale item: id 5 is completed early and begins again.\<close>

type_synonym ex_in_flight = "(nat, nat, nat) in_flight_table"

definition ex_begun :: ex_in_flight where
  "ex_begun = fst (begin_entry (fst (begin_entry (table_new 2) 5 7 (dur 5) 10)) 6 7 (dur 6) 11)"

definition ex_joined :: ex_in_flight where
  "ex_joined = fst (begin_entry ex_begun 6 7 (dur 8) 12)"

definition ex_table :: ex_in_flight where
  "ex_table = fst (begin_entry (fst (complete_entry ex_joined 5)) 5 8 (dur 9) 13)"

lemmas ex_table_eval = ex_begun_def ex_joined_def ex_table_def eval_simps

lemma table_run_begins:
  assumes "table_run n t acc del" and "t_seq t \<noteq> - 1"
    and "snd (begin_entry t i fp deadline w) \<in> {New, Joined}" and "acc' = acc @ [(i, w)]"
  shows "table_run n (fst (begin_entry t i fp deadline w)) acc' del"
  using table_run.began [OF assms(1,2), of i fp deadline w] assms(3,4)
  by (cases "begin_entry t i fp deadline w") auto

lemma table_run_completes:
  assumes "table_run n t acc del" and "del' = del @ map (Pair i) (snd (complete_entry t i))"
  shows "table_run n (fst (complete_entry t i)) acc del'"
  using table_run.completed [OF assms(1), of i] assms(2) by (cases "complete_entry t i") auto

lemma ex_begun_run: "table_run 2 ex_begun [(5, 10), (6, 11)] []"
  unfolding ex_begun_def
  by (rule table_run_begins [OF table_run_begins [OF table_run.start]]) (simp_all add: eval_simps)

lemma ex_joined_run: "table_run 2 ex_joined [(5, 10), (6, 11), (6, 12)] []"
  unfolding ex_joined_def by (rule table_run_begins [OF ex_begun_run]) (simp_all add: ex_table_eval)

lemma ex_table_run: "table_run 2 ex_table [(5, 10), (6, 11), (6, 12), (5, 13)] [(5, 10)]"
  unfolding ex_table_def
  by (rule table_run_begins [OF table_run_completes [OF ex_joined_run]]) (simp_all add: ex_table_eval)

lemma expire_returns_the_due_witness:
  "\<exists>t' out. expire ex_table (dur 6) = (t', out) \<and> (6, [11, 12]) \<in> set out \<and> table_abs t' 6 = None"
proof -
  obtain t' out where e: "expire ex_table (dur 6) = (t', out)" by fastforce
  have "table_abs ex_table 6 = Some (7, dur 6, [11, 12])"
    by (simp add: ex_table_eval table_abs_def)
  then show ?thesis using expire_returns_the_due [OF ex_table_run e] e by force
qed

lemma waiters_delivered_once_witness:
  "of_id 5 [(5::nat, 10::nat), (6, 11), (6, 12), (5, 13)] =
    of_id 5 [(5::nat, 10::nat)] @ (case table_abs ex_table 5 of Some (fp, d, ws) \<Rightarrow> ws | None \<Rightarrow> [])"
  by (rule waiters_delivered_once [OF ex_table_run])

lemma in_flight_bounded_witness:
  "table_len ex_table \<le> 2 \<and> length (t_heap ex_table) \<le> 4 * table_len ex_table + 64"
  by (rule in_flight_bounded [OF ex_table_run])

section \<open>Permits in flight\<close>

lemma in_flight_joins:
  "lf_permit (foldl lf_join e ws) = lf_permit e"
  "into_vec (lf_waiters (foldl lf_join e ws)) = into_vec (lf_waiters e) @ ws"
  by (induction ws arbitrary: e) (simp_all add: lf_join_def)

text \<open>A permit in flight that collected waiters is finalized by \<open>finalize\<close> as a commit with its outcome,
  whatever the outcome, and by \<open>expire\<close> as a commit with \<open>SentNoConfirm\<close> or, under the refunding
  policy, with \<open>NotSent\<close>. Every such call returns (a refund when it cannot overflow), hands back the
  first waiter and then the others in the order they joined, and leaves the permit no longer
  outstanding.\<close>

lemma in_flight_permit_finalized:
  assumes "reachable dbg rl ps" and p: "p \<in># ps"
    and "out = NotSent \<Longrightarrow> refund_safe dbg (cfg_algorithm (l_cfg rl))"
  shows "\<exists>rl'. commit dbg rl p out now = Some rl' \<and> reachable dbg rl' (ps - {#p#}) \<and>
      lf_finalize dbg (foldl lf_join (lf_new p deadline w) ws) rl out now = Some (rl', w # ws) \<and>
      (out = SentNoConfirm \<longrightarrow>
        lf_expire dbg (foldl lf_join (lf_new p deadline w) ws) rl CommitSentNoConfirm now = Some (rl', w # ws)) \<and>
      (out = NotSent \<longrightarrow>
        lf_expire dbg (foldl lf_join (lf_new p deadline w) ws) rl RefundPolicy now = Some (rl', w # ws))"
proof -
  have inv: "lim_inv rl ps" using assms(1) by (rule reachable_inv)
  have "commit dbg rl p out now \<noteq> None"
    using assms(3) by (intro commit_total [OF inv p]) (simp add: algo_of_def)
  then obtain rl' where c: "commit dbg rl p out now = Some rl'" by blast
  moreover have "reachable dbg rl' (ps - {#p#})"
    using reachable.step [OF assms(1)] client_step.committed [OF p c] by blast
  moreover have "refund dbg rl p now = Some rl'" if "out = NotSent"
    using c that commit_not_sent [OF inv p] by simp
  ultimately show ?thesis
    by (cases out) (simp_all add: lf_finalize_def lf_expire_def lf_new_def in_flight_joins)
qed

lemma in_flight_permit_finalized_witness:
  "\<exists>rl'. lf_expire True (foldl lf_join (lf_new ex_permit (from_secs 8) (1::nat)) [2, 3]) ex_limiter
      RefundPolicy (from_secs 9) = Some (rl', [1, 2, 3])"
  using in_flight_permit_finalized [OF ex_reachable, of ex_permit NotSent "from_secs 9" "from_secs 8" "1::nat" "[2, 3]"]
  by (auto simp: ex_limiter_def ex_config_def)

end
