(* ===== verification/Permits_In_Flight.thy ===== *)
theory Permits_In_Flight
  imports In_Flight_Properties Window_Properties
begin

text \<open>
  A client that keeps the permits of its operations in \<open>LimiterInFlight\<close> entries of
  \<open>src/src/in_flight.rs\<close>, one per id, and a limiter of \<open>src/src/limiter.rs\<close>: operations begin with a
  granted permit, duplicates join, and each ends by \<open>finalize\<close>, \<open>expire\<close> or \<open>complete\<close>, in any order.
  The first two give the permit back to the limiter; \<open>complete\<close> drops it, and what that costs is shown.
\<close>

section \<open>The client\<close>

type_synonym ('id, 'w) flights = "('id, 'w limiter_in_flight) fmap"

definition permits_of :: "('id, 'w) flights \<Rightarrow> permit multiset" where
  "permits_of m = image_mset (\<lambda>i. lf_permit (the (fmlookup m i))) (mset_set (fset (fmdom m)))"

definition flight_waiters :: "('id, 'w) flights \<Rightarrow> 'id \<Rightarrow> 'w list" where
  "flight_waiters m i = (case fmlookup m i of None \<Rightarrow> [] | Some e \<Rightarrow> into_vec (lf_waiters e))"

text \<open>
  A run from a new limiter: the limiter, the operations in flight, the permits that \<open>complete\<close>
  dropped, and the waiters accepted and handed back, each with its id. Feedback and updates of the
  configuration come at any moment.
\<close>

inductive flight_run ::
  "bool \<Rightarrow> limiter \<Rightarrow> ('id, 'w) flights \<Rightarrow> permit multiset \<Rightarrow> ('id \<times> 'w) list \<Rightarrow> ('id \<times> 'w) list \<Rightarrow> bool" for dbg where
  start: "built cfg \<Longrightarrow> flight_run dbg (limiter_new_at cfg t) fmempty {#} [] []"
| begun: "flight_run dbg rl m lost acc del \<Longrightarrow> few_permits (permits_of m + lost) \<Longrightarrow> fmlookup m i = None \<Longrightarrow>
    try_acquire dbg rl k c now = Some (rl', Inr p) \<Longrightarrow>
    flight_run dbg rl' (fmupd i (lf_new p deadline w) m) lost (acc @ [(i, w)]) del"
| turned_away: "flight_run dbg rl m lost acc del \<Longrightarrow> try_acquire dbg rl k c now = Some (rl', Inl d) \<Longrightarrow>
    flight_run dbg rl' m lost acc del"
| joined: "flight_run dbg rl m lost acc del \<Longrightarrow> fmlookup m i = Some e \<Longrightarrow>
    flight_run dbg rl (fmupd i (lf_join e w) m) lost (acc @ [(i, w)]) del"
| finalized: "flight_run dbg rl m lost acc del \<Longrightarrow> fmlookup m i = Some e \<Longrightarrow>
    lf_finalize dbg e rl out now = Some (rl', ws) \<Longrightarrow>
    flight_run dbg rl' (fmdrop i m) lost acc (del @ map (Pair i) ws)"
| expired: "flight_run dbg rl m lost acc del \<Longrightarrow> fmlookup m i = Some e \<Longrightarrow>
    lf_expire dbg e rl policy now = Some (rl', ws) \<Longrightarrow>
    flight_run dbg rl' (fmdrop i m) lost acc (del @ map (Pair i) ws)"
| completed: "flight_run dbg rl m lost acc del \<Longrightarrow> fmlookup m i = Some e \<Longrightarrow> lf_complete e = ws \<Longrightarrow>
    flight_run dbg rl (fmdrop i m) (add_mset (lf_permit e) lost) acc (del @ map (Pair i) ws)"
| told: "flight_run dbg rl m lost acc del \<Longrightarrow> apply_feedback dbg rl k fb now = Some rl' \<Longrightarrow>
    flight_run dbg rl' m lost acc del"
| updated: "flight_run dbg rl m lost acc del \<Longrightarrow> built cfg \<Longrightarrow>
    update_config dbg rl cfg now = Some (rl', res) \<Longrightarrow> flight_run dbg rl' m lost acc del"

section \<open>The permits in flight\<close>

lemma permits_of_simps [simp]:
  "permits_of fmempty = {#}"
  "fmlookup m i = None \<Longrightarrow> permits_of (fmupd i e m) = add_mset (lf_permit e) (permits_of m)"
proof -
  show "permits_of fmempty = {#}" by (simp add: permits_of_def)
  assume "fmlookup m i = None"
  then have i: "i \<notin> fset (fmdom m)" by (simp add: fmdom_notI)
  then have "image_mset (\<lambda>j. lf_permit (the (fmlookup (fmupd i e m) j))) (mset_set (fset (fmdom m))) =
      image_mset (\<lambda>j. lf_permit (the (fmlookup m j))) (mset_set (fset (fmdom m)))"
    by (intro image_mset_cong) auto
  with i show "permits_of (fmupd i e m) = add_mset (lf_permit e) (permits_of m)" by (simp add: permits_of_def)
qed

lemma permits_of_drop:
  assumes "fmlookup m i = Some e"
  shows "permits_of m = add_mset (lf_permit e) (permits_of (fmdrop i m))"
proof -
  have "fmupd i e (fmdrop i m) = m" using assms by (intro fmap_ext) auto
  with permits_of_simps(2) [of "fmdrop i m" i e] show ?thesis by simp
qed

lemma permits_of_same:
  assumes "fmlookup m i = Some e" and "lf_permit e' = lf_permit e"
  shows "permits_of (fmupd i e' m) = permits_of m"
proof -
  have "fmupd i e' m = fmupd i e' (fmdrop i m)" by (intro fmap_ext) simp
  with permits_of_simps(2) [of "fmdrop i m" i e'] permits_of_drop [OF assms(1)] assms(2) show ?thesis by simp
qed

lemma lf_join_simps [simp]:
  "lf_permit (lf_join e w) = lf_permit e" "into_vec (lf_waiters (lf_join e w)) = into_vec (lf_waiters e) @ [w]"
  "lf_permit (lf_new p d w) = p" "into_vec (lf_waiters (lf_new p d w)) = [w]"
  by (simp_all add: lf_join_def lf_new_def)

text \<open>Both ends of a permit are steps of the limiter's client.\<close>

lemma lf_ends:
  assumes "p = lf_permit e" and "p \<in># ps"
  shows "lf_finalize dbg e rl out now = Some (rl', ws) \<Longrightarrow> client_step dbg (rl, ps) (rl', ps - {#p#}) \<and> ws = into_vec (lf_waiters e)"
    and "lf_expire dbg e rl policy now = Some (rl', ws) \<Longrightarrow> client_step dbg (rl, ps) (rl', ps - {#p#}) \<and> ws = into_vec (lf_waiters e)"
  using assms
  by (auto simp: lf_finalize_def lf_expire_def bind_eq_Some_conv split: outcome.splits expiry_policy.splits
      intro: client_step.committed client_step.refunded)

lemma flight_run_reachable: "flight_run dbg rl m lost acc del \<Longrightarrow> reachable dbg rl (permits_of m + lost)"
proof (induction rule: flight_run.induct)
  case (start cfg t)
  then show ?case by (simp add: reachable.start)
next
  case (begun rl m lost acc del i k c now rl' p deadline w)
  from reachable.step [OF begun.IH client_step.granted [OF begun.hyps(2,4)]] begun.hyps(3) show ?case by simp
next
  case (joined rl m lost acc del i e w)
  then show ?case by (simp add: permits_of_same)
next
  case (finalized rl m lost acc del i e out now rl' ws)
  have "client_step dbg (rl, permits_of m + lost) (rl', permits_of m + lost - {#lf_permit e#})"
    using lf_ends(1) [where ps = "permits_of m + lost", OF refl _ finalized.hyps(3)] permits_of_drop [OF finalized.hyps(2)] by simp
  from reachable.step [OF finalized.IH this] permits_of_drop [OF finalized.hyps(2)] show ?case by simp
next
  case (expired rl m lost acc del i e policy now rl' ws)
  have "client_step dbg (rl, permits_of m + lost) (rl', permits_of m + lost - {#lf_permit e#})"
    using lf_ends(2) [where ps = "permits_of m + lost", OF refl _ expired.hyps(3)] permits_of_drop [OF expired.hyps(2)] by simp
  from reachable.step [OF expired.IH this] permits_of_drop [OF expired.hyps(2)] show ?case by simp
next
  case (completed rl m lost acc del i e ws)
  then show ?case using permits_of_drop [OF completed.hyps(2)] by simp
qed (blast intro: reachable.step client_step.intros)+

lemma flight_waiters_simps [simp]:
  "flight_waiters fmempty i = []" "flight_waiters (fmdrop j m) i = (if i = j then [] else flight_waiters m i)"
  "flight_waiters (fmupd j e m) i = (if i = j then into_vec (lf_waiters e) else flight_waiters m i)"
  by (simp_all add: flight_waiters_def)

lemma flight_run_waiters: "flight_run dbg rl m lost acc del \<Longrightarrow> of_id i acc = of_id i del @ flight_waiters m i"
proof (induction rule: flight_run.induct)
  case (begun rl m lost acc del j k c now rl' p deadline w)
  then show ?case by (auto simp: flight_waiters_def)
next
  case (joined rl m lost acc del j e w)
  then show ?case by (auto simp: flight_waiters_def)
next
  case (finalized rl m lost acc del j e out now rl' ws)
  then have "ws = into_vec (lf_waiters e)" by (auto simp: lf_finalize_def bind_eq_Some_conv)
  with finalized show ?case by (auto simp: flight_waiters_def)
next
  case (expired rl m lost acc del j e policy now rl' ws)
  then have "ws = into_vec (lf_waiters e)" by (auto simp: lf_expire_def bind_eq_Some_conv)
  with expired show ?case by (auto simp: flight_waiters_def)
next
  case (completed rl m lost acc del j e ws)
  then show ?case by (auto simp: flight_waiters_def lf_complete_def)
qed simp_all

section \<open>What the client can rely on\<close>

text \<open>C17: Permits and waiters in flight are accounted for, end to end: in any run of a client that keeps its
  permits in \<open>LimiterInFlight\<close> entries, the bucket of each key has reserved exactly the costs of the
  operations in flight on that key and of the permits that \<open>complete\<close> dropped, no more and no less;
  each accepted waiter of an id has been handed back once, in the order they joined, or is waiting;
  and every operation in flight can end without a panic, by \<open>finalize\<close> with any outcome other than
  \<open>NotSent\<close> and by \<open>expire\<close> under \<open>CommitSentNoConfirm\<close>. The two ends that refund the permit return
  too, but for the sum that a pool's refund does not check: on a fixed window, in a build without
  overflow checks, or for a capacity of at most \<open>2^64 - 2^32\<close> (\<open>refund_safe\<close>).\<close>

theorem flights_accounted:
  assumes "flight_run dbg rl m lost acc del"
  shows "(\<forall>k b. fmlookup (l_buckets rl) k = Some b \<longrightarrow>
      reserved_of b = weights (keyed k (permits_of m)) + weights (keyed k lost)) \<and>
    (\<forall>i. of_id i acc = of_id i del @ flight_waiters m i) \<and>
    (\<forall>i e out policy now. fmlookup m i = Some e \<longrightarrow>
      (out \<noteq> NotSent \<or> refund_safe dbg (cfg_algorithm (l_cfg rl)) \<longrightarrow>
        lf_finalize dbg e rl out now \<noteq> None) \<and>
      (policy = CommitSentNoConfirm \<or> refund_safe dbg (cfg_algorithm (l_cfg rl)) \<longrightarrow>
        lf_expire dbg e rl policy now \<noteq> None))"
proof (intro conjI allI impI)
  have inv: "lim_inv rl (permits_of m + lost)" using flight_run_reachable [OF assms] by (rule reachable_inv)
  show "reserved_of b = weights (keyed k (permits_of m)) + weights (keyed k lost)"
    if "fmlookup (l_buckets rl) k = Some b" for k b
    using bucket_inv_reserved [OF lim_inv_bucket [OF inv that]] by (simp add: keyed_def weights_def)
  show "of_id i acc = of_id i del @ flight_waiters m i" for i using assms by (rule flight_run_waiters)
  fix i e out policy now
  assume "fmlookup m i = Some e"
  then have p: "lf_permit e \<in># permits_of m + lost" using permits_of_drop [of m i e] by simp
  have c: "x \<noteq> NotSent \<Longrightarrow> commit dbg rl (lf_permit e) x now \<noteq> None" for x
    by (rule commit_total [OF inv p]) simp
  have r: "refund dbg rl (lf_permit e) now \<noteq> None" if "refund_safe dbg (cfg_algorithm (l_cfg rl))"
    using that by (intro refund_total [OF inv p]) (simp add: algo_of_def)
  show "lf_finalize dbg e rl out now \<noteq> None"
    if "out \<noteq> NotSent \<or> refund_safe dbg (cfg_algorithm (l_cfg rl))"
    using that c [of out] r by (cases out) (auto simp: lf_finalize_def)
  show "lf_expire dbg e rl policy now \<noteq> None"
    if "policy = CommitSentNoConfirm \<or> refund_safe dbg (cfg_algorithm (l_cfg rl))"
    using that c [of SentNoConfirm] r by (cases policy) (auto simp: lf_expire_def)
qed

text \<open>A run: an operation begins on the window of three units, is joined, and another client's is told to wait.\<close>

abbreviation ex_flight :: "nat limiter_in_flight" where
  "ex_flight \<equiv> lf_join (lf_new ex_permit (from_secs 9) 1) 2"

lemma ex_flight_run:
  "flight_run True ex_limiter (fmupd 5 ex_flight fmempty) {#} [(5::nat, 1), (5, 2)] []"
proof -
  let ?e = "lf_new ex_permit (from_secs 9) (1::nat)"
  have t: "try_acquire True (limiter_new ex_config) 7 (Cost 2) (dur 1500000000) = Some (ex_limiter, Inr ex_permit)"
    by (simp add: ex_defs eval_simps)
  have "flight_run True (limiter_new ex_config) (fmempty :: (nat, nat) flights) {#} [] []"
    unfolding limiter_new_def by (rule flight_run.start) (rule ex_config_built)
  from begun [OF this _ _ t, of 5 "from_secs 9" 1]
  have "flight_run True ex_limiter (fmupd (5::nat) ?e fmempty) {#} [(5, 1)] []" by (simp add: few_permits_def)
  from joined [OF this, of 5 ?e 2] show ?thesis by simp
qed

lemma flights_accounted_witness:
  "\<exists>rl'. reserved_of ex_bucket = 2 \<and>
    lf_finalize True ex_flight ex_limiter Confirmed (from_secs 2) = Some (rl', [1, 2])"
proof -
  note a = flights_accounted [OF ex_flight_run]
  have "fmlookup (l_buckets ex_limiter) 7 = Some ex_bucket" by (simp add: ex_limiter_def)
  with a have "reserved_of ex_bucket = 2"
    by (fastforce simp: keyed_def weights_def permits_of_def ex_permit_def lf_join_def lf_new_def weight_def cost_get_Cost)
  moreover obtain rl' ws where f: "lf_finalize True ex_flight ex_limiter Confirmed (from_secs 2) = Some (rl', ws)"
    using a by fastforce
  then have "ws = [1, 2]" by (auto simp: lf_finalize_def bind_eq_Some_conv)
  ultimately show ?thesis using f by blast
qed

text \<open>
  \<open>complete\<close> hands back the waiters and drops the permit, so that its reservation is never given
  back: whatever the client does from then on, the key keeps it.
\<close>

lemma lost_grows: "flight_run dbg rl m lost acc del \<Longrightarrow> p \<in># lost \<Longrightarrow>
    \<exists>b. fmlookup (l_buckets rl) (p_key p) = Some b \<and> weight (p_cost p) \<le> reserved_of b"
proof -
  assume r: "flight_run dbg rl m lost acc del" and p: "p \<in># lost"
  have inv: "lim_inv rl (permits_of m + lost)" using flight_run_reachable [OF r] by (rule reachable_inv)
  have "p \<in># permits_of m + lost" using p by simp
  then obtain b where b: "fmlookup (l_buckets rl) (p_key p) = Some b"
    using inv by (auto simp: lim_inv_def dest: buckets_inv_held)
  have "p \<in># keyed (p_key p) (permits_of m + lost)" using p by (simp add: keyed_def)
  then have "weight (p_cost p) \<le> weights (keyed (p_key p) (permits_of m + lost))"
    unfolding weights_def by (rule multi_member_split [THEN exE]) simp
  with b bucket_inv_reserved [OF lim_inv_bucket [OF inv b]] show ?thesis by auto
qed

text \<open>A fixed window that it used up is then exhausted for ever, with an advised wait of zero.\<close>

definition ex_last :: permit where
  "ex_last = ex_permit\<lparr>p_cost := Cost 3, p_issued_at := dur 1000000000\<rparr>"

definition ex_dead :: limiter where
  "ex_dead = ex_limiter\<lparr>l_buckets := fmupd 7 (ex_bucket\<lparr>algo := AlgoFixedWindow
     \<lparr>fw_window_start = dur 1000000000, fw_reserved = 3, fw_spent = 0\<rparr>\<rparr>) fmempty\<rparr>"

lemma complete_loses_the_key:
  "try_acquire dbg (limiter_new ex_config) 7 (Cost 3) (from_secs 1) = Some (ex_dead, Inr ex_last) \<and>
    lf_complete (lf_new ex_last (from_secs 9) (1::nat)) = [1] \<and>
    (\<forall>now \<ge> from_secs 2. \<exists>rl. try_acquire dbg ex_dead 7 (Cost 1) now = Some (rl, Inl \<lparr>retry_after = dur_zero\<rparr>))"
proof (intro conjI allI impI)
  show "try_acquire dbg (limiter_new ex_config) 7 (Cost 3) (from_secs 1) = Some (ex_dead, Inr ex_last)"
    by (simp add: ex_dead_def ex_last_def ex_defs eval_simps)
  show "lf_complete (lf_new ex_last (from_secs 9) (1::nat)) = [1]" by (simp add: lf_complete_def)
  fix now
  assume now: "from_secs 2 \<le> now"
  let ?s = "\<lparr>fw_window_start = dur 1000000000, fw_reserved = 3, fw_spent = 0\<rparr> :: fw_state"
  have inv: "fw_inv ?s {#ex_last#}"
    by (simp add: ex_last_def ex_permit_def fw_inv_def fw_used_def weight_def cost_get_Cost)
  have w: "\<not> is_zero (dur 1000000000)" by (simp add: is_zero_def max_nanos_def)
  have "saturating_add (fw_window_start ?s) (dur 1000000000) \<le> now"
    using now by (simp add: from_secs_def less_eq_duration_def max_nanos_def nanos_per_sec_def)
  then obtain d where "fw_try_reserve dbg ?s 7 3 (dur 1000000000) (Cost 1) now = Some (?s, Inl d)"
    "retry_after (bd_deny d) = dur_zero"
    using held_permit_pins_window [OF inv _ w, of "Cost 1" 3 dbg 7 now] by (auto simp: weight_def cost_get_Cost fw_used_def)
  moreover from this(2) have "bd_deny d = \<lparr>retry_after = dur_zero\<rparr>" by (cases "bd_deny d") simp
  ultimately show "\<exists>rl. try_acquire dbg ex_dead 7 (Cost 1) now = Some (rl, Inl \<lparr>retry_after = dur_zero\<rparr>)"
    by (simp add: try_acquire_def global_wait_def effective_algorithm_def slow_start_pre_deny_def reserve_entry_def
        ensure_bucket_capacity_def resolve_bucket_key_def bucket_try_reserve_eq bucket_decide_def Let_def
        ex_dead_def ex_limiter_def ex_config_def ex_bucket_def)
qed

end
