(* ===== verification/Limiter_Profiles.thy ===== *)
theory Limiter_Profiles
  imports Limiter_Safety
begin

text \<open>
  Two ways in which the limiter cannot go wrong: every bucket is of the kind of the configured
  algorithm and every permit of the kind of its bucket, so that the arms of \<open>bucket.rs\<close> for a
  mismatch never run; and the build profile makes no difference to a run.
\<close>

section \<open>Typing\<close>

fun state_of_kind :: "algorithm_config \<Rightarrow> algo_state \<Rightarrow> bool" where
  "state_of_kind (CfgFixedWindow m w) (AlgoFixedWindow s) \<longleftrightarrow> True"
| "state_of_kind (CfgTokenBucket cap r) (AlgoTokenBucket s) \<longleftrightarrow> True"
| "state_of_kind _ _ \<longleftrightarrow> False"

fun meta_of_kind :: "algo_state \<Rightarrow> permit_meta \<Rightarrow> bool" where
  "meta_of_kind (AlgoFixedWindow s) (MetaFixedWindow ws) \<longleftrightarrow> ws = fw_window_start s"
| "meta_of_kind (AlgoTokenBucket s) MetaTokenBucket \<longleftrightarrow> True"
| "meta_of_kind _ _ \<longleftrightarrow> False"

definition well_typed :: "limiter \<Rightarrow> permit multiset \<Rightarrow> bool" where
  "well_typed rl ps \<longleftrightarrow>
     (\<forall>k b. fmlookup (l_buckets rl) k = Some b \<longrightarrow> state_of_kind (cfg_algorithm (l_cfg rl)) (algo b)) \<and>
     (\<forall>p \<in># ps. \<exists>b. fmlookup (l_buckets rl) (p_key p) = Some b \<and> meta_of_kind (algo b) (p_meta p))"

lemma bucket_inv_typed:
  assumes "bucket_inv a b ps"
  shows "state_of_kind a (algo b)" and "p \<in># ps \<Longrightarrow> meta_of_kind (algo b) (p_meta p)"
  using assms [unfolded bucket_inv_def] by (auto elim!: algo_inv_cases simp: fw_inv_def tb_inv_def)

lemma lim_inv_typed:
  assumes "lim_inv rl ps"
  shows "well_typed rl ps"
proof -
  have "\<exists>b. fmlookup (l_buckets rl) (p_key p) = Some b \<and> meta_of_kind (algo b) (p_meta p)" if "p \<in># ps" for p
    using lim_inv_held [OF assms that] bucket_inv_typed(2) [OF lim_inv_bucket [OF assms]] keyed_member [OF that]
    by blast
  then show ?thesis
    using bucket_inv_typed(1) [OF lim_inv_bucket [OF assms]] by (auto simp: well_typed_def algo_of_def)
qed

text \<open>C22: Every operation keeps the limiter well typed: through any calls and configuration updates each
  bucket stays of the kind of the algorithm that is configured, and each permit that is held of the
  kind of its key's bucket, with the window it was issued in still the bucket's. The arms for a
  mismatch, which guard against a bucket that an update forgot, are never reached.\<close>

theorem buckets_match_algorithm:
  assumes "reachable dbg rl ps" and "client_step dbg (rl, ps) (rl', ps')"
  shows "well_typed rl ps \<and> well_typed rl' ps'"
  using reachable_inv [OF assms(1)] reachable_inv [OF reachable.step [OF assms]] by (simp add: lim_inv_typed)

lemma buckets_match_algorithm_witness:
  "well_typed ex_limiter {#ex_permit#} \<and> meta_of_kind (algo ex_bucket) (p_meta ex_permit)"
proof -
  have "client_step True (limiter_new ex_config, {#}) (ex_limiter, {#ex_permit#})"
    using granted [OF _ ex_acquire, of "{#}"] by (simp add: few_permits_def)
  from buckets_match_algorithm [OF ex_reachable_new this] show ?thesis
    by (simp add: ex_bucket_def ex_permit_def)
qed

section \<open>Build profiles\<close>

text \<open>
  What a call returns in the profile with assertions and overflow checks it returns in the one
  without: each definition is below its release version, from the arithmetic up.
\<close>

named_theorems release

lemma release_bind:
  "Option.bind x f = Some r \<Longrightarrow> (\<And>y. x = Some y \<Longrightarrow> x' = Some y) \<Longrightarrow> (\<And>y. f y = Some r \<Longrightarrow> f' y = Some r) \<Longrightarrow>
    Option.bind x' f' = Some r"
  by (auto simp: bind_eq_Some_conv)

lemma checked_plus_release [release]: "checked_plus True a b = Some r \<Longrightarrow> checked_plus False a b = Some r"
  by (simp add: checked_plus_def split: if_splits)

lemma window_start_for_release [release]:
  "window_start_for True now w = Some r \<Longrightarrow> window_start_for False now w = Some r"
  by (cases "is_zero w") (simp_all add: window_start_for_def)

lemma fw_maybe_reset_window_release [release]:
  "fw_maybe_reset_window True s now w = Some r \<Longrightarrow> fw_maybe_reset_window False s now w = Some r"
  by (auto simp: fw_maybe_reset_window_def Let_def bind_eq_Some_conv split: if_splits dest: release)

lemma fw_try_reserve_release [release]:
  "fw_try_reserve True s k m w c now = Some r \<Longrightarrow> fw_try_reserve False s k m w c now = Some r"
  unfolding fw_try_reserve_def by (erule release_bind) (auto dest: release)

lemma tb_try_reserve_release [release]:
  "tb_try_reserve True s cap f c now = Some r \<Longrightarrow> tb_try_reserve False s cap f c now = Some r"
  by (auto simp: tb_try_reserve_def Let_def split: if_splits)

lemma token_try_reserve_release [release]:
  "token_try_reserve True s k cap f c now = Some r \<Longrightarrow> token_try_reserve False s k cap f c now = Some r"
  by (auto simp: token_try_reserve_def bind_eq_Some_conv split: if_splits dest: release)

lemma bucket_decide_release [release]:
  "bucket_decide True b k a c now = Some r \<Longrightarrow> bucket_decide False b k a c now = Some r"
  by (auto simp: bucket_decide_def bind_eq_Some_conv split: algo_state.splits algorithm_config.splits dest: release)

lemma bucket_try_reserve_release [release]:
  "bucket_try_reserve True b k a c now = Some r \<Longrightarrow> bucket_try_reserve False b k a c now = Some r"
  by (auto simp: bucket_try_reserve_def Let_def split: option.splits if_splits dest: release)

lemma bucket_new_release [release]: "bucket_new True now a = Some r \<Longrightarrow> bucket_new False now a = Some r"
  by (auto simp: bucket_new_def algo_new_def fw_new_def bind_eq_Some_conv split: algorithm_config.splits dest: release)

lemma reserve_entry_release [release]:
  "reserve_entry True rl bk a c now = Some r \<Longrightarrow> reserve_entry False rl bk a c now = Some r"
  by (auto simp: reserve_entry_def bind_eq_Some_conv split: option.splits dest: release)

lemma fw_finalize_release [release]:
  "fw_commit True s c ws out now w = Some r \<Longrightarrow> fw_commit False s c ws out now w = Some r"
  "fw_refund True s c ws now w = Some r \<Longrightarrow> fw_refund False s c ws now w = Some r"
  unfolding fw_commit_def fw_refund_def
  by (erule release_bind, auto dest: release)+

lemma tb_refund_release [release]:
  "tb_refund True s cap c now f = Some r \<Longrightarrow> tb_refund False s cap c now f = Some r"
  unfolding tb_refund_def Let_def by (erule release_bind) (auto dest: release)

lemma bucket_finalize_release [release]:
  "bucket_commit True b p out now a = Some r \<Longrightarrow> bucket_commit False b p out now a = Some r"
  "bucket_refund True b p now a = Some r \<Longrightarrow> bucket_refund False b p now a = Some r"
  by (auto simp: bucket_commit_def bucket_refund_def token_commit_def Let_def bind_eq_Some_conv
      split: algo_state.splits algorithm_config.splits permit_meta.splits outcome.splits dest: release)

lemma bucket_on_update_release [release]:
  "bucket_on_update True b old new now = Some r \<Longrightarrow> bucket_on_update False b old new now = Some r"
  by (auto simp: bucket_on_update_def algo_new_def fw_new_def Let_def bind_eq_Some_conv
      split: algo_state.splits algorithm_config.splits if_splits dest: release)

lemma fm_update_all_release:
  assumes "fm_update_all f m = Some m'" and "\<And>v r. f v = Some r \<Longrightarrow> f' v = Some r"
  shows "fm_update_all f' m = Some m'"
proof -
  have all: "\<forall>k |\<in>| fmdom m. f (the (fmlookup m k)) \<noteq> None" and m': "m' = fmmap (\<lambda>v. the (f v)) m"
    using assms(1) by (auto simp: fm_update_all_def split: if_splits)
  have same: "f' v = f v" if "fmlookup m k = Some v" for k v
    using all fmdomI [OF that] assms(2) that by fastforce
  then have "fmmap (\<lambda>v. the (f v)) m = fmmap (\<lambda>v. the (f' v)) m"
    by (intro fmap_ext) (simp split: option.split add: map_option_case)
  moreover have "\<forall>k |\<in>| fmdom m. f' (the (fmlookup m k)) \<noteq> None"
    using all same by (metis fmdomE option.sel)
  ultimately show ?thesis by (simp add: fm_update_all_def m')
qed

lemma bucket_mut_or_insert_release [release]:
  "bucket_mut_or_insert True rl rk bk now = Some r \<Longrightarrow> bucket_mut_or_insert False rl rk bk now = Some r"
  by (auto simp: bucket_mut_or_insert_def bind_eq_Some_conv split: if_splits prod.splits sum.splits option.splits dest: release)

lemma block_key_release [release]:
  "block_key True rl rk bk u now = Some r \<Longrightarrow> block_key False rl rk bk u now = Some r"
  unfolding block_key_def by (erule release_bind) (auto dest: release)

lemma release_profile:
  "try_acquire True rl k c now = Some r \<Longrightarrow> try_acquire False rl k c now = Some r"
  "commit True rl p out now = Some rl' \<Longrightarrow> commit False rl p out now = Some rl'"
  "refund True rl p now = Some rl' \<Longrightarrow> refund False rl p now = Some rl'"
  "apply_feedback True rl k fb now = Some rl' \<Longrightarrow> apply_feedback False rl k fb now = Some rl'"
  "update_config True rl cfg now = Some r' \<Longrightarrow> update_config False rl cfg now = Some r'"
  subgoal
    by (auto simp: try_acquire_def Let_def split: option.splits prod.splits sum.splits
        elim!: release_bind intro: release)
  subgoal by (auto simp: commit_def Let_def bind_eq_Some_conv split: option.splits dest: release)
  subgoal by (auto simp: refund_def bind_eq_Some_conv split: option.splits dest: release)
  subgoal
    by (auto simp: apply_feedback_def Let_def bind_eq_Some_conv split: prod.splits if_splits dest: release)
  subgoal
    by (auto simp: update_config_def update_config_unchecked_def Let_def bind_eq_Some_conv
        split: option.splits if_splits dest: fm_update_all_release [OF _ bucket_on_update_release])
  done

section \<open>Runs\<close>

lemma client_step_release: "client_step True x y \<Longrightarrow> client_step False x y"
  by (induction rule: client_step.induct) (auto intro: client_step.intros release_profile)

text \<open>An operation that returns in the profile with checks returns the same in the other.\<close>

lemma release_eq:
  assumes "\<And>r. f True = Some r \<Longrightarrow> f False = Some r"
  shows "f True \<noteq> None \<Longrightarrow> f False = f True" and "f True = None \<or> f False = f True"
  by (cases "f True"; simp add: assms)+

text \<open>C5: The two build profiles run alike but for one unchecked sum. Whatever a client can reach in the
  profile with assertions and overflow checks it reaches in the one without. From there
  \<open>try_acquire\<close>, \<open>apply_feedback\<close>, the update to every configuration the constructors build and the
  commit of every held permit with an outcome other than \<open>NotSent\<close> return the same answer and the same
  state in both: no assertion and no overflow check is relied on. So do a refund and the commit of
  \<open>NotSent\<close> on a fixed window and on a pool whose capacity is at most \<open>2^64 - 2^32\<close> (\<open>refund_safe\<close>);
  above that the build with checks either panics on the sum of credits and cost, where the other
  wraps around (\<open>refund_overflows\<close>), or returns the same.\<close>

theorem profiles_agree:
  assumes "reachable True rl ps"
  shows "reachable False rl ps \<and>
    try_acquire False rl k c now = try_acquire True rl k c now \<and>
    apply_feedback False rl k fb now = apply_feedback True rl k fb now \<and>
    (built cfg \<longrightarrow> update_config False rl cfg now = update_config True rl cfg now) \<and>
    (p \<in># ps \<and> (out \<noteq> NotSent \<or> refund_safe True (cfg_algorithm (l_cfg rl))) \<longrightarrow>
      commit False rl p out now = commit True rl p out now) \<and>
    (p \<in># ps \<and> refund_safe True (cfg_algorithm (l_cfg rl)) \<longrightarrow>
      refund False rl p now = refund True rl p now) \<and>
    (commit True rl p out now = None \<or> commit False rl p out now = commit True rl p out now) \<and>
    (refund True rl p now = None \<or> refund False rl p now = refund True rl p now)"
proof (intro conjI impI)
  show "reachable False rl ps" using assms
    by (induction rule: reachable.induct) (auto intro: reachable.intros client_step_release)
  have inv: "lim_inv rl ps" using assms by (rule reachable_inv)
  show "try_acquire False rl k c now = try_acquire True rl k c now"
    by (rule try_acquire_inv [OF inv, of True k c now]) (simp add: release_profile)
  show "apply_feedback False rl k fb now = apply_feedback True rl k fb now"
    by (rule apply_feedback_inv [OF inv, of True k fb now]) (simp add: release_profile)
  show "update_config False rl cfg now = update_config True rl cfg now" if "built cfg"
    by (rule update_config_inv [OF inv built_valid [OF that], of True now]) (simp_all add: release_profile)
  show "commit False rl p out now = commit True rl p out now"
    if "p \<in># ps \<and> (out \<noteq> NotSent \<or> refund_safe True (cfg_algorithm (l_cfg rl)))"
    using that release_profile(2)
    by (intro release_eq(1) [of "\<lambda>dbg. commit dbg rl p out now"] commit_total [OF inv])
       (auto simp: algo_of_def)
  show "refund False rl p now = refund True rl p now"
    if "p \<in># ps \<and> refund_safe True (cfg_algorithm (l_cfg rl))"
    using that release_profile(3)
    by (intro release_eq(1) [of "\<lambda>dbg. refund dbg rl p now"] refund_total [OF inv])
       (auto simp: algo_of_def)
  show "commit True rl p out now = None \<or> commit False rl p out now = commit True rl p out now"
    by (rule release_eq(2) [of "\<lambda>dbg. commit dbg rl p out now"]) (rule release_profile)
  show "refund True rl p now = None \<or> refund False rl p now = refund True rl p now"
    by (rule release_eq(2) [of "\<lambda>dbg. refund dbg rl p now"]) (rule release_profile)
qed

lemma profiles_agree_witness:
  "reachable False ex_limiter {#ex_permit#} \<and>
   commit False ex_limiter ex_permit Confirmed (from_secs 9) =
     commit True ex_limiter ex_permit Confirmed (from_secs 9) \<and>
   refund False ex_limiter ex_permit (from_secs 9) = refund True ex_limiter ex_permit (from_secs 9) \<and>
   update_config False ex_limiter ex_tokens (from_secs 9) = update_config True ex_limiter ex_tokens (from_secs 9)"
proof -
  have "refund_safe True (cfg_algorithm (l_cfg ex_limiter))" by (simp add: ex_limiter_def ex_config_def)
  then show ?thesis
    using profiles_agree [OF ex_reachable, where p = ex_permit and cfg = ex_tokens] ex_tokens_built by auto
qed

end
