(* ===== verification/Isolation.thy ===== *)
theory Isolation
  imports Limiter_Safety
begin

text \<open>
  One limiter serves many keys. Noninterference by purging: a run of calls is compared with the run
  in which the calls on other keys are left out.
\<close>

section \<open>Calls\<close>

datatype call =
    TryAcquire key cost duration
  | Commit permit outcome duration
  | Refund permit duration
  | ApplyFeedback key feedback duration

type_synonym answer = "(deny + permit) option"

fun perform :: "bool \<Rightarrow> limiter \<Rightarrow> call \<Rightarrow> (limiter \<times> answer) option" where
  "perform dbg rl (TryAcquire k c now) = map_option (map_prod id Some) (try_acquire dbg rl k c now)"
| "perform dbg rl (Commit p out now) = map_option (\<lambda>rl'. (rl', None)) (commit dbg rl p out now)"
| "perform dbg rl (Refund p now) = map_option (\<lambda>rl'. (rl', None)) (refund dbg rl p now)"
| "perform dbg rl (ApplyFeedback k fb now) = map_option (\<lambda>rl'. (rl', None)) (apply_feedback dbg rl k fb now)"

primrec run_calls :: "bool \<Rightarrow> limiter \<Rightarrow> call list \<Rightarrow> (limiter \<times> (call \<times> answer) list) option" where
  "run_calls dbg rl [] = Some (rl, [])"
| "run_calls dbg rl (x # xs) = do {
     (rl1, a) \<leftarrow> perform dbg rl x;
     (rl2, as) \<leftarrow> run_calls dbg rl1 xs;
     Some (rl2, (x, a) # as)
   }"

text \<open>The bucket a call is about, and the calls that concern no other.\<close>

fun call_key :: "limiter \<Rightarrow> call \<Rightarrow> key" where
  "call_key rl (TryAcquire k c now) = resolve_bucket_key rl k"
| "call_key rl (ApplyFeedback k fb now) = resolve_bucket_key rl k"
| "call_key rl (Commit p out now) = p_key p"
| "call_key rl (Refund p now) = p_key p"

fun local_call :: "call \<Rightarrow> bool" where
  "local_call (Commit p (RateLimitedFeedback ra ScopeGlobal r) now) \<longleftrightarrow> False"
| "local_call (ApplyFeedback k fb now) \<longleftrightarrow> fb_scope fb \<noteq> FbGlobal \<and> fb_bucket_remap fb = None"
| "local_call _ \<longleftrightarrow> True"

text \<open>Two limiters that a call on key \<open>j\<close> cannot tell apart: they may differ in every other bucket.\<close>

definition same_for :: "key \<Rightarrow> limiter \<Rightarrow> limiter \<Rightarrow> bool" where
  "same_for j rl s \<longleftrightarrow> l_cfg rl = l_cfg s \<and> l_started_at rl = l_started_at s \<and> l_route_map rl = l_route_map s \<and>
     l_global_blocked_until rl = l_global_blocked_until s \<and> fmlookup (l_buckets rl) j = fmlookup (l_buckets s) j"

lemma same_for_refl [simp]: "same_for j rl rl"
  by (simp add: same_for_def)

lemma same_for_notify [simp]:
  "same_for j (notify rl ev) s \<longleftrightarrow> same_for j rl s" "same_for j s (notify rl ev) \<longleftrightarrow> same_for j s rl"
  "same_for j (notify_deny rl k bk c now d r) s \<longleftrightarrow> same_for j rl s"
  "same_for j s (notify_deny rl k bk c now d r) \<longleftrightarrow> same_for j s rl"
  by (simp_all add: same_for_def notify_def notify_deny_def)

lemma same_for_reads:
  assumes "same_for j rl s"
  shows "resolve_bucket_key s k = resolve_bucket_key rl k" and "global_wait s now = global_wait rl now"
    and "effective_algorithm s now = effective_algorithm rl now"
    and "slow_start_pre_deny s c now a = slow_start_pre_deny rl c now a"
  by (simp_all only: resolve_bucket_key_def global_wait_def effective_algorithm_def slow_start_pre_deny_def
      assms [unfolded same_for_def])

text \<open>A key that is tracked, or for which the table has room, evicts nothing and is not refused.\<close>

definition admits :: "key \<Rightarrow> limiter \<Rightarrow> bool" where
  "admits bk rl \<longleftrightarrow> fmlookup (l_buckets rl) bk \<noteq> None \<or>
     (case cfg_max_keys (l_cfg rl) of None \<Rightarrow> True | Some n \<Rightarrow> fm_len (l_buckets rl) < n)"

lemma admits_capacity: "admits bk rl \<Longrightarrow> ensure_bucket_capacity rl rk bk c now = (rl, Inr ())"
  by (auto simp: admits_def ensure_bucket_capacity_def Let_def split: option.splits)

section \<open>Each operation\<close>

lemma reserve_entry_isolated:
  assumes "reserve_entry dbg rl bk a c now = Some (rl', res)"
  shows "j \<noteq> bk \<Longrightarrow> same_for j rl rl'"
    and "same_for bk rl s \<Longrightarrow> \<exists>s'. reserve_entry dbg s bk a c now = Some (s', res) \<and> same_for bk rl' s'"
  using assms by (auto simp: reserve_entry_def same_for_def bind_eq_Some_conv split: option.splits)

lemma try_acquire_isolated:
  assumes "try_acquire dbg rl k c now = Some (rl', res)" and u: "admits (resolve_bucket_key rl k) rl"
  defines "bk \<equiv> resolve_bucket_key rl k"
  shows "j \<noteq> bk \<Longrightarrow> same_for j rl rl'"
    and "same_for bk rl s \<Longrightarrow> admits bk s \<Longrightarrow> \<exists>s'. try_acquire dbg s k c now = Some (s', res) \<and> same_for bk rl' s'"
proof -
  let ?ea = "effective_algorithm rl now"
  show "same_for j rl rl'" if "j \<noteq> bk"
    using assms(1) by (cases rule: try_acquire_cases)
      (use that reserve_entry_isolated(1) in \<open>auto simp: admits_capacity [OF u] bk_def\<close>)
  assume s: "same_for bk rl s" and us: "admits bk s"
  note reads = same_for_reads [OF s] admits_capacity [OF us [unfolded bk_def]] admits_capacity [OF u]
  from assms(1) show "\<exists>s'. try_acquire dbg s k c now = Some (s', res) \<and> same_for bk rl' s'"
  proof (cases rule: try_acquire_cases)
    case (refused rl1 rl2 d)
    then have [simp]: "rl1 = rl" by (simp add: reads)
    from refused have "reserve_entry dbg rl bk ?ea c now = Some (rl2, Inl d)" by (simp add: reads bk_def)
    from reserve_entry_isolated(2) [OF this s] obtain s2
      where "reserve_entry dbg s bk ?ea c now = Some (s2, Inl d)" "same_for bk rl2 s2" by blast
    with refused show ?thesis by (auto simp: try_acquire_def reads Let_def bk_def)
  next
    case (permitted rl1 p)
    then have [simp]: "rl1 = rl" by (simp add: reads)
    from permitted have "reserve_entry dbg rl bk ?ea c now = Some (rl', Inr p)" by (simp add: reads bk_def)
    from reserve_entry_isolated(2) [OF this s] obtain s2
      where "reserve_entry dbg s bk ?ea c now = Some (s2, Inr p)" "same_for bk rl' s2" by blast
    with permitted show ?thesis by (auto simp: try_acquire_def reads Let_def bk_def)
  qed (use s in \<open>auto simp: try_acquire_def reads Let_def\<close>)
qed

lemma finalize_isolated:
  assumes "local_call (Commit p out now)"
  shows "commit dbg rl p out now = Some rl' \<Longrightarrow> j \<noteq> p_key p \<Longrightarrow> same_for j rl rl'"
    and "commit dbg rl p out now = Some rl' \<Longrightarrow> same_for (p_key p) rl s \<Longrightarrow>
      \<exists>s'. commit dbg s p out now = Some s' \<and> same_for (p_key p) rl' s'"
    and "refund dbg rl p now = Some rl' \<Longrightarrow> j \<noteq> p_key p \<Longrightarrow> same_for j rl rl'"
    and "refund dbg rl p now = Some rl' \<Longrightarrow> same_for (p_key p) rl s \<Longrightarrow>
      \<exists>s'. refund dbg s p now = Some s' \<and> same_for (p_key p) rl' s'"
proof -
  have o: "outcome_backoff r out now = r" for r
    using assms by (cases out) (auto simp: outcome_backoff_def split: outcome.splits scope.splits)
  show "commit dbg rl p out now = Some rl' \<Longrightarrow> j \<noteq> p_key p \<Longrightarrow> same_for j rl rl'"
    and "commit dbg rl p out now = Some rl' \<Longrightarrow> same_for (p_key p) rl s \<Longrightarrow>
      \<exists>s'. commit dbg s p out now = Some s' \<and> same_for (p_key p) rl' s'"
    and "refund dbg rl p now = Some rl' \<Longrightarrow> j \<noteq> p_key p \<Longrightarrow> same_for j rl rl'"
    and "refund dbg rl p now = Some rl' \<Longrightarrow> same_for (p_key p) rl s \<Longrightarrow>
      \<exists>s'. refund dbg s p now = Some s' \<and> same_for (p_key p) rl' s'"
    by (auto simp: commit_def refund_def o same_for_def bind_eq_Some_conv split: option.splits)
qed

lemma bucket_mut_or_insert_isolated:
  assumes "bucket_mut_or_insert dbg rl rk bk now = Some (rl', found)" and u: "admits bk rl"
  shows "found \<and> fmlookup (l_buckets rl') bk \<noteq> None"
    and "j \<noteq> bk \<Longrightarrow> same_for j rl rl'"
    and "same_for bk rl s \<Longrightarrow> admits bk s \<Longrightarrow> \<exists>s'. bucket_mut_or_insert dbg s rk bk now = Some (s', found) \<and> same_for bk rl' s'"
proof -
  show "found \<and> fmlookup (l_buckets rl') bk \<noteq> None" and "j \<noteq> bk \<Longrightarrow> same_for j rl rl'"
    using assms(1) by (auto simp: bucket_mut_or_insert_def admits_capacity [OF u] same_for_def bind_eq_Some_conv
        split: if_splits option.splits)
  assume s: "same_for bk rl s" and us: "admits bk s"
  show "\<exists>s'. bucket_mut_or_insert dbg s rk bk now = Some (s', found) \<and> same_for bk rl' s'"
  proof (cases "fmlookup (l_buckets rl) bk")
    case None
    with s assms(1) show ?thesis
      by (auto simp: bucket_mut_or_insert_def admits_capacity [OF u] admits_capacity [OF us] same_for_def
          bind_eq_Some_conv)
  qed (use s assms(1) in \<open>auto simp: bucket_mut_or_insert_def same_for_def\<close>)
qed

lemma block_key_isolated:
  assumes "block_key dbg rl rk bk u now = Some rl'" and u: "admits bk rl"
  shows "j \<noteq> bk \<Longrightarrow> same_for j rl rl'"
    and "same_for bk rl s \<Longrightarrow> admits bk s \<Longrightarrow> \<exists>s'. block_key dbg s rk bk u now = Some s' \<and> same_for bk rl' s'"
proof -
  obtain rl1 found where m: "bucket_mut_or_insert dbg rl rk bk now = Some (rl1, found)"
    using assms(1) by (auto simp: block_key_def bind_eq_Some_conv)
  note iso = bucket_mut_or_insert_isolated [OF m u]
  from iso(1) obtain b where b: "found" "fmlookup (l_buckets rl1) bk = Some b" by blast
  then have rl': "rl' = rl1\<lparr>l_buckets := fmupd bk (apply_blocked_until b u) (l_buckets rl1)\<rparr>"
    using assms(1) m by (simp add: block_key_def)
  show "j \<noteq> bk \<Longrightarrow> same_for j rl rl'" using iso(2) [of j] by (simp add: rl' same_for_def)
  assume "same_for bk rl s" "admits bk s"
  from iso(3) [OF this] obtain s1 where "bucket_mut_or_insert dbg s rk bk now = Some (s1, found)" "same_for bk rl1 s1"
    by blast
  moreover from this b(2) have "fmlookup (l_buckets s1) bk = Some b" by (simp add: same_for_def)
  ultimately show "\<exists>s'. block_key dbg s rk bk u now = Some s' \<and> same_for bk rl' s'"
    using b(1) by (simp add: block_key_def rl' same_for_def)
qed

lemma apply_feedback_local:
  "fb_scope fb \<noteq> FbGlobal \<Longrightarrow> fb_bucket_remap fb = None \<Longrightarrow>
    apply_feedback dbg rl k fb now = map_option (\<lambda>rl2. notify rl2 (OnFeedback
      \<lparr>fe_route_key = k, fe_bucket_key = resolve_bucket_key rl k, fe_now = now,
       fe_retry_after = feedback_backoff fb, fe_scope = fb_scope fb, fe_bucket_remap = None\<rparr>))
      (block_key dbg rl k (resolve_bucket_key rl k) (saturating_add now (feedback_backoff fb)) now)"
  by (simp add: apply_feedback_def feedback_remap_def Let_def map_conv_bind_option comp_def)

text \<open>A call leaves every other key as it was, and does to its own what it does wherever that key is alike.\<close>

lemma perform_isolated:
  assumes "perform dbg rl x = Some (rl', a)" and "admits (call_key rl x) rl" and "local_call x"
  shows "j \<noteq> call_key rl x \<Longrightarrow> same_for j rl rl'"
    and "same_for (call_key rl x) rl s \<Longrightarrow> admits (call_key rl x) s \<Longrightarrow>
      \<exists>s'. perform dbg s x = Some (s', a) \<and> same_for (call_key rl x) rl' s'"
proof -
  show "j \<noteq> call_key rl x \<Longrightarrow> same_for j rl rl'"
    using assms
    by (cases x)
       (auto simp: apply_feedback_local dest: try_acquire_isolated(1) finalize_isolated(1)
         finalize_isolated(3) [of _ Confirmed, rotated 1] block_key_isolated(1))
  assume s: "same_for (call_key rl x) rl s" and us: "admits (call_key rl x) s"
  show "\<exists>s'. perform dbg s x = Some (s', a) \<and> same_for (call_key rl x) rl' s'"
  proof (cases x)
    case (TryAcquire k c now)
    then obtain res where "try_acquire dbg rl k c now = Some (rl', res)" "a = Some res" using assms(1) by auto
    with try_acquire_isolated(2) [of dbg rl k c now rl' res s] assms(2) s us TryAcquire show ?thesis by fastforce
  next
    case (Commit p out now)
    with finalize_isolated(2) [of p out now dbg rl rl' s] assms s show ?thesis by fastforce
  next
    case (Refund p now)
    with finalize_isolated(4) [of p Confirmed now dbg rl rl' s] assms s show ?thesis by fastforce
  next
    case (ApplyFeedback k fb now)
    then have l: "fb_scope fb \<noteq> FbGlobal" "fb_bucket_remap fb = None" using assms(3) by simp_all
    then obtain rl2 ev where rl2: "block_key dbg rl k (resolve_bucket_key rl k)
        (saturating_add now (feedback_backoff fb)) now = Some rl2" "rl' = notify rl2 ev" "a = None"
      using assms(1) ApplyFeedback by (auto simp: apply_feedback_local)
    have s': "same_for (resolve_bucket_key rl k) rl s" using s ApplyFeedback by simp
    have ad: "admits (resolve_bucket_key rl k) rl" "admits (resolve_bucket_key rl k) s"
      using assms(2) us ApplyFeedback by simp_all
    show ?thesis
      using block_key_isolated(2) [OF rl2(1) ad(1) s' ad(2)] rl2(2,3) l same_for_reads(1) [OF s'] ApplyFeedback
      by (auto simp: apply_feedback_local)
  qed
qed

section \<open>Runs\<close>

lemma call_key_cong: "l_route_map s = l_route_map rl \<Longrightarrow> call_key s x = call_key rl x"
  by (cases x) (simp_all add: resolve_bucket_key_def)

text \<open>A table that never fills: there is room for all the keys that are tracked or will be.\<close>

definition fits :: "key set \<Rightarrow> limiter \<Rightarrow> bool" where
  "fits K rl \<longleftrightarrow> fset (fmdom (l_buckets rl)) \<subseteq> K \<and>
     (case cfg_max_keys (l_cfg rl) of None \<Rightarrow> True | Some n \<Rightarrow> card K \<le> n)"

lemma fits_admits:
  assumes "fits K rl" and "k \<in> K"
  shows "admits k rl"
proof (cases "fmlookup (l_buckets rl) k")
  case None
  then have "fset (fmdom (l_buckets rl)) \<subset> K" using assms by (auto simp: fits_def fmdom_notI)
  then have "fm_len (l_buckets rl) < card K"
    by (simp add: fm_len_def fcard.rep_eq psubset_card_mono)
  with assms(1) show ?thesis by (auto simp: fits_def admits_def split: option.splits)
qed (simp add: admits_def)

lemma perform_fits:
  assumes "perform dbg rl x = Some (rl', a)" and "fits K rl" and "call_key rl x \<in> K" and "local_call x"
  shows "fits K rl'" and "l_route_map rl' = l_route_map rl"
proof -
  have same: "same_for j rl rl'" if "j \<noteq> call_key rl x" for j
    using perform_isolated(1) [OF assms(1) fits_admits [OF assms(2,3)] assms(4) that] .
  have "call_key rl x + 1 \<noteq> call_key rl x" by simp
  from same [OF this] show "l_route_map rl' = l_route_map rl" by (simp add: same_for_def)
  have "j \<in> K" if "j |\<in>| fmdom (l_buckets rl')" for j
    using same [of j] that assms(2,3) by (cases "j = call_key rl x") (auto simp: same_for_def fits_def fmlookup_dom_iff)
  with same [OF \<open>call_key rl x + 1 \<noteq> call_key rl x\<close>] assms(2) show "fits K rl'"
    by (auto simp: fits_def same_for_def)
qed

lemma run_calls_isolated:
  assumes "run_calls dbg rl xs = Some (rl', as)" and "list_all local_call xs" and "same_for j rl s"
    and "fits K rl" and "fits K s" and "\<forall>x \<in> set xs. call_key rl x \<in> K"
  shows "\<exists>s'. run_calls dbg s (filter (\<lambda>x. call_key rl x = j) xs) =
      Some (s', filter (\<lambda>(x, a). call_key rl x = j) as) \<and> same_for j rl' s'"
  using assms
proof (induction xs arbitrary: rl s as)
  case Nil
  then show ?case by simp
next
  case (Cons x xs)
  obtain rl1 a as1 where x: "perform dbg rl x = Some (rl1, a)" and xs: "run_calls dbg rl1 xs = Some (rl', as1)"
    and as: "as = (x, a) # as1"
    using Cons.prems(1) by (auto simp: bind_eq_Some_conv)
  have loc: "local_call x" "list_all local_call xs" using Cons.prems(2) by simp_all
  have k: "call_key rl x \<in> K" using Cons.prems(6) by simp
  note iso = perform_isolated [OF x fits_admits [OF Cons.prems(4) k] loc(1)]
    and fr = perform_fits [OF x Cons.prems(4) k loc(1)]
  note key = call_key_cong [OF fr(2)]
  have ks: "\<forall>x \<in> set xs. call_key rl1 x \<in> K" using Cons.prems(6) by (simp add: key)
  show ?case
  proof (cases "call_key rl x = j")
    case True
    then obtain s1 where s1: "perform dbg s x = Some (s1, a)" "same_for j rl1 s1"
      using iso(2) [of s] Cons.prems(3) fits_admits [OF Cons.prems(5) k] by blast
    have "call_key s x = call_key rl x"
      using call_key_cong [of s rl x] Cons.prems(3) by (simp add: same_for_def)
    then have "fits K s1" using perform_fits(1) [OF s1(1) Cons.prems(5)] k loc(1) by simp
    with Cons.IH [OF xs loc(2) s1(2) fr(1) _ ks] True s1(1) as show ?thesis by (auto simp: key)
  next
    case False
    with iso(1) [of j] Cons.prems(3) have "same_for j rl1 s"
      by (auto simp: same_for_def)
    with Cons.IH [OF xs loc(2) _ fr(1) Cons.prems(5) ks] False as show ?thesis by (auto simp: key)
  qed
qed

text \<open>C26: Keys are isolated: when the table of keys does not fill, because it has no bound or because the keys
  that are tracked and those of the calls fit into it, and no call speaks for all keys (a global
  backoff, a remap), what happens on other keys cannot be seen on a key. Taking the calls on other
  keys out of any sequence leaves every answer on the key, and its bucket, as they were.\<close>

theorem keys_isolated:
  assumes "run_calls dbg rl xs = Some (rl', as)" and "list_all local_call xs"
    and "case cfg_max_keys (l_cfg rl) of None \<Rightarrow> True
      | Some n \<Rightarrow> card (fset (fmdom (l_buckets rl)) \<union> call_key rl ` set xs) \<le> n"
  shows "\<exists>s. run_calls dbg rl (filter (\<lambda>x. call_key rl x = j) xs) =
      Some (s, filter (\<lambda>(x, a). call_key rl x = j) as) \<and>
    fmlookup (l_buckets s) j = fmlookup (l_buckets rl') j"
proof -
  have f: "fits (fset (fmdom (l_buckets rl)) \<union> call_key rl ` set xs) rl" using assms(3) by (simp add: fits_def)
  from run_calls_isolated [OF assms(1,2) same_for_refl f f] show ?thesis by (fastforce simp: same_for_def)
qed

definition ex_calls :: "call list" where
  "ex_calls =
     [TryAcquire 7 (Cost 2) (from_secs 1), TryAcquire 8 (Cost 3) (from_secs 1),
      ApplyFeedback 8 (feedback_new (from_secs 60) FbKey) (from_secs 1),
      TryAcquire 7 (Cost 2) (from_secs 1)]"

lemmas ex_calls_eval = ex_calls_def ex_config_def eval_simps

lemma ex_calls_run: "\<exists>rl as. run_calls True (limiter_new ex_config) ex_calls = Some (rl, as)"
  by (simp add: ex_calls_eval)

lemma keys_isolated_witness:
  "\<exists>rl as s. run_calls True (limiter_new ex_config) ex_calls = Some (rl, as) \<and>
    run_calls True (limiter_new ex_config)
      [TryAcquire 7 (Cost 2) (from_secs 1), TryAcquire 7 (Cost 2) (from_secs 1)] =
      Some (s, filter (\<lambda>(x, a). call_key (limiter_new ex_config) x = 7) as)"
proof -
  obtain rl as where r: "run_calls True (limiter_new ex_config) ex_calls = Some (rl, as)"
    using ex_calls_run by blast
  have c: "list_all local_call ex_calls"
    "filter (\<lambda>x. call_key (limiter_new ex_config) x = 7) ex_calls =
      [TryAcquire 7 (Cost 2) (from_secs 1), TryAcquire 7 (Cost 2) (from_secs 1)]"
    by (simp_all add: ex_calls_eval)
  have "call_key (limiter_new ex_config) ` set ex_calls = {7, 8}" "fmdom (l_buckets (limiter_new ex_config)) = {||}"
    "cfg_max_keys (l_cfg (limiter_new ex_config)) = Some 2"
    by (auto simp: ex_calls_eval)
  then have "case cfg_max_keys (l_cfg (limiter_new ex_config)) of None \<Rightarrow> True
      | Some n \<Rightarrow> card (fset (fmdom (l_buckets (limiter_new ex_config))) \<union> call_key (limiter_new ex_config) ` set ex_calls) \<le> n"
    by simp
  from keys_isolated [OF r c(1) this, of 7] r c(2) show ?thesis by auto
qed

text \<open>When the table fills they are not: a key that is turned away when others fill the table is served alone.\<close>

lemma bounded_keys_interfere:
  "\<exists>rl rl' s p d. run_calls True (limiter_new (ex_config\<lparr>cfg_max_keys := Some 1, cfg_overflow_policy := DenyNewKey\<rparr>))
      [TryAcquire 7 (Cost 1) (from_secs 1), TryAcquire 8 (Cost 1) (from_secs 1)] =
      Some (rl, [(TryAcquire 7 (Cost 1) (from_secs 1), Some (Inr p)), (TryAcquire 8 (Cost 1) (from_secs 1), Some (Inl d))]) \<and>
    (\<exists>q. run_calls True (limiter_new (ex_config\<lparr>cfg_max_keys := Some 1, cfg_overflow_policy := DenyNewKey\<rparr>))
      [TryAcquire 8 (Cost 1) (from_secs 1)] = Some (s, [(TryAcquire 8 (Cost 1) (from_secs 1), Some (Inr q))]))"
  by (simp add: ex_config_def eval_simps)

end
