(* ===== verification/Open_Gate.thy ===== *)
theory Open_Gate
  imports Duration
begin

text \<open>
  The durable open gate (\<open>src/durable_open_gate.rs\<close>): at most one open is granted per window, and
  the lock survives restarts in an LMDB record. The file system, LMDB (\<open>heed\<close>) and the record
  format (\<open>rkyv\<close>) are other people's code: what each of their calls answers is an argument, so
  that every failure is a possible input, and the record format is a pair of functions.
\<close>

section \<open>Data\<close>

record gate_config =
  gc_window :: duration
  gc_lmdb_map_size_bytes :: nat
  gc_db_name :: string
  gc_record_key :: string
  gc_fail_closed :: bool

definition gate_config_default :: gate_config where
  "gate_config_default =
     \<lparr>gc_window = from_secs (30 * 60), gc_lmdb_map_size_bytes = 32 * 1024 * 1024,
      gc_db_name = ''open_gate'', gc_record_key = ''global_open_gate'', gc_fail_closed = True\<rparr>"

datatype open_gate_decision = Allowed (lock_until: duration) | Blocked (lock_until: duration)

record open_gate_stats =
  attempts_total :: u64
  allowed_total :: u64
  blocked_total :: u64
  persist_reads_total :: u64
  persist_writes_total :: u64
  persist_failures_total :: u64

definition stats_default :: open_gate_stats where
  "stats_default =
     \<lparr>attempts_total = 0, allowed_total = 0, blocked_total = 0, persist_reads_total = 0,
      persist_writes_total = 0, persist_failures_total = 0\<rparr>"

text \<open>Errors of the operating system: the one kind the gate tells apart, and any other.\<close>

datatype io_error = WouldBlock | OtherIo string

datatype 'h gate_error =
    InvalidConfig string
  | Io io_error
  | Heed 'h
  | EncodeError string
  | DecodeError string
  | AlreadyLocked
  | LockPoisoned

record open_gate_record =
  rec_version :: "16 word"
  rec_lock_until_ms :: u64
  rec_updated_at_ms :: u64
  rec_window_ms :: u64

type_synonym bytes = "8 word list"

text \<open>The two directions of the record format, each with its error message on failure.\<close>

type_synonym encoder = "open_gate_record \<Rightarrow> string + bytes"
type_synonym decoder = "bytes \<Rightarrow> string + open_gate_record"

text \<open>What is on disk: the records of the databases of the directory, by database and key.\<close>

type_synonym store = "string \<times> string \<Rightarrow> bytes option"

record durable_open_gate =
  g_cfg :: gate_config
  g_cached_lock_until_ms :: u64
  g_stats :: open_gate_stats

section \<open>What the libraries answer\<close>

text \<open>During \<open>open\<close>: the error of each call, if it fails.\<close>

record 'h open_io =
  oi_open_lock_file :: "io_error option"
  oi_try_lock_exclusive :: "io_error option"
  oi_create_dir_all :: "io_error option"
  oi_env_open :: "'h option"
  oi_write_txn :: "'h option"
  oi_create_database :: "'h option"
  oi_commit :: "'h option"
  oi_read_txn :: "'h option"
  oi_get :: "'h option"

text \<open>
  During one attempt. A commit that reports an error may have reached the disk or not;
  \<open>ai_persisted_anyway\<close> says which.
\<close>

record 'h attempt_io =
  ai_write_txn :: "'h option"
  ai_get :: "'h option"
  ai_put :: "'h option"
  ai_commit :: "'h option"
  ai_persisted_anyway :: bool

section \<open>Operations\<close>

definition duration_to_millis :: "duration \<Rightarrow> u64" where
  "duration_to_millis d = ucast (min (as_millis d) (ucast (- 1 :: u64)))"

definition millis_to_duration :: "u64 \<Rightarrow> duration" where
  "millis_to_duration ms = from_millis ms"

definition file_lock_acquire :: "'h open_io \<Rightarrow> io_error + unit" where
  "file_lock_acquire io =
     (case oi_open_lock_file io of
        Some e \<Rightarrow> Inl e
      | None \<Rightarrow> (case oi_try_lock_exclusive io of Some e \<Rightarrow> Inl e | None \<Rightarrow> Inr ()))"

text \<open>Reading the record in a transaction, read-only or not: \<open>fault\<close> is the error of \<open>get\<close>.\<close>

definition read_lock_until_ms ::
  "decoder \<Rightarrow> 'h option \<Rightarrow> durable_open_gate \<Rightarrow> store \<Rightarrow> 'h gate_error + u64" where
  "read_lock_until_ms dec fault g s =
     (case fault of
        Some e \<Rightarrow> Inl (Heed e)
      | None \<Rightarrow>
          (case s (gc_db_name (g_cfg g), gc_record_key (g_cfg g)) of
             None \<Rightarrow> Inr 0
           | Some raw \<Rightarrow>
               (case dec raw of
                  Inl msg \<Rightarrow> Inl (DecodeError msg)
                | Inr decoded \<Rightarrow> Inr (rec_lock_until_ms decoded))))"

definition count_reads :: "durable_open_gate \<Rightarrow> durable_open_gate" where
  "count_reads g = g\<lparr>g_stats := (g_stats g)\<lparr>persist_reads_total := sat_add (persist_reads_total (g_stats g)) 1\<rparr>\<rparr>"

definition count_failure :: "durable_open_gate \<Rightarrow> durable_open_gate" where
  "count_failure g =
     g\<lparr>g_stats := (g_stats g)\<lparr>persist_failures_total := sat_add (persist_failures_total (g_stats g)) 1\<rparr>\<rparr>"

definition count_blocked :: "durable_open_gate \<Rightarrow> durable_open_gate" where
  "count_blocked g = g\<lparr>g_stats := (g_stats g)\<lparr>blocked_total := sat_add (blocked_total (g_stats g)) 1\<rparr>\<rparr>"

definition count_allowed :: "durable_open_gate \<Rightarrow> durable_open_gate" where
  "count_allowed g = g\<lparr>g_stats := (g_stats g)\<lparr>allowed_total := sat_add (allowed_total (g_stats g)) 1\<rparr>\<rparr>"

definition count_write :: "durable_open_gate \<Rightarrow> durable_open_gate" where
  "count_write g =
     g\<lparr>g_stats := (g_stats g)\<lparr>persist_writes_total := sat_add (persist_writes_total (g_stats g)) 1\<rparr>\<rparr>"

definition count_attempt :: "durable_open_gate \<Rightarrow> durable_open_gate" where
  "count_attempt g = g\<lparr>g_stats := (g_stats g)\<lparr>attempts_total := sat_add (attempts_total (g_stats g)) 1\<rparr>\<rparr>"

definition load_lock_until_ms ::
  "decoder \<Rightarrow> 'h open_io \<Rightarrow> durable_open_gate \<Rightarrow> store \<Rightarrow> durable_open_gate \<times> ('h gate_error + u64)" where
  "load_lock_until_ms dec io g s =
     (case oi_read_txn io of
        Some e \<Rightarrow> (g, Inl (Heed e))
      | None \<Rightarrow> (let g1 = count_reads g in (g1, read_lock_until_ms dec (oi_get io) g1 s)))"

text \<open>The calls of \<open>open\<close> before the gate exists, in their order; creating the database that is
  already there, or an empty one, shows in no record.\<close>

definition open_environment :: "'h open_io \<Rightarrow> gate_config \<Rightarrow> 'h gate_error + unit" where
  "open_environment io cfg =
     (case file_lock_acquire io of
        Inl err \<Rightarrow> Inl (if err = WouldBlock then AlreadyLocked else Io err)
      | Inr _ \<Rightarrow>
          if is_zero (gc_window cfg) then Inl (InvalidConfig ''window must be non-zero'')
          else if gc_lmdb_map_size_bytes cfg < 1024 * 1024 then
            Inl (InvalidConfig ''lmdb_map_size_bytes must be at least 1 MiB'')
          else
            (case oi_create_dir_all io of
               Some e \<Rightarrow> Inl (Io e)
             | None \<Rightarrow>
                 (case List.find (\<lambda>x. x \<noteq> None)
                     [oi_env_open io, oi_write_txn io, oi_create_database io, oi_commit io] of
                    Some (Some e) \<Rightarrow> Inl (Heed e)
                  | _ \<Rightarrow> Inr ())))"

definition gate_open ::
  "decoder \<Rightarrow> 'h open_io \<Rightarrow> store \<Rightarrow> gate_config \<Rightarrow> 'h gate_error + durable_open_gate" where
  "gate_open dec io s cfg =
     (case open_environment io cfg of
        Inl err \<Rightarrow> Inl err
      | Inr _ \<Rightarrow>
          let gate = \<lparr>g_cfg = cfg, g_cached_lock_until_ms = 0, g_stats = stats_default\<rparr> in
          (case load_lock_until_ms dec io gate s of
             (gate, Inr value) \<Rightarrow> Inr (gate\<lparr>g_cached_lock_until_ms := value\<rparr>)
           | (gate, Inl err) \<Rightarrow>
               let gate = count_failure gate in
               if gc_fail_closed (g_cfg gate) then Inl err else Inr gate))"

definition gate_stats :: "durable_open_gate \<Rightarrow> open_gate_stats" where
  "gate_stats g = g_stats g"

definition persist_error_decision ::
  "durable_open_gate \<Rightarrow> 'h gate_error \<Rightarrow> u64 \<Rightarrow> durable_open_gate \<times> ('h gate_error + open_gate_decision)" where
  "persist_error_decision g err now_ms =
     (let g1 = count_failure g in
      if gc_fail_closed (g_cfg g1) then (g1, Inl err)
      else
        let lock_until_ms = sat_add now_ms (duration_to_millis (gc_window (g_cfg g1)));
            g2 = count_allowed (g1\<lparr>g_cached_lock_until_ms := lock_until_ms\<rparr>)
        in (g2, Inr (Allowed (millis_to_duration lock_until_ms))))"

text \<open>
  The part of an attempt that grants: encode, put, commit. The result is the gate, the store and
  the answer.
\<close>

definition persist_grant ::
  "encoder \<Rightarrow> 'h attempt_io \<Rightarrow> durable_open_gate \<Rightarrow> store \<Rightarrow> u64
    \<Rightarrow> durable_open_gate \<times> store \<times> ('h gate_error + open_gate_decision)" where
  "persist_grant enc io g s now_ms =
     (let window_ms = duration_to_millis (gc_window (g_cfg g));
          lock_until_ms = sat_add now_ms window_ms;
          rec = \<lparr>rec_version = 1, rec_lock_until_ms = lock_until_ms, rec_updated_at_ms = now_ms,
            rec_window_ms = window_ms\<rparr>;
          fail = (\<lambda>s err. let (g', r) = persist_error_decision g err now_ms in (g', s, r))
      in
      case enc rec of
        Inl msg \<Rightarrow> fail s (EncodeError msg)
      | Inr bytes \<Rightarrow>
          (case ai_put io of
             Some e \<Rightarrow> fail s (Heed e)
           | None \<Rightarrow>
               let s' = s((gc_db_name (g_cfg g), gc_record_key (g_cfg g)) \<mapsto> bytes) in
               (case ai_commit io of
                  Some e \<Rightarrow> fail (if ai_persisted_anyway io then s' else s) (Heed e)
                | None \<Rightarrow>
                    (count_allowed (count_write (count_reads (g\<lparr>g_cached_lock_until_ms := lock_until_ms\<rparr>))),
                     s', Inr (Allowed (millis_to_duration lock_until_ms))))))"

definition try_acquire_open ::
  "encoder \<Rightarrow> decoder \<Rightarrow> 'h attempt_io \<Rightarrow> durable_open_gate \<Rightarrow> store \<Rightarrow> duration
    \<Rightarrow> durable_open_gate \<times> store \<times> ('h gate_error + open_gate_decision)" where
  "try_acquire_open enc dec io g0 s now =
     (let g = count_attempt g0; now_ms = duration_to_millis now in
      if now_ms < g_cached_lock_until_ms g then
        (count_blocked g, s, Inr (Blocked (millis_to_duration (g_cached_lock_until_ms g))))
      else
        (case ai_write_txn io of
           Some e \<Rightarrow> (g, s, Inl (Heed e))
         | None \<Rightarrow>
             (case read_lock_until_ms dec (ai_get io) g s of
                Inl err \<Rightarrow> (let (g', r) = persist_error_decision g err now_ms in (g', s, r))
              | Inr persisted_lock_until \<Rightarrow>
                  let effective_lock_until = max (g_cached_lock_until_ms g) persisted_lock_until in
                  if now_ms < effective_lock_until then
                    (count_blocked (count_reads (g\<lparr>g_cached_lock_until_ms := effective_lock_until\<rparr>)), s,
                     Inr (Blocked (millis_to_duration effective_lock_until)))
                  else persist_grant enc io g s now_ms)))"

section \<open>The shared gate\<close>

text \<open>
  \<open>SharedDurableOpenGate\<close> is a gate behind a mutex that is never waited for. What the lock finds
  is an input: free, held by another thread, or poisoned by one that panicked.
\<close>

datatype try_lock_result = LockFree | LockHeld | LockIsPoisoned

definition try_acquire_open_fail_closed ::
  "try_lock_result \<Rightarrow> encoder \<Rightarrow> decoder \<Rightarrow> 'h attempt_io \<Rightarrow> durable_open_gate \<Rightarrow> store \<Rightarrow> duration
    \<Rightarrow> durable_open_gate \<times> store \<times> ('h gate_error + open_gate_decision)" where
  "try_acquire_open_fail_closed lk enc dec io g s now =
     (case lk of
        LockFree \<Rightarrow> try_acquire_open enc dec io g s now
      | LockHeld \<Rightarrow> (g, s, Inr (Blocked now))
      | LockIsPoisoned \<Rightarrow> (g, s, Inl LockPoisoned))"

definition shared_stats :: "try_lock_result \<Rightarrow> durable_open_gate \<Rightarrow> open_gate_stats option" where
  "shared_stats lk g = (if lk = LockFree then Some (gate_stats g) else None)"

lemmas count_defs =
  count_reads_def count_failure_def count_blocked_def count_allowed_def count_write_def count_attempt_def

lemmas open_gate_eval [eval_simps] =
  gate_config_default_def stats_default_def duration_to_millis_def millis_to_duration_def
  file_lock_acquire_def read_lock_until_ms_def count_defs load_lock_until_ms_def
  open_environment_def gate_open_def gate_stats_def persist_error_decision_def persist_grant_def
  try_acquire_open_def try_acquire_open_fail_closed_def shared_stats_def

end
