(* ===== verification/Messages.thy ===== *)
theory Messages
  imports Limiter Open_Gate
begin

text \<open>
  What the two error types print (\<open>Display\<close> of \<open>UpdateConfigError\<close> and of \<open>DurableOpenGateError\<close>).
  The texts of input and output errors and of LMDB's are the library's.
\<close>

definition update_config_error_display :: "update_config_error_kind \<Rightarrow> string" where
  "update_config_error_display kind =
     (case kind of
        AlgorithmChanged \<Rightarrow> ''update_config rejected: algorithm kind changed while permits were outstanding''
      | FixedWindowWindowChanged \<Rightarrow>
          ''update_config rejected: fixed-window window changed while permits were outstanding'')"

definition gate_error_display :: "(io_error \<Rightarrow> string) \<Rightarrow> ('h \<Rightarrow> string) \<Rightarrow> 'h gate_error \<Rightarrow> string" where
  "gate_error_display show_io show_heed e =
     (case e of
        InvalidConfig msg \<Rightarrow> ''invalid durable open gate config: '' @ msg
      | Io err \<Rightarrow> ''durable open gate I/O error: '' @ show_io err
      | Heed err \<Rightarrow> ''durable open gate LMDB error: '' @ show_heed err
      | EncodeError err \<Rightarrow> ''durable open gate encode error: '' @ err
      | DecodeError err \<Rightarrow> ''durable open gate decode error: '' @ err
      | AlreadyLocked \<Rightarrow> ''durable open gate already locked''
      | LockPoisoned \<Rightarrow> ''durable open gate lock poisoned'')"

text \<open>Whoever reads a message can tell which error it was, when the libraries' own messages can be told apart.\<close>

lemma update_config_error_display_inj: "inj update_config_error_display"
  by (rule injI) (simp add: update_config_error_display_def split: update_config_error_kind.splits)

lemma gate_error_display_inj:
  assumes "inj show_io" and "inj show_heed"
  shows "inj (gate_error_display show_io show_heed)"
  by (rule injI) (auto simp: gate_error_display_def dest: injD [OF assms(1)] injD [OF assms(2)] split: gate_error.splits)

end
