(* ===== verification/Server_Model.thy ===== *)
theory Server_Model
  imports Limiter
begin

text \<open>
  The deterministic server of \<open>tests/deterministic_server_model.rs\<close>, an independent implementation
  of both algorithms, and the test driver that runs a client limiter against it. The driver's
  panics and failed assertions are \<open>None\<close>.
\<close>

section \<open>Data\<close>

datatype server_decision = ServerOk | ServerRateLimited duration scope

datatype server_algo =
    SrvFixedWindow u32 duration
  | SrvTokenBucket u64 u64

record server_key_state =
  sk_window_start :: duration
  sk_spent :: u32
  sk_last_update :: duration
  sk_credits :: u64
  sk_blocked_until :: "duration option"

record deterministic_server =
  srv_algo :: server_algo
  srv_keys :: "(key, server_key_state) fmap"
  srv_global_blocked_until :: "duration option"

section \<open>Its arithmetic\<close>

definition srv_window_start_for :: "bool \<Rightarrow> duration \<Rightarrow> duration \<Rightarrow> duration option" where
  "srv_window_start_for dbg now window =
     do {
       debug_assert dbg (\<not> is_zero window);
       let w = as_nanos window;
       let n = as_nanos now;
       if w = 0 then None
       else
         let start = (n div w) * w;
             secs = ucast (start div 1000000000);
             nanos = ucast (start mod 1000000000)
         in Some (duration_new secs nanos)
     }"

definition srv_credits_added :: "duration \<Rightarrow> u64 \<Rightarrow> u64" where
  "srv_credits_added delta refill_per_sec =
     (if refill_per_sec = 0 then 0
      else
        let nanos = as_nanos delta;
            add = sat_mul nanos (ucast refill_per_sec) div 1000000000
        in ucast (min add (ucast (- 1 :: u64))))"

definition srv_retry_after_for_deficit :: "u64 \<Rightarrow> u64 \<Rightarrow> duration" where
  "srv_retry_after_for_deficit deficit refill_per_sec =
     (let num = sat_mul (ucast deficit :: u128) 1000000000;
          denom = ucast refill_per_sec;
          nanos = div_ceil num denom;
          secs = ucast (nanos div 1000000000);
          sub = ucast (nanos mod 1000000000)
      in duration_new secs sub)"

section \<open>The server\<close>

definition server_key_new :: "bool \<Rightarrow> duration \<Rightarrow> server_algo \<Rightarrow> server_key_state option" where
  "server_key_new dbg now a =
     (case a of
        SrvFixedWindow _ window \<Rightarrow> do {
          ws \<leftarrow> srv_window_start_for dbg now window;
          Some \<lparr>sk_window_start = ws, sk_spent = 0, sk_last_update = dur_zero, sk_credits = 0,
                sk_blocked_until = None\<rparr>
        }
      | SrvTokenBucket capacity _ \<Rightarrow>
          Some \<lparr>sk_window_start = dur_zero, sk_spent = 0, sk_last_update = now, sk_credits = capacity,
                sk_blocked_until = None\<rparr>)"

definition server_new :: "server_algo \<Rightarrow> deterministic_server" where
  "server_new a = \<lparr>srv_algo = a, srv_keys = fmempty, srv_global_blocked_until = None\<rparr>"

text \<open>The state of a key, made on first use. Its holder writes it back.\<close>

definition key_mut :: "bool \<Rightarrow> deterministic_server \<Rightarrow> key \<Rightarrow> duration \<Rightarrow> server_key_state option" where
  "key_mut dbg srv k now =
     (case fmlookup (srv_keys srv) k of
        Some st \<Rightarrow> Some st
      | None \<Rightarrow> server_key_new dbg now (srv_algo srv))"

definition put_key :: "deterministic_server \<Rightarrow> key \<Rightarrow> server_key_state \<Rightarrow> deterministic_server" where
  "put_key srv k st = srv\<lparr>srv_keys := fmupd k st (srv_keys srv)\<rparr>"

text \<open>Advancing the window and refilling the credits, as both operations do.\<close>

definition srv_advance ::
  "bool \<Rightarrow> server_key_state \<Rightarrow> duration \<Rightarrow> duration \<Rightarrow> server_key_state option" where
  "srv_advance dbg st window now =
     (let end_at = saturating_add (sk_window_start st) window in
      if end_at \<le> now then do {
        ws \<leftarrow> srv_window_start_for dbg now window;
        Some (st\<lparr>sk_window_start := ws, sk_spent := 0\<rparr>)
      }
      else Some st)"

definition srv_refill :: "server_key_state \<Rightarrow> u64 \<Rightarrow> u64 \<Rightarrow> duration \<Rightarrow> server_key_state" where
  "srv_refill st capacity refill_per_sec now =
     (if sk_last_update st < now then
        let delta = dur_minus now (sk_last_update st) in
        st\<lparr>sk_credits := min (sat_add (sk_credits st) (srv_credits_added delta refill_per_sec)) capacity,
           sk_last_update := now\<rparr>
      else st)"

definition decide_key ::
  "bool \<Rightarrow> server_algo \<Rightarrow> server_key_state \<Rightarrow> cost \<Rightarrow> duration
    \<Rightarrow> (server_key_state \<times> server_decision) option" where
  "decide_key dbg a st0 c now =
     (case a of
        SrvFixedWindow max_per_window window \<Rightarrow> do {
          st \<leftarrow> srv_advance dbg st0 window now;
          let want = cost_get c;
          if max_per_window < want then Some (st, ServerRateLimited dur_max ScopeKey)
          else if max_per_window < sat_add (sk_spent st) want then
            let end_at = saturating_add (sk_window_start st) window in
            Some (st, ServerRateLimited (saturating_sub end_at now) ScopeKey)
          else Some (st, ServerOk)
        }
      | SrvTokenBucket capacity refill_per_sec \<Rightarrow>
          let want = (ucast (cost_get c) :: u64) in
          if capacity < want then Some (st0, ServerRateLimited dur_max ScopeKey)
          else
            let st = srv_refill st0 capacity refill_per_sec now in
            if want \<le> sk_credits st then Some (st, ServerOk)
            else if refill_per_sec = 0 then Some (st, ServerRateLimited dur_max ScopeKey)
            else
              let deficit = want - sk_credits st in
              Some (st, ServerRateLimited (srv_retry_after_for_deficit deficit refill_per_sec) ScopeKey))"

text \<open>What is left of a block, if anything.\<close>

definition srv_wait :: "duration option \<Rightarrow> duration \<Rightarrow> duration option" where
  "srv_wait blocked now =
     (case blocked of
        Some until \<Rightarrow> if now < until then Some (dur_minus until now) else None
      | None \<Rightarrow> None)"

definition decide ::
  "bool \<Rightarrow> deterministic_server \<Rightarrow> key \<Rightarrow> cost \<Rightarrow> duration
    \<Rightarrow> (deterministic_server \<times> server_decision) option" where
  "decide dbg srv k c now =
     (case srv_wait (srv_global_blocked_until srv) now of
        Some ra \<Rightarrow> Some (srv, ServerRateLimited ra ScopeGlobal)
      | None \<Rightarrow> do {
          st \<leftarrow> key_mut dbg srv k now;
          (case srv_wait (sk_blocked_until st) now of
             Some ra \<Rightarrow> Some (put_key srv k st, ServerRateLimited ra ScopeKey)
           | None \<Rightarrow> do {
               (st', d) \<leftarrow> decide_key dbg (srv_algo srv) st c now;
               Some (put_key srv k st', d)
             })
        })"

definition catch_up :: "bool \<Rightarrow> server_algo \<Rightarrow> server_key_state \<Rightarrow> duration \<Rightarrow> server_key_state option" where
  "catch_up dbg a st now =
     (case a of
        SrvFixedWindow _ window \<Rightarrow> srv_advance dbg st window now
      | SrvTokenBucket capacity refill_per_sec \<Rightarrow> Some (srv_refill st capacity refill_per_sec now))"

definition spend :: "server_algo \<Rightarrow> server_key_state \<Rightarrow> cost \<Rightarrow> server_key_state" where
  "spend a st c =
     (case a of
        SrvFixedWindow _ _ \<Rightarrow> st\<lparr>sk_spent := sat_add (sk_spent st) (cost_get c)\<rparr>
      | SrvTokenBucket _ _ \<Rightarrow> st\<lparr>sk_credits := sat_sub (sk_credits st) (ucast (cost_get c))\<rparr>)"

definition later_block :: "duration option \<Rightarrow> duration \<Rightarrow> duration option" where
  "later_block blocked until = Some (case blocked of None \<Rightarrow> until | Some cur \<Rightarrow> max cur until)"

definition apply_outcome ::
  "bool \<Rightarrow> deterministic_server \<Rightarrow> key \<Rightarrow> cost \<Rightarrow> outcome \<Rightarrow> duration \<Rightarrow> deterministic_server option" where
  "apply_outcome dbg srv k c out now =
     do {
       st0 \<leftarrow> key_mut dbg srv k now;
       st \<leftarrow> catch_up dbg (srv_algo srv) st0 now;
       Some (case out of
          NotSent \<Rightarrow> put_key srv k st
        | Confirmed \<Rightarrow> put_key srv k (spend (srv_algo srv) st c)
        | SentNoConfirm \<Rightarrow> put_key srv k (spend (srv_algo srv) st c)
        | RateLimitedFeedback ra sc _ \<Rightarrow>
            let st1 = spend (srv_algo srv) st c; until = saturating_add now ra in
            (case sc of
               ScopeGlobal \<Rightarrow>
                 put_key (srv\<lparr>srv_global_blocked_until := later_block (srv_global_blocked_until srv) until\<rparr>) k st1
             | ScopeKey \<Rightarrow>
                 put_key srv k (st1\<lparr>sk_blocked_until := later_block (sk_blocked_until st1) until\<rparr>)))
     }"

section \<open>The driver\<close>

text \<open>One attempt of \<open>drive_trace\<close>: the server decides, the client tries, and the four cases.\<close>

definition drive_attempt ::
  "bool \<Rightarrow> key \<Rightarrow> limiter \<Rightarrow> deterministic_server \<Rightarrow> duration \<Rightarrow> cost \<Rightarrow> (limiter \<times> deterministic_server) option" where
  "drive_attempt dbg k client0 server0 now c =
     do {
       (server, decision) \<leftarrow> decide dbg server0 k c now;
       (client, res) \<leftarrow> try_acquire dbg client0 k c now;
       (case (res, decision) of
          (Inr p, ServerOk) \<Rightarrow> do {
            server' \<leftarrow> apply_outcome dbg server k c Confirmed now;
            client' \<leftarrow> commit dbg client p Confirmed now;
            Some (client', server')
          }
        | (Inr p, ServerRateLimited ra sc) \<Rightarrow> do {
            let out = RateLimitedFeedback ra sc None;
            server' \<leftarrow> apply_outcome dbg server k c out now;
            client' \<leftarrow> commit dbg client p out now;
            Some (client', server')
          }
        | (Inl deny, ServerRateLimited ra _) \<Rightarrow>
            if retry_after deny = ra then Some (client, server) else None
        | (Inl _, ServerOk) \<Rightarrow> None)
     }"

fun drive_trace ::
  "bool \<Rightarrow> limiter \<Rightarrow> deterministic_server \<Rightarrow> key \<Rightarrow> (duration \<times> cost) list
    \<Rightarrow> (limiter \<times> deterministic_server) option" where
  "drive_trace dbg client server k [] = Some (client, server)"
| "drive_trace dbg client server k ((now, c) # attempts) =
     do {
       (client', server') \<leftarrow> drive_attempt dbg k client server now c;
       drive_trace dbg client' server' k attempts
     }"

text \<open>
  One attempt of the test of slow start: only what the client grants is put to the server, which must
  accept it.
\<close>

definition send_if_granted ::
  "bool \<Rightarrow> key \<Rightarrow> duration \<Rightarrow> cost \<Rightarrow> limiter \<times> deterministic_server \<Rightarrow> (limiter \<times> deterministic_server) option" where
  "send_if_granted dbg k now c = (\<lambda>(client, server). do {
     (client, r) \<leftarrow> try_acquire dbg client k c now;
     (case r of
        Inr p \<Rightarrow> do {
          (server, sd) \<leftarrow> decide dbg server k c now;
          (if sd = ServerOk then do {
             server \<leftarrow> apply_outcome dbg server k c Confirmed now;
             client \<leftarrow> commit dbg client p Confirmed now;
             Some (client, server)
           } else None)
        }
      | Inl _ \<Rightarrow> Some (client, server))
   })"

fun send_trace ::
  "bool \<Rightarrow> key \<Rightarrow> (duration \<times> cost) list \<Rightarrow> limiter \<times> deterministic_server \<Rightarrow> (limiter \<times> deterministic_server) option" where
  "send_trace dbg k [] x = Some x"
| "send_trace dbg k ((now, c) # attempts) x = do { x \<leftarrow> send_if_granted dbg k now c x; send_trace dbg k attempts x }"

lemmas server_eval [eval_simps] =
  srv_window_start_for_def srv_credits_added_def srv_retry_after_for_deficit_def server_key_new_def
  server_new_def key_mut_def put_key_def srv_advance_def srv_refill_def decide_key_def srv_wait_def
  decide_def catch_up_def spend_def later_block_def apply_outcome_def drive_attempt_def
  send_if_granted_def

end
