(* ===== verification/Server_Properties.thy ===== *)
theory Server_Properties
  imports Server_Model
begin

text \<open>
  The client limiter against the independent server of the tests: with the same algorithm and
  limits the two agree at every attempt, on the decision and on the wait, for every sequence of
  attempts. The agreement of one key's states is a locale, interpreted for both algorithms.
\<close>

section \<open>Client and server in step\<close>

definition in_step ::
  "algorithm_config \<Rightarrow> server_algo \<Rightarrow> (bucket_state \<Rightarrow> server_key_state \<Rightarrow> bool) \<Rightarrow> key
    \<Rightarrow> limiter \<Rightarrow> deterministic_server \<Rightarrow> bool" where
  "in_step a sa rel k rl srv \<longleftrightarrow>
     cfg_algorithm (l_cfg rl) = a \<and> cfg_slow_start (l_cfg rl) = None \<and> cfg_max_keys (l_cfg rl) = None \<and>
     l_global_blocked_until rl = None \<and> fmlookup (l_route_map rl) k = None \<and>
     srv_algo srv = sa \<and> srv_global_blocked_until srv = None \<and>
     (case (fmlookup (l_buckets rl) k, fmlookup (srv_keys srv) k) of
        (None, None) \<Rightarrow> True
      | (Some b, Some st) \<Rightarrow> rel b st
      | _ \<Rightarrow> False)"

text \<open>The bucket an attempt works on, and what reserving in it does to the limiter.\<close>

definition bucket_for :: "bool \<Rightarrow> limiter \<Rightarrow> key \<Rightarrow> duration \<Rightarrow> bucket_state option" where
  "bucket_for dbg rl k now =
     (case fmlookup (l_buckets rl) k of Some b \<Rightarrow> Some b | None \<Rightarrow> bucket_new dbg now (cfg_algorithm (l_cfg rl)))"

lemma reserve_entry_at:
  assumes "bucket_for dbg rl k now = Some b" and "bucket_try_reserve dbg b k a c now = Some (b', res)"
  shows "\<exists>rl'. reserve_entry dbg rl k a c now = Some (rl', res) \<and> fmlookup (l_buckets rl') k = Some b' \<and>
    l_cfg rl' = l_cfg rl \<and> l_global_blocked_until rl' = l_global_blocked_until rl \<and> l_route_map rl' = l_route_map rl \<and>
    l_started_at rl' = l_started_at rl"
  using assms by (auto simp: bucket_for_def reserve_entry_def split: option.splits)

lemma try_acquire_plain:
  assumes "cfg_slow_start (l_cfg rl) = None" and "cfg_max_keys (l_cfg rl) = None"
    and "l_global_blocked_until rl = None" and "fmlookup (l_route_map rl) k = None"
    and "reserve_entry dbg rl k (cfg_algorithm (l_cfg rl)) c now = Some (rl', res)"
  shows "try_acquire dbg rl k c now = Some (case res of
      Inr p \<Rightarrow> (rl', Inr p)
    | Inl d \<Rightarrow> (notify_deny rl' k k c now (bd_deny d) (observed_reason (bd_reason d)), Inl (bd_deny d)))"
  using assms
  by (simp add: try_acquire_def global_wait_def effective_algorithm_def slow_start_pre_deny_def
      ensure_bucket_capacity_def resolve_bucket_key_def Let_def split: sum.split)

lemma notify_deny_fields [simp]:
  "l_cfg (notify_deny rl rk bk c now d why) = l_cfg rl"
  "l_buckets (notify_deny rl rk bk c now d why) = l_buckets rl"
  "l_route_map (notify_deny rl rk bk c now d why) = l_route_map rl"
  "l_global_blocked_until (notify_deny rl rk bk c now d why) = l_global_blocked_until rl"
  by (simp_all add: notify_deny_def notify_def)

text \<open>
  The agreement of a bucket and the server's state of its key, kept by every attempt: fresh states
  agree, and in states that agree client and server decide alike, on the wait too. \<open>ready\<close> is
  what the limits must satisfy and \<open>ok\<close> what a cost must.
\<close>

locale key_lockstep =
  fixes a :: algorithm_config and sa :: server_algo and ready :: bool and ok :: "cost \<Rightarrow> bool"
    and rel :: "bucket_state \<Rightarrow> server_key_state \<Rightarrow> bool" and dbg :: bool
  assumes fresh: "ready \<Longrightarrow> \<exists>b st. bucket_new dbg now a = Some b \<and> server_key_new dbg now sa = Some st \<and> rel b st"
    and unblocked: "rel b st \<Longrightarrow> sk_blocked_until st = None"
    and agree: "ready \<Longrightarrow> rel b st \<Longrightarrow> ok c \<Longrightarrow>
      (\<exists>b' st' d. bucket_try_reserve dbg b k a c now = Some (b', Inl d) \<and>
        decide_key dbg sa st c now = Some (st', ServerRateLimited (retry_after (bd_deny d)) ScopeKey) \<and> rel b' st') \<or>
      (\<exists>b' st' p b2 st2. bucket_try_reserve dbg b k a c now = Some (b', Inr p) \<and> p_key p = k \<and>
        decide_key dbg sa st c now = Some (st', ServerOk) \<and> sk_blocked_until st' = None \<and>
        bucket_commit dbg b' p Confirmed now a = Some b2 \<and>
        catch_up dbg sa st' now = Some st2 \<and> rel b2 (spend sa st2 c))"
begin

lemma current:
  assumes "in_step a sa rel k rl srv" and ready
  obtains b st where "bucket_for dbg rl k now = Some b" and "key_mut dbg srv k now = Some st" and "rel b st"
  using assms fresh [of now]
  by (auto simp: in_step_def bucket_for_def key_mut_def split: option.splits)

lemma attempt_in_step:
  assumes s: "in_step a sa rel k rl srv" and rd: ready and c: "ok c"
  shows "\<exists>rl' srv'. drive_attempt dbg k rl srv now c = Some (rl', srv') \<and> in_step a sa rel k rl' srv'"
proof -
  obtain b st where b: "bucket_for dbg rl k now = Some b" and st: "key_mut dbg srv k now = Some st"
    and r: "rel b st" using current [OF s rd] .
  have f: "cfg_algorithm (l_cfg rl) = a" "cfg_slow_start (l_cfg rl) = None" "cfg_max_keys (l_cfg rl) = None"
    "l_global_blocked_until rl = None" "fmlookup (l_route_map rl) k = None"
    "srv_algo srv = sa" "srv_global_blocked_until srv = None"
    using s by (simp_all add: in_step_def)
  have dec: "decide dbg srv k c now = Some (put_key srv k st', d)"
    if "decide_key dbg sa st c now = Some (st', d)" for st' d
    using that st f(6,7) unblocked [OF r] by (simp add: decide_def srv_wait_def)
  from agree [OF rd r c, where k = k and now = now] show ?thesis
  proof (elim disjE exE conjE)
    fix b' st' d
    assume t: "bucket_try_reserve dbg b k a c now = Some (b', Inl d)"
      and d: "decide_key dbg sa st c now = Some (st', ServerRateLimited (retry_after (bd_deny d)) ScopeKey)"
      and r': "rel b' st'"
    from reserve_entry_at [OF b t] obtain rl' where rl': "reserve_entry dbg rl k a c now = Some (rl', Inl d)"
      and frame: "fmlookup (l_buckets rl') k = Some b'" "l_cfg rl' = l_cfg rl"
        "l_global_blocked_until rl' = l_global_blocked_until rl" "l_route_map rl' = l_route_map rl" by blast
    have "try_acquire dbg rl k c now =
        Some (notify_deny rl' k k c now (bd_deny d) (observed_reason (bd_reason d)), Inl (bd_deny d))"
      using try_acquire_plain [OF f(2-5)] rl' f(1) by simp
    with dec [OF d] frame f r' show ?thesis by (simp add: drive_attempt_def in_step_def put_key_def)
  next
    fix b' st' p b2 st2
    assume t: "bucket_try_reserve dbg b k a c now = Some (b', Inr p)" and p: "p_key p = k"
      and d: "decide_key dbg sa st c now = Some (st', ServerOk)" "sk_blocked_until st' = None"
      and cm: "bucket_commit dbg b' p Confirmed now a = Some b2"
      and up: "catch_up dbg sa st' now = Some st2" and r': "rel b2 (spend sa st2 c)"
    from reserve_entry_at [OF b t] obtain rl' where rl': "reserve_entry dbg rl k a c now = Some (rl', Inr p)"
      and frame: "fmlookup (l_buckets rl') k = Some b'" "l_cfg rl' = l_cfg rl"
        "l_global_blocked_until rl' = l_global_blocked_until rl" "l_route_map rl' = l_route_map rl" by blast
    have t': "try_acquire dbg rl k c now = Some (rl', Inr p)"
      using try_acquire_plain [OF f(2-5)] rl' f(1) by simp
    have cm': "commit dbg rl' p Confirmed now = Some (rl'\<lparr>l_buckets := fmupd k b2 (l_buckets rl')\<rparr>)"
      using cm frame f(1) p by (simp add: commit_def outcome_backoff_def)
    have "apply_outcome dbg (put_key srv k st') k c Confirmed now =
        Some (put_key (put_key srv k st') k (spend sa st2 c))"
      using up f(6) by (simp add: apply_outcome_def key_mut_def put_key_def)
    with t' cm' dec [OF d(1)] frame f r' show ?thesis by (simp add: drive_attempt_def in_step_def put_key_def)
  qed
qed

lemma trace_in_step:
  "in_step a sa rel k rl srv \<Longrightarrow> ready \<Longrightarrow> \<forall>(now, c) \<in> set attempts. ok c \<Longrightarrow>
    \<exists>rl' srv'. drive_trace dbg rl srv k attempts = Some (rl', srv') \<and> in_step a sa rel k rl' srv'"
proof (induction attempts arbitrary: rl srv)
  case Nil
  then show ?case by simp
next
  case (Cons x attempts)
  obtain now c where x: "x = (now, c)" by fastforce
  with Cons.prems obtain rl1 srv1 where "drive_attempt dbg k rl srv now c = Some (rl1, srv1)"
    and "in_step a sa rel k rl1 srv1" using attempt_in_step [of k rl srv c now] by auto
  with Cons x show ?case by simp
qed

end

section \<open>The two algorithms\<close>

lemma srv_window_start_for [simp]: "srv_window_start_for = window_start_for"
  by (intro ext) (simp add: srv_window_start_for_def window_start_for_def)

lemma credits_added_0 [simp]: "credits_added delta 0 = 0"
  by (simp add: credits_added_def sat_mul_def min_def)

lemma srv_credits_added [simp]: "srv_credits_added delta r = credits_added delta r"
  using credits_added_0 [of delta]
  by (cases "r = 0") (simp_all add: srv_credits_added_def, simp add: credits_added_def)

lemma srv_retry_after_for_deficit [simp]: "srv_retry_after_for_deficit = retry_after_for_deficit"
  by (intro ext) (simp add: srv_retry_after_for_deficit_def retry_after_for_deficit_def)

definition window_rel :: "bucket_state \<Rightarrow> server_key_state \<Rightarrow> bool" where
  "window_rel b st \<longleftrightarrow> blocked_until b = None \<and> sk_blocked_until st = None \<and>
     algo b = AlgoFixedWindow \<lparr>fw_window_start = sk_window_start st, fw_reserved = 0, fw_spent = sk_spent st\<rparr>"

definition pool_rel :: "bucket_state \<Rightarrow> server_key_state \<Rightarrow> bool" where
  "pool_rel b st \<longleftrightarrow> blocked_until b = None \<and> sk_blocked_until st = None \<and>
     (\<exists>n. algo b = AlgoTokenBucket \<lparr>tb_last_update = sk_last_update st, tb_credits = sk_credits st, tb_in_flight = n\<rparr>)"

text \<open>Advancing is idempotent and does what the client's reset does.\<close>

lemma srv_advance_again:
  "srv_advance dbg st window now = Some st' \<Longrightarrow> srv_advance dbg st' window now = Some st'"
  by (auto simp: srv_advance_def Let_def bind_eq_Some_conv split: if_splits)

lemma srv_refill_again: "srv_refill (srv_refill st capacity r now) capacity r now = srv_refill st capacity r now"
  by (simp add: srv_refill_def Let_def)

lemma srv_advance_total:
  assumes "\<not> is_zero window"
  obtains st' where "srv_advance dbg st window now = Some st'" and "sk_blocked_until st' = sk_blocked_until st"
    and "fw_maybe_reset_window dbg
        \<lparr>fw_window_start = sk_window_start st, fw_reserved = 0, fw_spent = sk_spent st\<rparr> now window =
      Some \<lparr>fw_window_start = sk_window_start st', fw_reserved = 0, fw_spent = sk_spent st'\<rparr>"
proof -
  obtain ws where "window_start_for dbg now window = Some ws" using window_start_for_nanos [OF assms] .
  then have "srv_advance dbg st window now =
      Some (if saturating_add (sk_window_start st) window \<le> now then st\<lparr>sk_window_start := ws, sk_spent := 0\<rparr> else st)"
    and "fw_maybe_reset_window dbg
        \<lparr>fw_window_start = sk_window_start st, fw_reserved = 0, fw_spent = sk_spent st\<rparr> now window =
      Some (if saturating_add (sk_window_start st) window \<le> now
        then \<lparr>fw_window_start = ws, fw_reserved = 0, fw_spent = 0\<rparr>
        else \<lparr>fw_window_start = sk_window_start st, fw_reserved = 0, fw_spent = sk_spent st\<rparr>)"
    by (simp_all add: srv_advance_def fw_maybe_reset_window_def)
  then show ?thesis
    by (intro that [of "if saturating_add (sk_window_start st) window \<le> now
        then st\<lparr>sk_window_start := ws, sk_spent := 0\<rparr> else st"]) simp_all
qed

lemma refill_same:
  "tb_refill \<lparr>tb_last_update = sk_last_update st, tb_credits = sk_credits st, tb_in_flight = n\<rparr> capacity r now =
    \<lparr>tb_last_update = sk_last_update (srv_refill st capacity r now),
     tb_credits = sk_credits (srv_refill st capacity r now), tb_in_flight = n\<rparr>"
  if "capacity \<noteq> 0"
proof (cases "sk_last_update st < now")
  case True
  with that show ?thesis by (cases "r = 0") (simp_all add: tb_refill_def srv_refill_def Let_def not_le [symmetric])
next
  case False
  then have "now \<le> sk_last_update st" by simp
  with False show ?thesis by (simp add: tb_refill_def srv_refill_def del: not_less)
qed

text \<open>
  The server's test \<open>spent.saturating_add(want) > max\<close> and the client's
  \<open>want > max - (spent + reserved)\<close>, both saturating, agree below the largest limit.
\<close>

lemma limit_tests_agree:
  fixes m spent want :: "'w::len word"
  assumes "m \<noteq> - 1" and "want \<le> m" and "want \<noteq> 0"
  shows "sat_sub m spent < want \<longleftrightarrow> m < sat_add spent want"
proof -
  have "unat m < 2 ^ LENGTH('w) - 1"
    using assms(1) unat_le_max [of m] by (metis le_neq_implies_less unat_max_value word_unat_eq_iff)
  then show ?thesis
    using assms(2,3) unat_gt_0 [of want] by (auto simp: word_less_nat_alt word_le_nat_alt unat_sat_sub unat_sat_add)
qed

lemma fw_reserved_nonzero: "fw_reserved s \<noteq> 0 \<Longrightarrow> fw_maybe_reset_window dbg s now window = Some s"
  by (simp add: fw_maybe_reset_window_def)

lemma window_agree:
  assumes r: "window_rel b st" and w: "\<not> is_zero window" and m: "m \<noteq> 0" "m \<noteq> - 1"
  shows "(\<exists>b' st' d. bucket_try_reserve dbg b k (CfgFixedWindow m window) c now = Some (b', Inl d) \<and>
      decide_key dbg (SrvFixedWindow m window) st c now =
        Some (st', ServerRateLimited (retry_after (bd_deny d)) ScopeKey) \<and> window_rel b' st') \<or>
    (\<exists>b' st' p b2 st2. bucket_try_reserve dbg b k (CfgFixedWindow m window) c now = Some (b', Inr p) \<and> p_key p = k \<and>
      decide_key dbg (SrvFixedWindow m window) st c now = Some (st', ServerOk) \<and> sk_blocked_until st' = None \<and>
      bucket_commit dbg b' p Confirmed now (CfgFixedWindow m window) = Some b2 \<and>
      catch_up dbg (SrvFixedWindow m window) st' now = Some st2 \<and>
      window_rel b2 (spend (SrvFixedWindow m window) st2 c))"
proof -
  obtain st' where adv: "srv_advance dbg st window now = Some st'" "sk_blocked_until st' = sk_blocked_until st"
    and reset: "fw_maybe_reset_window dbg
        \<lparr>fw_window_start = sk_window_start st, fw_reserved = 0, fw_spent = sk_spent st\<rparr> now window =
      Some \<lparr>fw_window_start = sk_window_start st', fw_reserved = 0, fw_spent = sk_spent st'\<rparr>"
    using srv_advance_total [OF w] .
  have b: "blocked_until b = None" "sk_blocked_until st = None"
    "algo b = AlgoFixedWindow \<lparr>fw_window_start = sk_window_start st, fw_reserved = 0, fw_spent = sk_spent st\<rparr>"
    using r by (simp_all add: window_rel_def)
  have tests: "sat_sub m (sk_spent st') < cost_get c \<longleftrightarrow> m < sat_add (sk_spent st') (cost_get c)"
    if "\<not> m < cost_get c"
    using limit_tests_agree [OF m(2)] that by simp
  have sat: "sat_sub x x = 0" for x :: u32 by (simp add: sat_sub_def)
  show ?thesis
    using b adv reset m srv_advance_again [OF adv(1)]
    by (cases "m < cost_get c"; cases "m < sat_add (sk_spent st') (cost_get c)")
       (simp_all add: bucket_try_reserve_def clear_expired_block_def bucket_decide_def fw_try_reserve_def
          fw_retry_after_def decide_key_def window_rel_def bucket_commit_def fw_commit_def
          fw_reserved_nonzero catch_up_def spend_def Let_def tests sat del: not_less)
qed

lemma pool_agree:
  assumes r: "pool_rel b st" and c: "weight c \<le> unat capacity"
  shows "(\<exists>b' st' d. bucket_try_reserve dbg b k (CfgTokenBucket capacity r) c now = Some (b', Inl d) \<and>
      decide_key dbg (SrvTokenBucket capacity r) st c now =
        Some (st', ServerRateLimited (retry_after (bd_deny d)) ScopeKey) \<and> pool_rel b' st') \<or>
    (\<exists>b' st' p b2 st2. bucket_try_reserve dbg b k (CfgTokenBucket capacity r) c now = Some (b', Inr p) \<and> p_key p = k \<and>
      decide_key dbg (SrvTokenBucket capacity r) st c now = Some (st', ServerOk) \<and> sk_blocked_until st' = None \<and>
      bucket_commit dbg b' p Confirmed now (CfgTokenBucket capacity r) = Some b2 \<and>
      catch_up dbg (SrvTokenBucket capacity r) st' now = Some st2 \<and>
      pool_rel b2 (spend (SrvTokenBucket capacity r) st2 c))"
proof -
  let ?want = "ucast (cost_get c) :: u64" and ?st = "srv_refill st capacity r now"
  obtain n where b: "blocked_until b = None" "sk_blocked_until st = None"
    "algo b = AlgoTokenBucket \<lparr>tb_last_update = sk_last_update st, tb_credits = sk_credits st, tb_in_flight = n\<rparr>"
    using r by (auto simp: pool_rel_def)
  have want: "unat ?want = weight c" by (simp add: weight_def unat_ucast_wide)
  have "?want \<noteq> 0" using want by (metis unat_0 weight_nonzero)
  moreover have "?want \<le> capacity" using want c by (simp add: word_le_nat_alt)
  moreover have "capacity \<noteq> 0" using c by auto
  moreover have "sk_blocked_until ?st = None" using b(2) by (simp add: srv_refill_def Let_def)
  moreover have "sat_sub (sk_credits ?st) ?want = sk_credits ?st - ?want" if "?want \<le> sk_credits ?st"
    using that by (simp add: sat_sub_def)
  ultimately show ?thesis
    using b
    by (cases "?want \<le> sk_credits ?st"; cases "r = 0")
       (auto simp: bucket_try_reserve_def clear_expired_block_def bucket_decide_def token_try_reserve_def
          tb_try_reserve_def refill_same decide_key_def pool_rel_def bucket_commit_def token_commit_def tb_commit_def
          catch_up_def spend_def srv_refill_again Let_def not_less)
qed

interpretation window_lockstep: key_lockstep "CfgFixedWindow m window" "SrvFixedWindow m window"
  "\<not> is_zero window \<and> m \<noteq> 0 \<and> m \<noteq> - 1" "\<lambda>_. True" window_rel dbg for m window dbg
proof (unfold_locales, goal_cases)
  case (1 now)
  then obtain ws where "window_start_for dbg now window = Some ws" using window_start_for_nanos by blast
  then show ?case
    by (simp add: bucket_new_def algo_new_def fw_new_def server_key_new_def window_rel_def)
next
  case (3 b st c k now)
  then show ?case using window_agree by blast
qed (simp add: window_rel_def)

interpretation pool_lockstep: key_lockstep "CfgTokenBucket capacity r" "SrvTokenBucket capacity r"
  True "\<lambda>c. weight c \<le> unat capacity" pool_rel dbg for capacity r dbg
proof (unfold_locales, goal_cases)
  case (1 now)
  show ?case by (simp add: bucket_new_def algo_new_def tb_new_def server_key_new_def pool_rel_def)
next
  case (3 b st c k now)
  then show ?case using pool_agree by blast
qed (simp add: pool_rel_def)

section \<open>Whole traces\<close>

text \<open>C11: A fixed-window client and the independent server with the same window and limit agree on every trace:
  the driver runs through without a panic, that is, at every attempt both grant or both deny with
  the same wait, for any instants in any order and any costs, and both end in the same window
  with the same amount spent. The limit is neither zero nor the largest 32-bit value.\<close>

theorem fixed_window_matches_server:
  assumes "fixed_window m window = Inr cfg" and "m \<noteq> 0" and "m \<noteq> - 1"
  shows "\<exists>rl srv. drive_trace dbg (limiter_new cfg) (server_new (SrvFixedWindow m window)) k attempts = Some (rl, srv) \<and>
    in_step (CfgFixedWindow m window) (SrvFixedWindow m window) window_rel k rl srv"
proof (rule window_lockstep.trace_in_step)
  have cfg: "\<not> is_zero window" "cfg = \<lparr>cfg_algorithm = CfgFixedWindow m window, cfg_max_keys = None,
      cfg_overflow_policy = DenyNewKey, cfg_slow_start = None\<rparr>"
    using assms(1) by (auto simp: fixed_window_def fixed_window_bounded_def split: if_splits)
  show "in_step (CfgFixedWindow m window) (SrvFixedWindow m window) window_rel k (limiter_new cfg)
      (server_new (SrvFixedWindow m window))"
    by (simp add: in_step_def cfg limiter_new_def limiter_new_at_def server_new_def)
  show "\<not> is_zero window \<and> m \<noteq> 0 \<and> m \<noteq> - 1" using cfg(1) assms(2,3) by simp
qed simp

lemma fixed_window_matches_server_witness:
  "drive_trace True (limiter_new (projr (fixed_window 3 (from_secs 10)))) (server_new (SrvFixedWindow 3 (from_secs 10))) 42
    [(from_secs 0, Cost 1), (from_secs 0, Cost 2), (from_secs 9, Cost 1), (from_secs 10, Cost 1)] \<noteq> None"
proof -
  have "fixed_window 3 (from_secs 10) = Inr (projr (fixed_window 3 (from_secs 10)))"
    by (simp add: config_eval is_zero_def from_secs_def nanos_per_sec_def max_nanos_def)
  from fixed_window_matches_server [OF this] show ?thesis by fastforce
qed

text \<open>C12: A credit-pool client and the independent server with the same capacity and refill rate agree on every
  trace of costs the capacity can hold: the driver runs through without a panic, both grant or both
  deny with the same wait at every attempt, for any instants in any order, and both end with the
  same credits at the same time of refill.\<close>

theorem credit_pool_matches_server:
  assumes "\<forall>(now, c) \<in> set attempts. weight c \<le> unat capacity"
  shows "\<exists>rl srv. drive_trace dbg (limiter_new (token_bucket capacity r)) (server_new (SrvTokenBucket capacity r)) k attempts =
      Some (rl, srv) \<and>
    in_step (CfgTokenBucket capacity r) (SrvTokenBucket capacity r) pool_rel k rl srv"
  by (rule pool_lockstep.trace_in_step [OF _ _ assms])
     (simp_all add: in_step_def limiter_new_def limiter_new_at_def server_new_def token_bucket_def)

lemma credit_pool_matches_server_witness:
  "drive_trace True (limiter_new (token_bucket 10 10)) (server_new (SrvTokenBucket 10 10)) 7
    [(from_secs 0, Cost 10), (from_secs 0, Cost 1), (from_millis 99, Cost 1), (from_millis 100, Cost 1)] \<noteq> None"
proof -
  let ?xs = "[(from_secs 0, Cost 10), (from_secs 0, Cost 1), (from_millis 99, Cost 1), (from_millis 100, Cost 1)]"
  have ok: "\<forall>(now, c) \<in> set ?xs. weight c \<le> unat (10 :: u64)" by (simp add: eval_simps)
  obtain rl srv where "drive_trace True (limiter_new (token_bucket 10 10)) (server_new (SrvTokenBucket 10 10)) 7 ?xs =
      Some (rl, srv)"
    using credit_pool_matches_server [OF ok, of True 10 7] by blast
  then show ?thesis by (simp only: option.distinct not_False_eq_True option.simps)
qed

text \<open>
  For a cost above the capacity the client brings its pool up to date before it denies and the server
  does not; the client's rounding then loses what the server keeps. One credit per second, spent
  at 0; an attempt for 11 at half a second; at one second the server would grant and the client
  denies.
\<close>

lemma unachievable_cost_loses_credit:
  "drive_trace dbg (limiter_new (token_bucket 10 1)) (server_new (SrvTokenBucket 10 1)) 7
    [(from_secs 0, Cost 10), (dur 500000000, Cost 11), (from_secs 1, Cost 1)] = None"
  by (simp add: eval_simps)

end
