(* ===== verification/Clock.thy ===== *)
theory Clock
  imports Duration
begin

text \<open>
  The optional clocks of \<open>src/clock.rs\<close>, from which a client may take the instants it passes to the
  limiter. The trait \<open>Clock\<close> is a locale: what a clock shows does not decrease as it moves.
\<close>

section \<open>The manual clock\<close>

record manual_clock =
  clock_now :: duration

definition manual_clock_new :: "duration \<Rightarrow> manual_clock" where
  "manual_clock_new now = \<lparr>clock_now = now\<rparr>"

definition advance :: "manual_clock \<Rightarrow> duration \<Rightarrow> manual_clock" where
  "advance c delta = c\<lparr>clock_now := saturating_add (clock_now c) delta\<rparr>"

definition set_clock :: "manual_clock \<Rightarrow> duration \<Rightarrow> manual_clock" where
  "set_clock c now = c\<lparr>clock_now := now\<rparr>"

definition manual_now :: "manual_clock \<Rightarrow> duration" where
  "manual_now c = clock_now c"

section \<open>The system clock\<close>

text \<open>
  \<open>std::time::Instant\<close> is a reading of the operating system's monotonic counter, here its number of
  nanoseconds; the reading \<open>Instant::now()\<close> returns is an argument. \<open>elapsed\<close> is the difference of a
  second reading, and zero when that is not later.
\<close>

type_synonym instant = nat

definition elapsed :: "instant \<Rightarrow> instant \<Rightarrow> duration" where
  "elapsed start reading = dur (reading - start)"

record system_clock =
  sc_start :: instant

definition system_clock_new :: "instant \<Rightarrow> system_clock" where
  "system_clock_new reading = \<lparr>sc_start = reading\<rparr>"

definition system_clock_default :: "instant \<Rightarrow> system_clock" where
  "system_clock_default reading = system_clock_new reading"

definition system_now :: "system_clock \<Rightarrow> instant \<Rightarrow> duration" where
  "system_now c reading = elapsed (sc_start c) reading"

section \<open>What a clock promises\<close>

locale monotonic_clock =
  fixes show_time :: "'c \<Rightarrow> duration" and moves :: "'c \<Rightarrow> 'c \<Rightarrow> bool"
  assumes monotone: "moves c d \<Longrightarrow> show_time c \<le> show_time d"
begin

lemma runs_monotone: "moves\<^sup>*\<^sup>* c d \<Longrightarrow> show_time c \<le> show_time d"
  by (induction rule: rtranclp_induct) (auto dest: monotone)

text \<open>The instants a client reads off, with any moves in between, are in order.\<close>

lemma readings_sorted:
  assumes "successively (moves\<^sup>*\<^sup>*) cs"
  shows "sorted (map show_time cs)"
  using assms
proof (induction cs rule: induct_list012)
  case (3 c d cs)
  then have "show_time c \<le> show_time d" using runs_monotone by simp
  with 3 show ?case by (auto intro: order_trans)
qed simp_all

end

text \<open>A manual clock that is only advanced, and the system clock as the counter grows, are such clocks.\<close>

interpretation manual: monotonic_clock manual_now "\<lambda>c d. \<exists>delta. d = advance c delta"
  by standard (auto simp: manual_now_def advance_def less_eq_duration_def)

interpretation system: monotonic_clock "\<lambda>(c, reading). system_now c reading"
  "\<lambda>(c, r) (d, r'). c = d \<and> r \<le> r'"
  by standard (auto simp: system_now_def elapsed_def less_eq_duration_def intro: min.mono)

lemma advance_saturates:
  "nanos_of (manual_now (advance c delta)) = min (nanos_of (manual_now c) + nanos_of delta) max_nanos"
  by (simp add: advance_def manual_now_def)

text \<open>The system clock counts from its construction.\<close>

lemma system_clock_starts_at_zero [simp]: "system_now (system_clock_new r) r = dur_zero"
  by (simp add: system_now_def system_clock_new_def elapsed_def dur_zero_def)

text \<open>\<open>set\<close> can go back: it is no move of a monotonic clock.\<close>

lemma set_clock_goes_back: "manual_now (set_clock (manual_clock_new (dur 5)) (dur 3)) < manual_now (manual_clock_new (dur 5))"
  by (simp add: manual_now_def set_clock_def manual_clock_new_def less_duration_def max_nanos_def)

end
