(* ===== verification/Trailing_Client.thy ===== *)
theory Trailing_Client
  imports Server_Properties Limiter_Invariant Clock
begin

text \<open>
  The client against the server where they need not agree: a client in slow start, whose limits are
  scaled down for a while, or one whose credits were rounded away. It denies more than the server
  would, but never sends what the server refuses. The relation of one key's states, in which the
  client trails the server, is a locale, interpreted for both algorithms.
\<close>

section \<open>A client that trails the server\<close>

text \<open>The server's state of a key, made when it is first asked.\<close>

definition current_key :: "bool \<Rightarrow> server_algo \<Rightarrow> server_key_state option \<Rightarrow> duration \<Rightarrow> server_key_state option" where
  "current_key dbg sa s now = (case s of Some st \<Rightarrow> Some st | None \<Rightarrow> server_key_new dbg now sa)"

definition trails ::
  "algorithm_config \<Rightarrow> server_algo \<Rightarrow> (bucket_state \<Rightarrow> server_key_state option \<Rightarrow> duration \<Rightarrow> bool) \<Rightarrow> key \<Rightarrow> duration
    \<Rightarrow> limiter \<times> deterministic_server \<Rightarrow> bool" where
  "trails a sa rel k t = (\<lambda>(rl, srv).
     cfg_algorithm (l_cfg rl) = a \<and> cfg_max_keys (l_cfg rl) = None \<and>
     l_global_blocked_until rl = None \<and> fmlookup (l_route_map rl) k = None \<and>
     srv_algo srv = sa \<and> srv_global_blocked_until srv = None \<and>
     (case fmlookup (l_buckets rl) k of
        None \<Rightarrow> fmlookup (srv_keys srv) k = None
      | Some b \<Rightarrow> rel b (fmlookup (srv_keys srv) k) t))"

lemma try_acquire_ramped:
  assumes "cfg_max_keys (l_cfg rl) = None" and "l_global_blocked_until rl = None" and "fmlookup (l_route_map rl) k = None"
    and "reserve_entry dbg rl k (effective_algorithm rl now) c now = Some (rl', res)"
  shows "try_acquire dbg rl k c now = Some (case slow_start_pre_deny rl c now (effective_algorithm rl now) of
      Some d \<Rightarrow> (notify_deny rl k k c now d SlowStartDeny, Inl d)
    | None \<Rightarrow> (case res of
        Inr p \<Rightarrow> (rl', Inr p)
      | Inl d \<Rightarrow> (notify_deny rl' k k c now (bd_deny d) (observed_reason (bd_reason d)), Inl (bd_deny d))))"
  using assms
  by (simp add: try_acquire_def global_wait_def ensure_bucket_capacity_def resolve_bucket_key_def Let_def
      split: sum.split option.split)

text \<open>
  The relation of a bucket and what the server knows of its key at an instant: a fresh bucket has it, and
  a bucket that has it, reserving under limits scaled down, keeps it and grants only what the
  server accepts.
\<close>

locale key_trailing =
  fixes a :: algorithm_config and sa :: server_algo and ready :: bool
    and rel :: "bucket_state \<Rightarrow> server_key_state option \<Rightarrow> duration \<Rightarrow> bool" and dbg :: bool
  assumes fresh: "ready \<Longrightarrow> \<exists>b. bucket_new dbg now a = Some b \<and> rel b None now"
    and later: "rel b s t \<Longrightarrow> t \<le> now \<Longrightarrow> rel b s now"
    and send: "ready \<Longrightarrow> rel b s now \<Longrightarrow> scaled_from a e \<Longrightarrow>
      (\<exists>b' d. bucket_try_reserve dbg b k e c now = Some (b', Inl d) \<and> rel b' s now) \<or>
      (\<exists>b' p b2 st st' st2. bucket_try_reserve dbg b k e c now = Some (b', Inr p) \<and> p_key p = k \<and>
        current_key dbg sa s now = Some st \<and> sk_blocked_until st = None \<and>
        decide_key dbg sa st c now = Some (st', ServerOk) \<and>
        bucket_commit dbg b' p Confirmed now a = Some b2 \<and>
        catch_up dbg sa st' now = Some st2 \<and> rel b2 (Some (spend sa st2 c)) now)"
begin

lemma attempt_trails:
  assumes s: "trails a sa rel k t x" and rd: ready and le: "t \<le> now"
  shows "\<exists>x'. send_if_granted dbg k now c x = Some x' \<and> trails a sa rel k now x'"
proof -
  obtain rl srv where x: "x = (rl, srv)" by fastforce
  have f: "cfg_algorithm (l_cfg rl) = a" "cfg_max_keys (l_cfg rl) = None"
    "l_global_blocked_until rl = None" "fmlookup (l_route_map rl) k = None"
    "srv_algo srv = sa" "srv_global_blocked_until srv = None"
    using s by (simp_all add: trails_def x)
  let ?e = "effective_algorithm rl now" and ?s = "fmlookup (srv_keys srv) k"
  have sc: "scaled_from a ?e" using effective_algorithm_scaled [of rl now] f(1) by (simp add: algo_of_def)
  obtain b where b: "bucket_for dbg rl k now = Some b" and r: "rel b ?s now"
    using s fresh [OF rd, of now] later [OF _ le] by (auto simp: trails_def x bucket_for_def f(1) split: option.splits)
  have pre: "trails a sa rel k now (notify_deny rl k k c now d SlowStartDeny, srv)" for d
    using s later [OF _ le] by (auto simp: trails_def x split: option.splits)
  from send [OF rd r sc, where k = k and c = c] show ?thesis
  proof (elim disjE exE conjE)
    fix b' d
    assume t: "bucket_try_reserve dbg b k ?e c now = Some (b', Inl d)" and r': "rel b' ?s now"
    from reserve_entry_at [OF b t] obtain rl' where rl': "reserve_entry dbg rl k ?e c now = Some (rl', Inl d)"
      and frame: "fmlookup (l_buckets rl') k = Some b'" "l_cfg rl' = l_cfg rl"
        "l_global_blocked_until rl' = l_global_blocked_until rl" "l_route_map rl' = l_route_map rl" by blast
    show ?thesis
      using try_acquire_ramped [OF f(2-4) rl'] pre frame f r'
      by (cases "slow_start_pre_deny rl c now ?e") (simp_all add: x send_if_granted_def trails_def)
  next
    fix b' p b2 st st' st2
    assume t: "bucket_try_reserve dbg b k ?e c now = Some (b', Inr p)" and p: "p_key p = k"
      and st: "current_key dbg sa ?s now = Some st" "sk_blocked_until st = None"
      and d: "decide_key dbg sa st c now = Some (st', ServerOk)"
      and cm: "bucket_commit dbg b' p Confirmed now a = Some b2"
      and up: "catch_up dbg sa st' now = Some st2" and r': "rel b2 (Some (spend sa st2 c)) now"
    from reserve_entry_at [OF b t] obtain rl' where rl': "reserve_entry dbg rl k ?e c now = Some (rl', Inr p)"
      and frame: "fmlookup (l_buckets rl') k = Some b'" "l_cfg rl' = l_cfg rl"
        "l_global_blocked_until rl' = l_global_blocked_until rl" "l_route_map rl' = l_route_map rl" by blast
    have km: "key_mut dbg srv k now = Some st" using st(1) f(5) by (simp add: key_mut_def current_key_def split: option.splits)
    have dec: "decide dbg srv k c now = Some (put_key srv k st', ServerOk)"
      using d km st(2) f(5,6) by (simp add: decide_def srv_wait_def)
    have cm': "commit dbg rl' p Confirmed now = Some (rl'\<lparr>l_buckets := fmupd k b2 (l_buckets rl')\<rparr>)"
      using cm frame f(1) p by (simp add: commit_def outcome_backoff_def)
    have "apply_outcome dbg (put_key srv k st') k c Confirmed now =
        Some (put_key (put_key srv k st') k (spend sa st2 c))"
      using up f(5) by (simp add: apply_outcome_def key_mut_def put_key_def)
    with cm' dec frame f r' pre show ?thesis
      using try_acquire_ramped [OF f(2-4) rl']
      by (cases "slow_start_pre_deny rl c now ?e") (simp_all add: x send_if_granted_def trails_def put_key_def)
  qed
qed

lemma trace_trails:
  "trails a sa rel k t x \<Longrightarrow> ready \<Longrightarrow> sorted (map fst attempts) \<Longrightarrow> \<forall>(now, c) \<in> set attempts. t \<le> now \<Longrightarrow>
    \<exists>x' t'. send_trace dbg k attempts x = Some x' \<and> trails a sa rel k t' x'"
proof (induction attempts arbitrary: x t)
  case Nil
  then show ?case by auto
next
  case (Cons y attempts)
  obtain now c where y: "y = (now, c)" by fastforce
  with Cons.prems obtain x1 where x1: "send_if_granted dbg k now c x = Some x1" "trails a sa rel k now x1"
    using attempt_trails [of k t x now c] by auto
  have "\<forall>(later, c) \<in> set attempts. now \<le> later" using Cons.prems(3) y by auto
  with Cons.IH [OF x1(2)] Cons.prems(2,3) x1(1) y show ?case by simp
qed

end


section \<open>Fixed windows\<close>

text \<open>The server's state of a key with its window brought up to an instant.\<close>

definition window_now ::
  "bool \<Rightarrow> u32 \<Rightarrow> duration \<Rightarrow> server_key_state option \<Rightarrow> duration \<Rightarrow> server_key_state option" where
  "window_now dbg m window s now = do { st \<leftarrow> current_key dbg (SrvFixedWindow m window) s now; srv_advance dbg st window now }"

lemma srv_advance_eq:
  assumes "window_start_for dbg now window = Some ws"
  shows "srv_advance dbg st window now = Some (if saturating_add (sk_window_start st) window \<le> now
    then st\<lparr>sk_window_start := ws, sk_spent := 0\<rparr> else st)"
  using assms by (simp add: srv_advance_def)

text \<open>Within the window of an instant the window is the same.\<close>

lemma window_start_same:
  assumes "window_start_for dbg t window = Some ws" and "t \<le> now" and "\<not> saturating_add ws window \<le> now"
  shows "window_start_for dbg now window = Some ws"
proof -
  have nz: "\<not> is_zero window" using assms(1) window_start_for_zero by (metis option.discI)
  then have w: "0 < nanos_of window" by (simp add: is_zero_def)
  obtain ws' where ws': "window_start_for dbg now window = Some ws'"
    "nanos_of ws' = nanos_of now div nanos_of window * nanos_of window" using window_start_for_nanos [OF nz] .
  have ws: "nanos_of ws = nanos_of t div nanos_of window * nanos_of window"
    using window_start_for_nanos [OF nz, of dbg t] assms(1) by auto
  have "nanos_of now < nanos_of ws + nanos_of window"
    using assms(3) by (simp add: less_eq_duration_def not_le)
  moreover have "nanos_of ws \<le> nanos_of now"
    using assms(2) ws by (simp add: less_eq_duration_def) (meson div_times_less_eq_dividend order_trans)
  ultimately have "nanos_of now div nanos_of window = nanos_of t div nanos_of window"
    using w ws by (intro div_nat_eqI) (simp_all add: mult.commute)
  then have "nanos_of ws' = nanos_of ws" using ws ws'(2) by simp
  then have "ws' = ws" by (simp add: duration_eq_iff)
  with ws'(1) show ?thesis by simp
qed

text \<open>Bringing the window up to one instant and then to a later one is bringing it up to the later one.\<close>

lemma window_now_later:
  assumes w: "\<not> is_zero window" and le: "t \<le> now" and st: "window_now dbg m window s t = Some st"
  shows "window_now dbg m window s now = srv_advance dbg st window now"
proof -
  obtain ws where ws: "window_start_for dbg t window = Some ws" using window_start_for_nanos [OF w] .
  obtain ws' where ws': "window_start_for dbg now window = Some ws'" using window_start_for_nanos [OF w] .
  have same: "ws' = ws" if "\<not> saturating_add ws window \<le> now"
    using window_start_same [OF ws le that] ws' by simp
  show ?thesis
    using st le same
    by (cases s) (auto simp: window_now_def current_key_def server_key_new_def ws ws' srv_advance_eq [OF ws] srv_advance_eq [OF ws']
        split: if_splits)
qed


text \<open>
  The bucket is the server's window as it was brought up to date the last time, or as it would be at an
  instant gone by.
\<close>

definition window_trails ::
  "bool \<Rightarrow> u32 \<Rightarrow> duration \<Rightarrow> bucket_state \<Rightarrow> server_key_state option \<Rightarrow> duration \<Rightarrow> bool" where
  "window_trails dbg m window b s t \<longleftrightarrow>
     (\<exists>st. s = Some st \<and> window_rel b st) \<or> (\<exists>t' \<le> t. \<exists>st. window_now dbg m window s t' = Some st \<and> window_rel b st)"

lemma window_trails_now:
  assumes r: "window_trails dbg m window b s now" and w: "\<not> is_zero window"
  obtains st0 st st' where "current_key dbg (SrvFixedWindow m window) s now = Some st0" and "sk_blocked_until st0 = None"
    and "srv_advance dbg st0 window now = Some st'" and "window_rel b st"
    and "fw_maybe_reset_window dbg
        \<lparr>fw_window_start = sk_window_start st, fw_reserved = 0, fw_spent = sk_spent st\<rparr> now window =
      Some \<lparr>fw_window_start = sk_window_start st', fw_reserved = 0, fw_spent = sk_spent st'\<rparr>"
proof -
  obtain st where st: "window_rel b st" and n: "window_now dbg m window s now = srv_advance dbg st window now"
    using r window_now_later [OF w] by (auto simp: window_trails_def window_now_def current_key_def)
  obtain st' where adv: "srv_advance dbg st window now = Some st'" "sk_blocked_until st' = sk_blocked_until st"
    and reset: "fw_maybe_reset_window dbg
        \<lparr>fw_window_start = sk_window_start st, fw_reserved = 0, fw_spent = sk_spent st\<rparr> now window =
      Some \<lparr>fw_window_start = sk_window_start st', fw_reserved = 0, fw_spent = sk_spent st'\<rparr>"
    using srv_advance_total [OF w] .
  obtain st0 where st0: "current_key dbg (SrvFixedWindow m window) s now = Some st0" "srv_advance dbg st0 window now = Some st'"
    using n adv(1) by (auto simp: window_now_def bind_eq_Some_conv)
  have "sk_blocked_until st0 = sk_blocked_until st'"
    using srv_advance_total [OF w, of dbg st0 now] st0(2) by (metis option.inject)
  with st adv(2) have "sk_blocked_until st0 = None" by (simp add: window_rel_def)
  with st0 st reset show thesis by (rule_tac that)
qed

lemma fits_in_limit:
  fixes m e spent want :: "'w::len word"
  assumes "e \<le> m" and "\<not> e < want" and "\<not> sat_sub e spent < want" and "want \<noteq> 0"
  shows "\<not> m < want \<and> \<not> m < sat_add spent want"
  using assms unat_gt_0 [of want]
  by (auto simp: word_less_nat_alt word_le_nat_alt unat_sat_sub unat_sat_add not_less)

lemma window_send:
  assumes r: "window_trails dbg m window b s now" and w: "\<not> is_zero window" and sc: "scaled_from (CfgFixedWindow m window) e"
  shows "(\<exists>b' d. bucket_try_reserve dbg b k e c now = Some (b', Inl d) \<and> window_trails dbg m window b' s now) \<or>
    (\<exists>b' p b2 st st' st2. bucket_try_reserve dbg b k e c now = Some (b', Inr p) \<and> p_key p = k \<and>
      current_key dbg (SrvFixedWindow m window) s now = Some st \<and> sk_blocked_until st = None \<and>
      decide_key dbg (SrvFixedWindow m window) st c now = Some (st', ServerOk) \<and>
      bucket_commit dbg b' p Confirmed now (CfgFixedWindow m window) = Some b2 \<and>
      catch_up dbg (SrvFixedWindow m window) st' now = Some st2 \<and>
      window_trails dbg m window b2 (Some (spend (SrvFixedWindow m window) st2 c)) now)"
proof -
  obtain st0 st st' where st0: "current_key dbg (SrvFixedWindow m window) s now = Some st0" "sk_blocked_until st0 = None"
    and adv: "srv_advance dbg st0 window now = Some st'" and b: "window_rel b st"
    and reset: "fw_maybe_reset_window dbg
        \<lparr>fw_window_start = sk_window_start st, fw_reserved = 0, fw_spent = sk_spent st\<rparr> now window =
      Some \<lparr>fw_window_start = sk_window_start st', fw_reserved = 0, fw_spent = sk_spent st'\<rparr>"
    using window_trails_now [OF r w] .
  obtain m' where e: "e = CfgFixedWindow m' window" "m' \<le> m" using sc by (cases e) auto
  have b': "blocked_until b = None"
    "algo b = AlgoFixedWindow \<lparr>fw_window_start = sk_window_start st, fw_reserved = 0, fw_spent = sk_spent st\<rparr>"
    using b by (simp_all add: window_rel_def)
  have blocked: "sk_blocked_until st' = None"
    using srv_advance_total [OF w, of dbg st0 now] adv st0(2) by (metis option.inject)
  have now: "window_now dbg m window s now = Some st'" using st0(1) adv by (simp add: window_now_def)
  let ?grant = "m' \<noteq> 0 \<and> \<not> m' < cost_get c \<and> \<not> sat_sub m' (sk_spent st') < cost_get c"
  show ?thesis
  proof (cases ?grant)
    case False
    have "\<exists>d b1. bucket_try_reserve dbg b k e c now = Some (b1, Inl d) \<and> window_rel b1 st'"
      using False b' reset blocked
      by (auto simp: bucket_try_reserve_def clear_expired_block_def bucket_decide_def fw_try_reserve_def e window_rel_def
          Let_def)
    then show ?thesis using now by (auto simp: window_trails_def)
  next
    case True
    have fits: "\<not> m < cost_get c \<and> \<not> m < sat_add (sk_spent st') (cost_get c)"
      by (rule fits_in_limit [OF e(2)]) (use True in simp_all)
    have sat: "sat_sub x x = 0" for x :: u32 by (simp add: sat_sub_def)
    show ?thesis
      using True fits b' reset blocked st0 adv srv_advance_again [OF adv]
      by (intro disjI2)
         (simp add: bucket_try_reserve_def clear_expired_block_def bucket_decide_def fw_try_reserve_def e
          decide_key_def window_rel_def bucket_commit_def fw_commit_def fw_reserved_nonzero catch_up_def spend_def
          window_trails_def sat Let_def)
  qed
qed


section \<open>Credit pools\<close>

text \<open>
  The bucket holds no more credits than the capacity, and no more than the server's pool would if it were
  refilled at the bucket's last update.
\<close>

definition pool_trails ::
  "u64 \<Rightarrow> u64 \<Rightarrow> bucket_state \<Rightarrow> server_key_state option \<Rightarrow> duration \<Rightarrow> bool" where
  "pool_trails capacity r b s t \<longleftrightarrow> blocked_until b = None \<and>
     (\<exists>p. algo b = AlgoTokenBucket p \<and> tb_last_update p \<le> t \<and> tb_credits p \<le> capacity \<and>
       (case s of
          None \<Rightarrow> True
        | Some st \<Rightarrow> sk_blocked_until st = None \<and> sk_last_update st \<le> tb_last_update p \<and>
            unat (tb_credits p) \<le> unat (sk_credits st) +
              accrued (unat r) (nanos_of (tb_last_update p) - nanos_of (sk_last_update st))))"

lemma srv_refill_fields [simp]:
  "sk_blocked_until (srv_refill st capacity r now) = sk_blocked_until st"
  "sk_last_update (srv_refill st capacity r now) = max (sk_last_update st) now"
  by (auto simp: srv_refill_def Let_def max_def)

text \<open>Refilled at the same instant, at a rate and to a capacity that are no larger, the bucket stays behind.\<close>

lemma refill_trails:
  assumes r: "pool_trails capacity r b s now" and a: "algo b = AlgoTokenBucket p" and le: "cap' \<le> capacity" "r' \<le> r"
  shows "pool_trails capacity r (b\<lparr>algo := AlgoTokenBucket (tb_refill p cap' r' now)\<rparr>) s now"
proof (cases "now \<le> tb_last_update p")
  case True
  with r a show ?thesis by (simp add: tb_refill_same pool_trails_def)
next
  case False
  let ?d = "nanos_of now - nanos_of (tb_last_update p)"
  have lu: "tb_last_update p < now" using False by simp
  have credits: "unat (tb_credits (tb_refill p cap' r' now)) =
      min (unat (tb_credits p) + accrued (unat r') ?d) (unat cap')"
    using unat_tb_refill_credits [OF lu] .
  then have "tb_credits (tb_refill p cap' r' now) \<le> capacity" using le(1) by (simp add: word_le_nat_alt)
  moreover have "unat (tb_credits (tb_refill p cap' r' now)) \<le> unat (sk_credits st) +
      accrued (unat r) (nanos_of now - nanos_of (sk_last_update st))"
    if "s = Some st" for st
  proof -
    let ?e = "nanos_of (tb_last_update p) - nanos_of (sk_last_update st)"
    have st: "sk_last_update st \<le> tb_last_update p" "unat (tb_credits p) \<le> unat (sk_credits st) + accrued (unat r) ?e"
      using r a that by (simp_all add: pool_trails_def)
    have "accrued (unat r') ?d \<le> accrued (unat r) ?d" using le(2) by (intro accrued_mono_rate) (simp add: word_le_nat_alt)
    moreover have "?e + ?d = nanos_of now - nanos_of (sk_last_update st)"
      using st(1) lu by (simp add: less_eq_duration_def less_duration_def)
    then have "accrued (unat r) ?e + accrued (unat r) ?d \<le> accrued (unat r) (nanos_of now - nanos_of (sk_last_update st))"
      using accrued_superadditive [of "unat r" ?e ?d] by simp
    moreover have "unat (tb_credits (tb_refill p cap' r' now)) \<le> unat (tb_credits p) + accrued (unat r') ?d"
      using credits by simp
    ultimately show ?thesis using st(2) by linarith
  qed
  ultimately show ?thesis
    using r a lu by (auto simp: pool_trails_def max_def split: option.splits)
qed

text \<open>What the bucket then has, the server has.\<close>

lemma server_has_credits:
  assumes r: "pool_trails capacity r b s now" and a: "algo b = AlgoTokenBucket p" and n: "tb_last_update p = now"
    and st: "current_key dbg (SrvTokenBucket capacity r) s now = Some st"
  shows "sk_blocked_until st = None \<and> sk_last_update (srv_refill st capacity r now) = now \<and>
    tb_credits p \<le> sk_credits (srv_refill st capacity r now)"
proof (cases s)
  case None
  with r a st show ?thesis by (auto simp: pool_trails_def current_key_def server_key_new_def srv_refill_def)
next
  case (Some st0)
  then have st0: "st0 = st" using st by (simp add: current_key_def)
  have f: "sk_blocked_until st = None" "sk_last_update st \<le> now" "tb_credits p \<le> capacity"
    "unat (tb_credits p) \<le> unat (sk_credits st) + accrued (unat r) (nanos_of now - nanos_of (sk_last_update st))"
    using r a n Some st0 by (simp_all add: pool_trails_def)
  show ?thesis
  proof (cases "sk_last_update st < now")
    case False
    with f show ?thesis by (auto simp: srv_refill_def word_le_nat_alt)
  next
    case True
    have cap: "unat capacity \<le> 18446744073709551615" using unat_le_max [of capacity] by simp
    have "unat (sk_credits (srv_refill st capacity r now)) =
        min (unat (sk_credits st) + accrued (unat r) (nanos_of now - nanos_of (sk_last_update st))) (unat capacity)"
      using True cap by (auto simp: srv_refill_def Let_def unat_min unat_sat_add unat_credits_added)
    with f show ?thesis by (simp add: word_le_nat_alt)
  qed
qed

lemma pool_send:
  assumes r: "pool_trails capacity r b s now" and sc: "scaled_from (CfgTokenBucket capacity r) e"
  shows "(\<exists>b' d. bucket_try_reserve dbg b k e c now = Some (b', Inl d) \<and> pool_trails capacity r b' s now) \<or>
    (\<exists>b' p b2 st st' st2. bucket_try_reserve dbg b k e c now = Some (b', Inr p) \<and> p_key p = k \<and>
      current_key dbg (SrvTokenBucket capacity r) s now = Some st \<and> sk_blocked_until st = None \<and>
      decide_key dbg (SrvTokenBucket capacity r) st c now = Some (st', ServerOk) \<and>
      bucket_commit dbg b' p Confirmed now (CfgTokenBucket capacity r) = Some b2 \<and>
      catch_up dbg (SrvTokenBucket capacity r) st' now = Some st2 \<and>
      pool_trails capacity r b2 (Some (spend (SrvTokenBucket capacity r) st2 c)) now)"
proof -
  obtain cap' r' where e: "e = CfgTokenBucket cap' r'" "cap' \<le> capacity" "r' \<le> r" using sc by (cases e) auto
  obtain p where p: "algo b = AlgoTokenBucket p" "blocked_until b = None" "tb_last_update p \<le> now"
    using r by (auto simp: pool_trails_def)
  let ?want = "ucast (cost_get c) :: u64"
  let ?p = "tb_refill p cap' r' now"
  let ?b = "b\<lparr>algo := AlgoTokenBucket ?p\<rparr>"
  have want: "unat ?want = weight c" by (simp add: weight_def unat_ucast_wide)
  have nz: "?want \<noteq> 0" using want by (metis unat_0 weight_nonzero)
  have rb: "pool_trails capacity r ?b s now" using refill_trails [OF r p(1) e(2,3)] .
  have lu: "tb_last_update ?p = now" using p(3) by (simp add: max_def)
  show ?thesis
  proof (cases "cap' \<noteq> 0 \<and> ?want \<le> cap' \<and> ?want \<le> tb_credits ?p")
    case False
    then have "\<exists>d b'. bucket_try_reserve dbg b k e c now = Some (b', Inl d) \<and> (b' = b \<or> b' = ?b)"
      using p nz
      by (cases "cap' = 0"; cases "cap' < ?want")
         (auto simp: bucket_try_reserve_def clear_expired_block_def bucket_decide_def token_try_reserve_def
            tb_try_reserve_def e Let_def)
    then show ?thesis using r rb by blast
  next
    case True
    obtain st where st: "current_key dbg (SrvTokenBucket capacity r) s now = Some st"
      by (cases s) (auto simp: current_key_def server_key_new_def)
    note sv = server_has_credits [OF rb _ lu st]
    let ?st = "srv_refill st capacity r now"
    have ok: "?want \<le> sk_credits ?st" "\<not> capacity < ?want" using sv True e(2) by auto
    have dec: "decide_key dbg (SrvTokenBucket capacity r) st c now = Some (?st, ServerOk)"
      using ok by (simp add: decide_key_def Let_def)
    let ?q = "?p\<lparr>tb_credits := tb_credits ?p - ?want, tb_in_flight := sat_add (tb_in_flight p) ?want\<rparr>"
    let ?grant = "\<lparr>p_key = k, p_cost = c, p_window_start = dur_zero, p_issued_at = now, p_deadline = dur_zero,
      p_meta = MetaTokenBucket\<rparr>"
    have neg: "\<not> cap' < ?want" using True by (simp add: not_less)
    have "tb_try_reserve dbg p cap' r' c now = Some (?q, Inr ())"
      using True neg nz by (simp only: tb_try_reserve_def Let_def if_False if_True tb_refill_in_flight)
    then have t: "bucket_try_reserve dbg b k e c now = Some (b\<lparr>algo := AlgoTokenBucket ?q\<rparr>, Inr ?grant)"
      using p True by (simp add: bucket_try_reserve_def clear_expired_block_def bucket_decide_def token_try_reserve_def e)
    have cm: "bucket_commit dbg (b\<lparr>algo := AlgoTokenBucket ?q\<rparr>) ?grant Confirmed now (CfgTokenBucket capacity r) =
        Some (b\<lparr>algo := AlgoTokenBucket (tb_commit ?q c)\<rparr>)"
      using p(2) by (simp add: bucket_commit_def token_commit_def clear_expired_block_def)
    have "unat (tb_credits ?p - ?want) \<le> unat (sk_credits ?st - ?want)"
      using True ok(1) sv by (auto simp: unat_minus_fits word_le_nat_alt intro: diff_le_mono)
    moreover have "tb_credits ?p - ?want \<le> capacity"
      using True rb by (auto simp: pool_trails_def unat_minus_fits word_le_nat_alt)
    moreover have "sat_sub (sk_credits ?st) ?want = sk_credits ?st - ?want" using ok(1) by (simp add: sat_sub_def)
    ultimately have "pool_trails capacity r (b\<lparr>algo := AlgoTokenBucket (tb_commit ?q c)\<rparr>)
        (Some (spend (SrvTokenBucket capacity r) ?st c)) now"
      using p(2) lu sv by (simp add: pool_trails_def tb_commit_def spend_def)
    with t st sv dec cm show ?thesis
      by (intro disjI2) (auto simp: catch_up_def srv_refill_again)
  qed
qed


section \<open>Whole traces\<close>

interpretation window_trailing: key_trailing "CfgFixedWindow m window" "SrvFixedWindow m window"
  "\<not> is_zero window" "window_trails dbg m window" dbg for m window dbg
proof (unfold_locales, goal_cases)
  case (1 now)
  then obtain ws where ws: "window_start_for dbg now window = Some ws" using window_start_for_nanos by blast
  then show ?case
    by (auto simp: bucket_new_def algo_new_def fw_new_def window_trails_def window_now_def current_key_def
        server_key_new_def srv_advance_eq [OF ws] window_rel_def intro!: exI [of _ now])
next
  case (2 b s t now)
  then show ?case by (auto simp: window_trails_def intro: order_trans)
next
  case (3 b s now e k c)
  then show ?case using window_send by blast
qed

interpretation pool_trailing: key_trailing "CfgTokenBucket capacity r" "SrvTokenBucket capacity r"
  True "pool_trails capacity r" dbg for capacity r dbg
proof (unfold_locales, goal_cases)
  case (1 now)
  show ?case by (simp add: bucket_new_def algo_new_def tb_new_def pool_trails_def)
next
  case (2 b s t now)
  then show ?case by (auto simp: pool_trails_def intro: order_trans)
next
  case (3 b s now e k c)
  then show ?case using pool_send by blast
qed

lemma window_client_sends:
  assumes "fixed_window m window = Inr cfg" and "sorted (map fst attempts)"
  shows "\<exists>rl srv. send_trace dbg k attempts
    (limiter_new_at (cfg\<lparr>cfg_slow_start := ss\<rparr>) started, server_new (SrvFixedWindow m window)) = Some (rl, srv)"
proof -
  let ?x = "(limiter_new_at (cfg\<lparr>cfg_slow_start := ss\<rparr>) started, server_new (SrvFixedWindow m window))"
  have cfg: "\<not> is_zero window" "cfg = \<lparr>cfg_algorithm = CfgFixedWindow m window, cfg_max_keys = None,
      cfg_overflow_policy = DenyNewKey, cfg_slow_start = None\<rparr>"
    using assms(1) by (auto simp: fixed_window_def fixed_window_bounded_def split: if_splits)
  have "trails (CfgFixedWindow m window) (SrvFixedWindow m window) (window_trails dbg m window) k dur_zero ?x"
    by (simp add: trails_def cfg limiter_new_at_def server_new_def)
  then show ?thesis
    using window_trailing.trace_trails [of m window dbg k dur_zero ?x attempts] cfg(1) assms(2)
    by (auto simp: less_eq_duration_def dur_zero_def)
qed

text \<open>
  Instants read off the system clock are such a trace: whatever counter values the operating system
  returns, as long as they do not decrease.
\<close>

lemma clocked_client_never_oversends:
  assumes "fixed_window m window = Inr cfg" and "sorted (map fst calls)"
  shows "\<exists>rl srv. send_trace dbg k (map (\<lambda>(reading, c). (system_now clock reading, c)) calls)
    (limiter_new_at (cfg\<lparr>cfg_slow_start := ss\<rparr>) started, server_new (SrvFixedWindow m window)) = Some (rl, srv)"
proof (rule window_client_sends [OF assms(1)])
  have "sorted_wrt (\<lambda>r r'. ((\<lambda>(c, r) (d, r'). c = d \<and> r \<le> r')\<^sup>*\<^sup>*) (clock, r) (clock, r')) (map fst calls)"
    using assms(2) by (auto elim!: sorted_wrt_mono_rel [rotated])
  then have "successively ((\<lambda>(c, r) (d, r'). c = d \<and> r \<le> r')\<^sup>*\<^sup>*) (map (\<lambda>x. (clock, fst x)) calls)"
    by (simp add: sorted_wrt_map successively_map successively_if_sorted_wrt)
  from system.readings_sorted [OF this]
  show "sorted (map fst (map (\<lambda>(reading, c). (system_now clock reading, c)) calls))"
    by (simp add: comp_def case_prod_unfold)
qed

text \<open>C13: A client with a fixed window never oversends, whatever its slow start: it sends only what the
  independent server with the same window and limit accepts, on every trace whose instants do not
  go back, as the crate asks of its callers, for any costs, with any ramp or none, started at any time.\<close>

theorem window_client_never_oversends:
  assumes "fixed_window m window = Inr cfg" and "sorted (map fst attempts)"
  shows "\<exists>rl srv. send_trace dbg k attempts
    (limiter_new_at (cfg\<lparr>cfg_slow_start := ss\<rparr>) started, server_new (SrvFixedWindow m window)) = Some (rl, srv)"
  using assms by (rule window_client_sends)

text \<open>C14: A client with a credit pool never oversends either: whatever its slow start, it sends only what the
  independent server with the same capacity and refill rate accepts, on every trace whose instants
  do not go back, for any costs, those above the capacity among them: however much the client's
  rounding loses, it never has a credit the server has not.\<close>

theorem pool_client_never_oversends:
  assumes "sorted (map fst attempts)"
  shows "\<exists>rl srv. send_trace dbg k attempts
    (limiter_new_at ((token_bucket capacity r)\<lparr>cfg_slow_start := ss\<rparr>) started, server_new (SrvTokenBucket capacity r)) =
      Some (rl, srv)"
proof -
  let ?x = "(limiter_new_at ((token_bucket capacity r)\<lparr>cfg_slow_start := ss\<rparr>) started, server_new (SrvTokenBucket capacity r))"
  have "trails (CfgTokenBucket capacity r) (SrvTokenBucket capacity r) (pool_trails capacity r) k dur_zero ?x"
    by (simp add: trails_def token_bucket_def limiter_new_at_def server_new_def)
  then show ?thesis
    using pool_trailing.trace_trails [of capacity r k dur_zero ?x attempts dbg] assms
    by (auto simp: less_eq_duration_def dur_zero_def)
qed

text \<open>
  Time must not go back: a call the client denies at 10 moves its window on, and it then sends at 5
  again, in a window of which the server has seen the limit.
\<close>

lemma going_back_oversends:
  "send_trace dbg 7 [(from_secs 0, Cost 1), (from_secs 10, Cost 2), (from_secs 5, Cost 1)]
    (limiter_new (projr (fixed_window 1 (from_secs 10))), server_new (SrvFixedWindow 1 (from_secs 10))) = None"
  by (simp add: eval_simps)

lemma window_client_never_oversends_witness:
  "send_trace True 1 [(from_secs 0, Cost 1), (from_secs 5, Cost 4), (from_secs 6, Cost 9)]
    (limiter_new_at (with_slow_start (projr (fixed_window 10 (from_secs 10))) (slow_start_new (from_secs 10))) (from_secs 0),
     server_new (SrvFixedWindow 10 (from_secs 10))) \<noteq> None"
proof -
  let ?cfg = "projr (fixed_window 10 (from_secs 10))"
    and ?xs = "[(from_secs 0, Cost 1), (from_secs 5, Cost 4), (from_secs 6, Cost 9)]"
  have "fixed_window 10 (from_secs 10) = Inr ?cfg" by (simp add: eval_simps)
  moreover have "sorted (map fst ?xs)" by (simp add: eval_simps)
  ultimately obtain rl srv where "send_trace True 1 ?xs
      (limiter_new_at (?cfg\<lparr>cfg_slow_start := Some (slow_start_new (from_secs 10))\<rparr>) (from_secs 0),
       server_new (SrvFixedWindow 10 (from_secs 10))) = Some (rl, srv)"
    using window_client_never_oversends by blast
  then show ?thesis by (simp add: with_slow_start_def)
qed

lemma pool_client_never_oversends_witness:
  "send_trace True 1 [(from_secs 0, Cost 10), (dur 500000000, Cost 11), (from_secs 1, Cost 1)]
    (limiter_new (token_bucket 10 1), server_new (SrvTokenBucket 10 1)) \<noteq> None"
proof -
  let ?xs = "[(from_secs 0, Cost 10), (dur 500000000, Cost 11), (from_secs 1, Cost 1)]"
  have "sorted (map fst ?xs)" by (simp add: eval_simps)
  then obtain rl srv where "send_trace True 1 ?xs
      (limiter_new_at ((token_bucket 10 1)\<lparr>cfg_slow_start := None\<rparr>) dur_zero, server_new (SrvTokenBucket 10 1)) = Some (rl, srv)"
    using pool_client_never_oversends by blast
  then show ?thesis by (simp add: limiter_new_def token_bucket_def)
qed

end
