(* ===== verification/Optimistic_Client.thy ===== *)
theory Optimistic_Client
  imports Server_Properties
begin

text \<open>
  A client whose limit is above the server's: it learns from the refusals of the server of the
  tests, which it commits as feedback, and backs off until the server serves it again.
\<close>

section \<open>Client and server after the server has refused\<close>

definition optimistic_rel :: "duration \<Rightarrow> bucket_state \<Rightarrow> server_key_state \<Rightarrow> bool" where
  "optimistic_rel t b st \<longleftrightarrow>
     algo b = AlgoFixedWindow \<lparr>fw_window_start = sk_window_start st, fw_reserved = 0, fw_spent = sk_spent st\<rparr> \<and>
     (blocked_until b = sk_blocked_until st \<or> blocked_until b = None \<and> (\<exists>v \<le> t. sk_blocked_until st = Some v))"

lemma optimistic_rel_mono: "optimistic_rel t b st \<Longrightarrow> t \<le> now \<Longrightarrow> optimistic_rel now b st"
  by (auto simp: optimistic_rel_def intro: order_trans)

lemma srv_wait_None: "srv_wait u now = None \<longleftrightarrow> (\<forall>v. u = Some v \<longrightarrow> v \<le> now)"
  by (auto simp: srv_wait_def not_less split: option.splits if_splits)

text \<open>While the server blocks, the client does.\<close>

lemma optimistic_blocked:
  assumes "optimistic_rel t b st" and "t \<le> now" and "srv_wait (sk_blocked_until st) now = Some ra"
  shows "bucket_try_reserve dbg b k a c now =
    Some (b, Inl \<lparr>bd_deny = \<lparr>retry_after = ra\<rparr>, bd_reason = BlockedUntil\<rparr>)"
  using assms
  by (auto simp: optimistic_rel_def srv_wait_def bucket_try_reserve_eq split: option.splits if_splits)

text \<open>When it does not, the client with the higher limit denies only what the server refuses.\<close>

lemma optimistic_unblocked:
  assumes r: "optimistic_rel t b st" and le: "t \<le> now" and w: "\<not> is_zero window"
    and m: "ms \<le> mc" "ms \<noteq> - 1" and c: "cost_get c \<le> ms"
    and ub: "srv_wait (sk_blocked_until st) now = None"
  shows "(\<exists>b' st' d. bucket_try_reserve dbg b k (CfgFixedWindow mc window) c now = Some (b', Inl d) \<and>
      decide_key dbg (SrvFixedWindow ms window) st c now =
        Some (st', ServerRateLimited (retry_after (bd_deny d)) ScopeKey) \<and>
      optimistic_rel now b' st' \<and> sk_blocked_until st' = sk_blocked_until st) \<or>
    (\<exists>b' st' p b2 st2. bucket_try_reserve dbg b k (CfgFixedWindow mc window) c now = Some (b', Inr p) \<and> p_key p = k \<and>
      decide_key dbg (SrvFixedWindow ms window) st c now = Some (st', ServerOk) \<and>
      bucket_commit dbg b' p Confirmed now (CfgFixedWindow mc window) = Some b2 \<and>
      catch_up dbg (SrvFixedWindow ms window) st' now = Some st2 \<and>
      optimistic_rel now b2 (spend (SrvFixedWindow ms window) st2 c) \<and>
      sk_blocked_until st2 = sk_blocked_until st) \<or>
    (\<exists>b' st' p ra b2 st2. bucket_try_reserve dbg b k (CfgFixedWindow mc window) c now = Some (b', Inr p) \<and> p_key p = k \<and>
      decide_key dbg (SrvFixedWindow ms window) st c now = Some (st', ServerRateLimited ra ScopeKey) \<and>
      bucket_commit dbg b' p (RateLimitedFeedback ra ScopeKey None) now (CfgFixedWindow mc window) = Some b2 \<and>
      catch_up dbg (SrvFixedWindow ms window) st' now = Some st2 \<and>
      later_block (sk_blocked_until st2) (saturating_add now ra) = Some (saturating_add now ra) \<and>
      optimistic_rel now b2 ((spend (SrvFixedWindow ms window) st2 c)\<lparr>sk_blocked_until := Some (saturating_add now ra)\<rparr>) \<and>
      sk_blocked_until st2 = sk_blocked_until st)"
proof -
  obtain st' where adv: "srv_advance dbg st window now = Some st'" "sk_blocked_until st' = sk_blocked_until st"
    and reset: "fw_maybe_reset_window dbg
        \<lparr>fw_window_start = sk_window_start st, fw_reserved = 0, fw_spent = sk_spent st\<rparr> now window =
      Some \<lparr>fw_window_start = sk_window_start st', fw_reserved = 0, fw_spent = sk_spent st'\<rparr>"
    using srv_advance_total [OF w] .
  have un: "\<forall>v. sk_blocked_until st = Some v \<longrightarrow> v \<le> now" using ub by (simp add: srv_wait_None)
  have al: "algo b = AlgoFixedWindow \<lparr>fw_window_start = sk_window_start st, fw_reserved = 0, fw_spent = sk_spent st\<rparr>"
    using r by (simp add: optimistic_rel_def)
  have bl: "clear_expired_block b now = b\<lparr>blocked_until := None\<rparr>"
    using r un by (auto simp: optimistic_rel_def clear_expired_block_def split: option.splits)
  define b0 where "b0 = b\<lparr>blocked_until := None\<rparr>"
  have b0: "blocked_until b0 = None" "algo b0 = AlgoFixedWindow
      \<lparr>fw_window_start = sk_window_start st, fw_reserved = 0, fw_spent = sk_spent st\<rparr>"
    using al by (simp_all add: b0_def)
  have tr: "bucket_try_reserve dbg b k a c now = bucket_decide dbg b0 k a c now" for a
    by (simp add: bucket_try_reserve_def bl b0_def)
  have rel: "optimistic_rel now b' s" if "blocked_until b' = None" "algo b' = AlgoFixedWindow
      \<lparr>fw_window_start = sk_window_start s, fw_reserved = 0, fw_spent = sk_spent s\<rparr>"
      "sk_blocked_until s = sk_blocked_until st" for b' s
    using that un by (cases "sk_blocked_until st") (auto simp: optimistic_rel_def)
  have later: "later_block (sk_blocked_until st) (saturating_add now ra) = Some (saturating_add now ra)" for ra
  proof -
    have "now \<le> saturating_add now ra" by (simp add: less_eq_duration_def)
    then show ?thesis using un by (auto simp: later_block_def max_def split: option.splits dest: order_trans)
  qed
  have mc: "mc \<noteq> 0" "\<not> mc < cost_get c"
    using order_trans [OF c m(1)] cost_get_nonzero [of c] by auto
  have tests: "sat_sub mc (sk_spent st') < cost_get c \<Longrightarrow> ms < sat_add (sk_spent st') (cost_get c)"
  proof -
    assume "sat_sub mc (sk_spent st') < cost_get c"
    then have "sat_sub ms (sk_spent st') < cost_get c"
      using m(1) by (auto simp: word_less_nat_alt word_le_nat_alt unat_sat_sub)
    then show "ms < sat_add (sk_spent st') (cost_get c)" using limit_tests_agree [OF m(2) c] by simp
  qed
  have sat: "sat_sub x x = 0" for x :: u32 by (simp add: sat_sub_def)
  have mss: "\<not> ms < cost_get c" using c by simp
  show ?thesis
  proof (cases "sat_sub mc (sk_spent st') < cost_get c")
    case True
    with tests rel adv b0 reset mc mss show ?thesis
      by (intro disjI1)
        (simp add: tr bucket_decide_def fw_try_reserve_def fw_retry_after_def decide_key_def Let_def)
  next
    case False
    show ?thesis
    proof (cases "ms < sat_add (sk_spent st') (cost_get c)")
      case True
      with False show ?thesis
        using later adv b0 reset mc mss srv_advance_again [OF adv(1)]
        by (intro disjI2)
          (simp add: tr bucket_decide_def fw_try_reserve_def decide_key_def clear_expired_block_def bucket_commit_def
            fw_commit_def fw_reserved_nonzero catch_up_def spend_def Let_def sat apply_blocked_until_def optimistic_rel_def)
    next
      case ok: False
      with False show ?thesis
        using rel adv b0 reset mc mss srv_advance_again [OF adv(1)]
        by (intro disjI2 disjI1)
          (simp add: tr bucket_decide_def fw_try_reserve_def decide_key_def clear_expired_block_def bucket_commit_def
            fw_commit_def fw_reserved_nonzero catch_up_def spend_def Let_def sat)
    qed
  qed
qed

section \<open>Attempts\<close>

text \<open>What was sent and refused: the instant, and until when the server then blocks.\<close>

definition refused_send :: "bool \<Rightarrow> key \<Rightarrow> limiter \<Rightarrow> deterministic_server \<Rightarrow> duration \<Rightarrow> cost \<Rightarrow> (duration \<times> duration) list" where
  "refused_send dbg k client server now c =
     (case (try_acquire dbg client k c now, decide dbg server k c now) of
        (Some (_, Inr p), Some (_, ServerRateLimited ra _)) \<Rightarrow> [(now, saturating_add now ra)]
      | _ \<Rightarrow> [])"

text \<open>\<open>drive_trace\<close> with a record of them.\<close>

fun refusals ::
  "bool \<Rightarrow> limiter \<Rightarrow> deterministic_server \<Rightarrow> key \<Rightarrow> (duration \<times> cost) list \<Rightarrow> (duration \<times> duration) list option" where
  "refusals dbg client server k [] = Some []"
| "refusals dbg client server k ((now, c) # attempts) = do {
     (client', server') \<leftarrow> drive_attempt dbg k client server now c;
     rest \<leftarrow> refusals dbg client' server' k attempts;
     Some (refused_send dbg k client server now c @ rest)
   }"

lemma refusals_drive: "refusals dbg client server k attempts = None \<longleftrightarrow> drive_trace dbg client server k attempts = None"
  by (induction attempts arbitrary: client server) (auto simp: Option.bind_eq_None_conv split: prod.splits)

definition block_end :: "deterministic_server \<Rightarrow> key \<Rightarrow> duration" where
  "block_end srv k = (case fmlookup (srv_keys srv) k of
     Some st \<Rightarrow> (case sk_blocked_until st of Some v \<Rightarrow> v | None \<Rightarrow> dur_zero)
   | None \<Rightarrow> dur_zero)"

lemma optimistic_attempt:
  assumes s: "in_step (CfgFixedWindow mc window) (SrvFixedWindow ms window) (optimistic_rel t) k rl srv"
    and le: "t \<le> now" and w: "\<not> is_zero window" and m: "ms \<le> mc" "ms \<noteq> - 1" and c: "cost_get c \<le> ms"
  shows "\<exists>rl' srv'. drive_attempt dbg k rl srv now c = Some (rl', srv') \<and>
    in_step (CfgFixedWindow mc window) (SrvFixedWindow ms window) (optimistic_rel now) k rl' srv' \<and>
    block_end srv k \<le> block_end srv' k \<and>
    (\<forall>(t', u) \<in> set (refused_send dbg k rl srv now c). t' = now \<and> block_end srv k \<le> now \<and> u = block_end srv' k)"
proof -
  let ?a = "CfgFixedWindow mc window" and ?sa = "SrvFixedWindow ms window"
  have f: "cfg_algorithm (l_cfg rl) = ?a" "cfg_slow_start (l_cfg rl) = None" "cfg_max_keys (l_cfg rl) = None"
    "l_global_blocked_until rl = None" "fmlookup (l_route_map rl) k = None"
    "srv_algo srv = ?sa" "srv_global_blocked_until srv = None"
    using s by (simp_all add: in_step_def)
  obtain ws where ws: "window_start_for dbg now window = Some ws" using window_start_for_nanos [OF w] .
  obtain b st where b: "bucket_for dbg rl k now = Some b" and st: "key_mut dbg srv k now = Some st"
    and r: "optimistic_rel t b st"
    using s ws by (auto simp: in_step_def bucket_for_def key_mut_def bucket_new_def algo_new_def fw_new_def
        server_key_new_def optimistic_rel_def split: option.splits)
  have be: "block_end srv k = (case sk_blocked_until st of Some v \<Rightarrow> v | None \<Rightarrow> dur_zero)"
    using st f(6) ws by (auto simp: block_end_def key_mut_def server_key_new_def split: option.splits)
  have be_put: "block_end (put_key srv' k st') k = (case sk_blocked_until st' of Some v \<Rightarrow> v | None \<Rightarrow> dur_zero)"
    for srv' st' by (simp add: block_end_def put_key_def)
  have acquire: "\<exists>rl'. try_acquire dbg rl k c now = Some (rl', case res of Inr p \<Rightarrow> Inr p | Inl d \<Rightarrow> Inl (bd_deny d)) \<and>
      fmlookup (l_buckets rl') k = Some b' \<and> l_cfg rl' = l_cfg rl \<and>
      l_global_blocked_until rl' = None \<and> l_route_map rl' = l_route_map rl"
    if "bucket_try_reserve dbg b k ?a c now = Some (b', res)" for b' res
    using reserve_entry_at [OF b that] try_acquire_plain [OF f(2-5)] f(1,4) by (cases res) fastforce+
  show ?thesis
  proof (cases "srv_wait (sk_blocked_until st) now")
    case (Some ra)
    then have dec: "decide dbg srv k c now = Some (put_key srv k st, ServerRateLimited ra ScopeKey)"
      using st f(7) by (simp add: decide_def srv_wait_def)
    from acquire [OF optimistic_blocked [OF r le Some]] obtain rl' where
      "try_acquire dbg rl k c now = Some (rl', Inl \<lparr>retry_after = ra\<rparr>)" "fmlookup (l_buckets rl') k = Some b"
      "l_cfg rl' = l_cfg rl" "l_global_blocked_until rl' = None" "l_route_map rl' = l_route_map rl" by auto
    with dec f optimistic_rel_mono [OF r le] be be_put show ?thesis
      by (simp add: drive_attempt_def in_step_def put_key_def refused_send_def)
  next
    case None
    have dec: "decide dbg srv k c now = Some (put_key srv k st', d)"
      if "decide_key dbg ?sa st c now = Some (st', d)" for st' d
      using that st f(6,7) None by (simp add: decide_def srv_wait_def)
    from optimistic_unblocked [OF r le w m c None, where k = k and dbg = dbg] show ?thesis
    proof (elim disjE exE conjE)
      fix b' st' d
      assume t: "bucket_try_reserve dbg b k ?a c now = Some (b', Inl d)"
        and d: "decide_key dbg ?sa st c now = Some (st', ServerRateLimited (retry_after (bd_deny d)) ScopeKey)"
        and r': "optimistic_rel now b' st'" "sk_blocked_until st' = sk_blocked_until st"
      from acquire [OF t] dec [OF d] f r' be be_put show ?thesis
        by (auto simp: drive_attempt_def in_step_def put_key_def refused_send_def)
    next
      fix b' st' p b2 st2
      assume t: "bucket_try_reserve dbg b k ?a c now = Some (b', Inr p)" and p: "p_key p = k"
        and d: "decide_key dbg ?sa st c now = Some (st', ServerOk)"
        and cm: "bucket_commit dbg b' p Confirmed now ?a = Some b2" and up: "catch_up dbg ?sa st' now = Some st2"
        and r': "optimistic_rel now b2 (spend ?sa st2 c)" "sk_blocked_until st2 = sk_blocked_until st"
      have o: "apply_outcome dbg (put_key srv k st') k c Confirmed now = Some (put_key (put_key srv k st') k (spend ?sa st2 c))"
        using up f(6) by (simp add: apply_outcome_def key_mut_def put_key_def)
      have "sk_blocked_until (spend ?sa st2 c) = sk_blocked_until st" using r'(2) by (simp add: spend_def)
      with acquire [OF t] dec [OF d] cm p o f r'(1) be be_put show ?thesis
        by (auto simp: drive_attempt_def in_step_def put_key_def refused_send_def commit_def outcome_backoff_def)
    next
      fix b' st' p ra b2 st2
      assume t: "bucket_try_reserve dbg b k ?a c now = Some (b', Inr p)" and p: "p_key p = k"
        and d: "decide_key dbg ?sa st c now = Some (st', ServerRateLimited ra ScopeKey)"
        and cm: "bucket_commit dbg b' p (RateLimitedFeedback ra ScopeKey None) now ?a = Some b2"
        and up: "catch_up dbg ?sa st' now = Some st2"
        and l: "later_block (sk_blocked_until st2) (saturating_add now ra) = Some (saturating_add now ra)"
        and r': "optimistic_rel now b2 ((spend ?sa st2 c)\<lparr>sk_blocked_until := Some (saturating_add now ra)\<rparr>)"
          "sk_blocked_until st2 = sk_blocked_until st"
      have o: "apply_outcome dbg (put_key srv k st') k c (RateLimitedFeedback ra ScopeKey None) now =
          Some (put_key (put_key srv k st') k ((spend ?sa st2 c)\<lparr>sk_blocked_until := Some (saturating_add now ra)\<rparr>))"
        using up f(6) l by (simp add: apply_outcome_def key_mut_def put_key_def Let_def spend_def)
      have "now \<le> saturating_add now ra" by (simp add: less_eq_duration_def)
      moreover have "block_end srv k \<le> now"
        using None be by (auto simp: srv_wait_None dur_zero_def less_eq_duration_def split: option.splits)
      ultimately show ?thesis
        using acquire [OF t] dec [OF d] cm p o f r'(1) be_put
        by (auto simp: drive_attempt_def in_step_def put_key_def refused_send_def commit_def outcome_backoff_def)
    qed
  qed
qed

lemma optimistic_trace:
  assumes "in_step (CfgFixedWindow mc window) (SrvFixedWindow ms window) (optimistic_rel t) k rl srv"
    and "\<not> is_zero window" and "ms \<le> mc" "ms \<noteq> - 1"
    and "\<forall>(now, c) \<in> set attempts. t \<le> now \<and> cost_get c \<le> ms" and "sorted (map fst attempts)"
  shows "\<exists>log. refusals dbg rl srv k attempts = Some log \<and>
    sorted_wrt (\<lambda>(_, u) (t', _). u \<le> t') log \<and> (\<forall>(t', u) \<in> set log. block_end srv k \<le> t')"
  using assms
proof (induction attempts arbitrary: rl srv t)
  case Nil
  then show ?case by simp
next
  case (Cons x attempts)
  obtain now c where x: "x = (now, c)" by fastforce
  with Cons.prems have "t \<le> now" "cost_get c \<le> ms" by simp_all
  from optimistic_attempt [OF Cons.prems(1) this(1) Cons.prems(2-4) this(2), of dbg] obtain rl1 srv1
    where a: "drive_attempt dbg k rl srv now c = Some (rl1, srv1)"
      "in_step (CfgFixedWindow mc window) (SrvFixedWindow ms window) (optimistic_rel now) k rl1 srv1"
      "block_end srv k \<le> block_end srv1 k"
      "\<forall>(t', u) \<in> set (refused_send dbg k rl srv now c). t' = now \<and> block_end srv k \<le> now \<and> u = block_end srv1 k"
    by blast
  have "\<forall>(later, c) \<in> set attempts. now \<le> later \<and> cost_get c \<le> ms" using Cons.prems(5,6) x by auto
  from Cons.IH [OF a(2) Cons.prems(2-4) this] Cons.prems(6) obtain log
    where log: "refusals dbg rl1 srv1 k attempts = Some log" "sorted_wrt (\<lambda>(_, u) (t', _). u \<le> t') log"
      "\<forall>(t', u) \<in> set log. block_end srv1 k \<le> t'" by auto
  have one: "refused_send dbg k rl srv now c = [] \<or> (\<exists>u. refused_send dbg k rl srv now c = [(now, u)])"
    by (auto simp: refused_send_def split: option.splits sum.splits server_decision.splits)
  show ?case
    using one
  proof (elim disjE exE)
    fix u
    assume e: "refused_send dbg k rl srv now c = [(now, u)]"
    with a(4) have "u = block_end srv1 k" "block_end srv k \<le> now" by simp_all
    with a(1,3) e log x show ?thesis by (auto intro: order_trans)
  qed (use a log x in \<open>auto intro: order_trans\<close>)
qed

text \<open>C15: A client that is too optimistic converges on the server: with a higher limit per window than the
  server's and any costs the server can serve, on a trace whose instants do not go back, the driver
  of the tests never panics, so that client and server still agree on every denial and its wait; and
  of what the client sends the server refuses at most one call per block: after a refusal nothing
  more is refused before the block it announced is over.\<close>

theorem optimistic_client_converges:
  assumes "fixed_window mc window = Inr cfg" and "ms \<le> mc" and "ms \<noteq> - 1"
    and "\<forall>(now, c) \<in> set attempts. cost_get c \<le> ms" and "sorted (map fst attempts)"
  shows "drive_trace dbg (limiter_new cfg) (server_new (SrvFixedWindow ms window)) k attempts \<noteq> None \<and>
    (\<exists>log. refusals dbg (limiter_new cfg) (server_new (SrvFixedWindow ms window)) k attempts = Some log \<and>
      sorted_wrt (\<lambda>(_, u) (t, _). u \<le> t) log)"
proof -
  have cfg: "\<not> is_zero window" "cfg = \<lparr>cfg_algorithm = CfgFixedWindow mc window, cfg_max_keys = None,
      cfg_overflow_policy = DenyNewKey, cfg_slow_start = None\<rparr>"
    using assms(1) by (auto simp: fixed_window_def fixed_window_bounded_def split: if_splits)
  have "in_step (CfgFixedWindow mc window) (SrvFixedWindow ms window) (optimistic_rel dur_zero) k (limiter_new cfg)
      (server_new (SrvFixedWindow ms window))"
    by (simp add: in_step_def cfg limiter_new_def limiter_new_at_def server_new_def)
  moreover have "\<forall>(now, c) \<in> set attempts. dur_zero \<le> now \<and> cost_get c \<le> ms"
    using assms(4) by (auto simp: less_eq_duration_def)
  ultimately have "\<exists>log. refusals dbg (limiter_new cfg) (server_new (SrvFixedWindow ms window)) k attempts = Some log \<and>
      sorted_wrt (\<lambda>(_, u) (t, _). u \<le> t) log"
    using optimistic_trace [OF _ cfg(1) assms(2,3) _ assms(5)] by blast
  then show ?thesis by (metis option.distinct(1) refusals_drive)
qed

lemma optimistic_client_converges_witness:
  "\<exists>log. refusals True (limiter_new (projr (fixed_window 4 (from_secs 10)))) (server_new (SrvFixedWindow 3 (from_secs 10))) 99
      [(from_secs 0, Cost 3), (from_secs 0, Cost 1), (from_secs 1, Cost 1), (from_secs 10, Cost 3), (from_secs 19, Cost 1)] =
    Some log \<and> length log = 2 \<and> sorted_wrt (\<lambda>(_, u) (t, _). u \<le> t) log"
proof -
  let ?cfg = "projr (fixed_window 4 (from_secs 10))" and ?xs =
    "[(from_secs 0, Cost 3), (from_secs 0, Cost 1), (from_secs 1, Cost 1), (from_secs 10, Cost 3), (from_secs 19, Cost 1)]"
  have "fixed_window 4 (from_secs 10) = Inr ?cfg" "sorted (map fst ?xs)" "\<forall>(now, c) \<in> set ?xs. cost_get c \<le> 3"
    by (simp_all add: eval_simps)
  from optimistic_client_converges [OF this(1) _ _ this(3,2), of True 99] obtain log
    where log: "refusals True (limiter_new ?cfg) (server_new (SrvFixedWindow 3 (from_secs 10))) 99 ?xs = Some log"
      "sorted_wrt (\<lambda>(_, u) (t, _). u \<le> t) log" by auto
  have "map_option length (refusals True (limiter_new ?cfg) (server_new (SrvFixedWindow 3 (from_secs 10))) 99 ?xs) = Some 2"
    by (simp add: refused_send_def eval_simps)
  with log show ?thesis by auto
qed

end
