(* ===== verification/Patient_Client.thy ===== *)
theory Patient_Client
  imports Pool_Properties Ramp_Properties Backoff Server_Properties Isolation
begin

text \<open>
  A client that does what a denial says: it waits for \<open>retry_after\<close> and calls again. What one bucket
  must promise such a client is a locale, interpreted for both algorithms; around it the limiter
  adds its own backoff and that of the key.
\<close>


section \<open>A client that waits\<close>

text \<open>Calls, and after a denial calls again when the advised wait is over, at most \<open>n\<close> times in all.\<close>

primrec patient ::
  "bool \<Rightarrow> nat \<Rightarrow> limiter \<Rightarrow> key \<Rightarrow> cost \<Rightarrow> duration \<Rightarrow> (limiter \<times> duration \<times> permit) option" where
  "patient dbg 0 rl k c now = None"
| "patient dbg (Suc n) rl k c now = do {
     (rl', r) \<leftarrow> try_acquire dbg rl k c now;
     (case r of
        Inr p \<Rightarrow> Some (rl', now, p)
      | Inl d \<Rightarrow> patient dbg n rl' k c (saturating_add now (retry_after d)))
   }"

lemma patient_wait:
  "try_acquire dbg rl k c now = Some (rl', Inl d) \<Longrightarrow>
    patient dbg (Suc n) rl k c now = patient dbg n rl' k c (saturating_add now (retry_after d))"
  by simp

lemma patient_more: "patient dbg n rl k c now = Some x \<Longrightarrow> patient dbg (Suc n) rl k c now = Some x"
proof (induction n arbitrary: rl now)
  case (Suc n)
  from Suc.prems obtain rl' r where r: "try_acquire dbg rl k c now = Some (rl', r)" by (auto simp: bind_eq_Some_conv)
  with Suc.prems Suc.IH show ?case by (cases r) (simp_all del: patient.simps(2) add: patient.simps(2) [of _ n] patient.simps(2) [of _ "Suc n"])
qed simp

text \<open>
  The limits that are in force for a cost from an instant on: the algorithm of each instant, whether
  slow start lets the cost pass, and the wait it advises otherwise.
\<close>

definition governed ::
  "algorithm_config \<Rightarrow> (duration \<Rightarrow> algorithm_config) \<Rightarrow> (duration \<Rightarrow> bool) \<Rightarrow> (duration \<Rightarrow> duration) \<Rightarrow> cost
    \<Rightarrow> duration \<Rightarrow> limiter \<Rightarrow> bool" where
  "governed a ea passes wait c since rl \<longleftrightarrow> cfg_algorithm (l_cfg rl) = a \<and>
     (\<forall>t. since \<le> t \<longrightarrow> effective_algorithm rl t = ea t \<and>
        slow_start_pre_deny rl c t (ea t) = (if passes t then None else Some \<lparr>retry_after = wait t\<rparr>))"

lemma governed_cong:
  assumes "l_cfg rl' = l_cfg rl" and "l_started_at rl' = l_started_at rl"
  shows "governed a ea passes wait c since rl' = governed a ea passes wait c since rl"
  unfolding governed_def effective_algorithm_def slow_start_pre_deny_def assms ..

text \<open>The limiter as the client finds it: no bound keeps its key out, and every block ends by the horizon.\<close>

definition awaits :: "(algo_state \<Rightarrow> duration \<Rightarrow> bool) \<Rightarrow> duration \<Rightarrow> limiter \<Rightarrow> key \<Rightarrow> duration \<Rightarrow> bool" where
  "awaits ready horizon rl k now \<longleftrightarrow>
     admits (resolve_bucket_key rl k) rl \<and>
     now \<le> horizon \<and> (\<forall>u. l_global_blocked_until rl = Some u \<longrightarrow> u \<le> horizon) \<and>
     (\<forall>b. fmlookup (l_buckets rl) (resolve_bucket_key rl k) = Some b \<longrightarrow>
        ready (algo b) now \<and> (\<forall>u. blocked_until b = Some u \<longrightarrow> u \<le> horizon))"

text \<open>
  What is asked of a bucket that is not blocked, for a cost that is \<open>possible\<close>: it grants, or it
  denies and grants once the advised wait is over; and of slow start, that it lets the cost pass
  after the wait it advised, and from then on. \<open>ready\<close> is the state of the algorithm, \<open>horizon\<close>
  the last instant to begin at.
\<close>

locale patience =
  fixes a :: algorithm_config and ea :: "duration \<Rightarrow> algorithm_config" and passes :: "duration \<Rightarrow> bool"
    and wait :: "duration \<Rightarrow> duration" and possible :: bool and ready :: "algo_state \<Rightarrow> duration \<Rightarrow> bool"
    and horizon :: duration and c :: cost and dbg :: bool and since :: duration
  assumes fresh: "possible \<Longrightarrow> \<exists>b. bucket_new dbg now a = Some b \<and> blocked_until b = None \<and> ready (algo b) now"
    and later: "ready st now \<Longrightarrow> now \<le> now' \<Longrightarrow> ready st now'"
    and still: "passes t \<Longrightarrow> t \<le> t' \<Longrightarrow> passes t'"
    and reaches: "possible \<Longrightarrow> since \<le> now \<Longrightarrow> \<not> passes now \<Longrightarrow>
      passes (saturating_add now (wait now)) \<and> saturating_add now (wait now) \<le> horizon"
    and waits: "possible \<Longrightarrow> passes now \<Longrightarrow> ready (algo b) now \<Longrightarrow> blocked_until b = None \<Longrightarrow> now \<le> horizon \<Longrightarrow>
      (\<exists>b' p. bucket_decide dbg b k (ea now) c now = Some (b', Inr p)) \<or>
      (\<exists>b' d b2 p. bucket_decide dbg b k (ea now) c now = Some (b', Inl d) \<and> blocked_until b' = None \<and>
         bucket_decide dbg b' k (ea (saturating_add now (retry_after (bd_deny d)))) c
           (saturating_add now (retry_after (bd_deny d))) = Some (b2, Inr p))"
begin

abbreviation gov :: "limiter \<Rightarrow> bool" where
  "gov \<equiv> governed a ea passes wait c since"

lemma resolve_frame [simp]:
  "resolve_bucket_key (notify_deny rl rk bk c' t d r) k = resolve_bucket_key rl k"
  by (simp add: resolve_bucket_key_def)

lemma global_wait_frame [simp]: "global_wait (notify_deny rl rk bk c' t d r) now = global_wait rl now"
  by (simp add: global_wait_def)

lemma started_frame [simp]: "l_started_at (notify_deny rl rk bk c' t d r) = l_started_at rl"
  by (simp add: notify_deny_def notify_def)

lemma gov_frame [simp]: "gov (notify_deny rl rk bk c' t d r) = gov rl"
  by (rule governed_cong) simp_all

lemma admits_frame [simp]: "admits bk' (notify_deny rl rk bk c' t d r) = admits bk' rl"
  by (simp add: admits_def cong: option.case_cong)

text \<open>An attempt when neither the limiter nor the key is blocked, in terms of the key's bucket.\<close>

lemma acquire:
  assumes g: "gov rl" "since \<le> now" "passes now" and ad: "admits (resolve_bucket_key rl k) rl"
    and gw: "global_wait rl now = None"
    and b: "bucket_for dbg rl (resolve_bucket_key rl k) now = Some b"
    and r: "bucket_try_reserve dbg b (resolve_bucket_key rl k) (ea now) c now = Some (b', res)"
  obtains rl' where "try_acquire dbg rl k c now = Some (rl', case res of Inr p \<Rightarrow> Inr p | Inl d \<Rightarrow> Inl (bd_deny d))"
    and "fmlookup (l_buckets rl') (resolve_bucket_key rl k) = Some b'" and "gov rl'"
    and "l_global_blocked_until rl' = l_global_blocked_until rl" and "l_route_map rl' = l_route_map rl"
proof -
  have e: "ensure_bucket_capacity rl k (resolve_bucket_key rl k) c now = (rl, Inr ())" using ad by (rule admits_capacity)
  have ea: "effective_algorithm rl now = ea now" "slow_start_pre_deny rl c now (ea now) = None"
    using g by (simp_all add: governed_def)
  from reserve_entry_at [OF b r] obtain rl2 where
    rl2: "reserve_entry dbg rl (resolve_bucket_key rl k) (ea now) c now = Some (rl2, res)"
      "fmlookup (l_buckets rl2) (resolve_bucket_key rl k) = Some b'"
      "l_global_blocked_until rl2 = l_global_blocked_until rl" "l_route_map rl2 = l_route_map rl"
      "l_cfg rl2 = l_cfg rl" "l_started_at rl2 = l_started_at rl" by blast
  have g2: "gov rl2" using governed_cong [OF rl2(5,6)] g(1) by simp
  show thesis
  proof (cases res)
    case (Inl d)
    with e ea rl2 gw g2 show thesis
      by (intro that [of "notify_deny rl2 k (resolve_bucket_key rl k) c now (bd_deny d) (observed_reason (bd_reason d))"])
        (simp_all add: try_acquire_def Let_def)
  next
    case (Inr p)
    with e ea rl2 gw g2 show thesis by (intro that [of rl2]) (simp_all add: try_acquire_def Let_def)
  qed
qed

lemma served_unblocked:
  assumes w: "awaits ready horizon rl k now" and gv: "gov rl" "since \<le> now" "passes now" and possible
    and g: "global_wait rl now = None"
    and ub: "\<forall>b. fmlookup (l_buckets rl) (resolve_bucket_key rl k) = Some b \<longrightarrow> (\<forall>u. blocked_until b = Some u \<longrightarrow> u \<le> now)"
  shows "\<exists>rl' t p. patient dbg 2 rl k c now = Some (rl', t, p) \<and> now \<le> t"
proof -
  let ?bk = "resolve_bucket_key rl k"
  have f: "now \<le> horizon" "admits ?bk rl" using w by (simp_all add: awaits_def)
  obtain b where b: "bucket_for dbg rl ?bk now = Some b" "ready (algo b) now" "\<forall>u. blocked_until b = Some u \<longrightarrow> u \<le> now"
  proof (cases "fmlookup (l_buckets rl) ?bk")
    case None
    then show thesis using that fresh [OF \<open>possible\<close>, of now] gv(1) by (auto simp: bucket_for_def governed_def)
  next
    case (Some b)
    then show thesis using that w ub by (auto simp: awaits_def bucket_for_def)
  qed
  define b0 where "b0 = b\<lparr>blocked_until := None\<rparr>"
  have try_b: "bucket_try_reserve dbg b ?bk (ea now) c now = bucket_decide dbg b0 ?bk (ea now) c now"
    using b(3) by (cases b; cases "blocked_until b") (auto simp: bucket_try_reserve_eq b0_def)
  have b0: "ready (algo b0) now" "blocked_until b0 = None" using b(2) by (simp_all add: b0_def)
  from waits [OF \<open>possible\<close> gv(3) b0 f(1), of ?bk] show ?thesis
  proof (elim disjE exE conjE)
    fix b' p
    assume "bucket_decide dbg b0 ?bk (ea now) c now = Some (b', Inr p)"
    with try_b have "bucket_try_reserve dbg b ?bk (ea now) c now = Some (b', Inr p)" by simp
    from acquire [OF gv f(2) g b(1) this] obtain rl' where "try_acquire dbg rl k c now = Some (rl', Inr p)" by auto
    then show ?thesis by (simp add: numeral_2_eq_2)
  next
    fix b' b2 p and d :: bucket_deny
    let ?t = "saturating_add now (retry_after (bd_deny d))"
    assume den: "bucket_decide dbg b0 ?bk (ea now) c now = Some (b', Inl d)" and nb: "blocked_until b' = None"
      and grants: "bucket_decide dbg b' ?bk (ea ?t) c ?t = Some (b2, Inr p)"
    from den try_b have "bucket_try_reserve dbg b ?bk (ea now) c now = Some (b', Inl d)" by simp
    from acquire [OF gv f(2) g b(1) this] obtain rl' where rl': "try_acquire dbg rl k c now = Some (rl', Inl (bd_deny d))"
      "fmlookup (l_buckets rl') ?bk = Some b'" "gov rl'"
      "l_global_blocked_until rl' = l_global_blocked_until rl" "l_route_map rl' = l_route_map rl" by auto
    have le: "now \<le> ?t" by (simp add: less_eq_duration_def)
    have k: "resolve_bucket_key rl' k = ?bk" using rl'(5) by (simp add: resolve_bucket_key_def)
    have g': "global_wait rl' ?t = None"
      using g le rl'(4) by (auto simp: global_wait_def split: option.splits if_splits)
    have "bucket_try_reserve dbg b' (resolve_bucket_key rl' k) (ea ?t) c ?t = Some (b2, Inr p)"
      using grants nb k by (simp add: bucket_try_reserve_eq)
    moreover have "admits (resolve_bucket_key rl' k) rl'" "bucket_for dbg rl' (resolve_bucket_key rl' k) ?t = Some b'"
      using rl'(2) k by (simp_all add: admits_def bucket_for_def)
    ultimately have "\<exists>rl2. try_acquire dbg rl' k c ?t = Some (rl2, Inr p)"
      using acquire [OF rl'(3) order_trans [OF gv(2) le] still [OF gv(3) le]] g' by fastforce
    with rl'(1) le show ?thesis by (auto simp: numeral_2_eq_2)
  qed
qed

lemma served_key:
  assumes w: "awaits ready horizon rl k now" and gv: "gov rl" "since \<le> now" "passes now" and possible
    and g: "global_wait rl now = None"
  shows "\<exists>rl' t p. patient dbg 3 rl k c now = Some (rl', t, p) \<and> now \<le> t"
proof (cases "\<exists>b u. fmlookup (l_buckets rl) (resolve_bucket_key rl k) = Some b \<and> blocked_until b = Some u \<and> now < u")
  case False
  then have "\<forall>b. fmlookup (l_buckets rl) (resolve_bucket_key rl k) = Some b \<longrightarrow> (\<forall>u. blocked_until b = Some u \<longrightarrow> u \<le> now)"
    by (auto simp: not_less)
  from served_unblocked [OF w gv \<open>possible\<close> g this] show ?thesis
    using patient_more [of dbg 2] by (fastforce simp: eval_nat_numeral)
next
  case True
  then obtain b u where b: "fmlookup (l_buckets rl) (resolve_bucket_key rl k) = Some b" "blocked_until b = Some u" "now < u"
    by blast
  let ?d = "\<lparr>bd_deny = \<lparr>retry_after = dur_minus u now\<rparr>, bd_reason = BlockedUntil\<rparr>"
  have f: "admits (resolve_bucket_key rl k) rl" and h: "u \<le> horizon" "ready (algo b) now"
    using w b by (simp_all add: awaits_def)
  have t: "bucket_try_reserve dbg b (resolve_bucket_key rl k) (ea now) c now = Some (b, Inl ?d)"
    using b by (simp add: bucket_try_reserve_eq)
  have "bucket_for dbg rl (resolve_bucket_key rl k) now = Some b" using b by (simp add: bucket_for_def)
  from acquire [OF gv f g this t] obtain rl' where
    rl': "try_acquire dbg rl k c now = Some (rl', Inl \<lparr>retry_after = dur_minus u now\<rparr>)"
      "fmlookup (l_buckets rl') (resolve_bucket_key rl k) = Some b" "gov rl'"
      "l_global_blocked_until rl' = l_global_blocked_until rl" "l_route_map rl' = l_route_map rl" by auto
  have k: "resolve_bucket_key rl' k = resolve_bucket_key rl k" using rl'(5) by (simp add: resolve_bucket_key_def)
  have u: "saturating_add now (dur_minus u now) = u" using b(3) by (simp add: saturating_add_dur_minus)
  have le: "now \<le> u" using b(3) by simp
  have "awaits ready horizon rl' k u"
    using w rl' k h b later [OF h(2), of u] by (simp add: awaits_def admits_def)
  moreover have "global_wait rl' u = None"
    using g b(3) rl'(4) by (auto simp: global_wait_def split: option.splits if_splits)
  ultimately have "\<exists>rl2 t p. patient dbg 2 rl' k c u = Some (rl2, t, p) \<and> u \<le> t"
    using served_unblocked [OF _ rl'(3) order_trans [OF gv(2) le] still [OF gv(3) le] \<open>possible\<close>, of k] rl'(2) k b(2)
    by simp
  moreover have "patient dbg 3 rl k c now = patient dbg 2 rl' k c u"
    using patient_wait [OF rl'(1), of 2] u by (simp del: patient.simps)
  ultimately show ?thesis using b(3) by (fastforce simp del: patient.simps)
qed

text \<open>A denial before the key is looked at: the limiter stays as it is, and the client waits.\<close>

lemma served_after:
  assumes "patient dbg n (notify_deny rl rk bk c' t0 d0 r) k c t = Some (rl2, t2, p)" and "now \<le> t" "t \<le> t2"
    and "try_acquire dbg rl k c now = Some (notify_deny rl rk bk c' t0 d0 r, Inl d)"
    and "saturating_add now (retry_after d) = t"
  shows "\<exists>rl' t p. patient dbg (Suc n) rl k c now = Some (rl', t, p) \<and> now \<le> t"
  using patient_wait [OF assms(4), of n] assms(1-3,5) by (auto simp del: patient.simps intro: order_trans)

lemma awaits_later:
  "awaits ready horizon rl k now \<Longrightarrow> now \<le> t \<Longrightarrow> t \<le> horizon \<Longrightarrow>
    awaits ready horizon (notify_deny rl rk bk c' t0 d r) k t"
  using later by (auto simp: awaits_def)

lemma served_ramp:
  assumes w: "awaits ready horizon rl k now" and gv: "gov rl" "since \<le> now" and possible and g: "global_wait rl now = None"
  shows "\<exists>rl' t p. patient dbg 4 rl k c now = Some (rl', t, p) \<and> now \<le> t"
proof (cases "passes now")
  case True
  from served_key [OF w gv True \<open>possible\<close> g] show ?thesis
    using patient_more [of dbg 3] by (fastforce simp: eval_nat_numeral)
next
  case False
  let ?t = "saturating_add now (wait now)"
  let ?rl = "notify_deny rl k (resolve_bucket_key rl k) c now \<lparr>retry_after = wait now\<rparr> SlowStartDeny"
  have a: "try_acquire dbg rl k c now = Some (?rl, Inl \<lparr>retry_after = wait now\<rparr>)"
    using gv False g by (simp add: try_acquire_def Let_def governed_def)
  have t: "now \<le> ?t" "passes ?t" "?t \<le> horizon"
    using reaches [OF \<open>possible\<close> gv(2) False] by (simp_all add: less_eq_duration_def)
  have g': "global_wait ?rl ?t = None" using g t(1) by (auto simp: global_wait_def split: option.splits if_splits)
  have gv': "gov ?rl" "since \<le> ?t" using gv t(1) by (simp_all add: order_trans [OF _ t(1)])
  obtain rl' t' p where "patient dbg 3 ?rl k c ?t = Some (rl', t', p)" "?t \<le> t'"
    using served_key [OF awaits_later [OF w t(1,3)] gv' t(2) \<open>possible\<close> g'] by blast
  from served_after [OF this(1) t(1) this(2) a] show ?thesis by simp
qed

lemma served:
  assumes w: "awaits ready horizon rl k now" and gv: "gov rl" "since \<le> now" and possible
  shows "\<exists>rl' t p. patient dbg 5 rl k c now = Some (rl', t, p) \<and> now \<le> t"
    and "passes now \<Longrightarrow> \<exists>rl' t p. patient dbg 4 rl k c now = Some (rl', t, p) \<and> now \<le> t"
proof -
  have "(\<exists>rl' t p. patient dbg 5 rl k c now = Some (rl', t, p) \<and> now \<le> t) \<and>
    (passes now \<longrightarrow> (\<exists>rl' t p. patient dbg 4 rl k c now = Some (rl', t, p) \<and> now \<le> t))"
  proof (cases "global_wait rl now")
    case None
    from served_ramp [OF w gv \<open>possible\<close> None] show ?thesis
      using patient_more [of dbg 4] by (fastforce simp: eval_nat_numeral)
  next
    case (Some ra)
    then obtain u where u: "l_global_blocked_until rl = Some u" "now < u" "ra = dur_minus u now"
      by (auto simp: global_wait_def split: option.splits if_splits)
    let ?rl = "notify_deny rl k (resolve_bucket_key rl k) c now \<lparr>retry_after = ra\<rparr> FeedbackBackoff"
    have a: "try_acquire dbg rl k c now = Some (?rl, Inl \<lparr>retry_after = ra\<rparr>)" using Some by (simp add: try_acquire_def Let_def)
    have t: "saturating_add now ra = u" "now \<le> u" using u by (simp_all add: saturating_add_dur_minus)
    have "u \<le> horizon" using w u(1) by (simp add: awaits_def)
    note w' = awaits_later [OF w t(2) this]
    have gv': "gov ?rl" "since \<le> u" using gv t(2) by simp_all
    have g': "global_wait ?rl u = None" using u by (simp add: global_wait_def)
    obtain rl' t' p where 5: "patient dbg 4 ?rl k c u = Some (rl', t', p)" "u \<le> t'"
      using served_ramp [OF w' gv' \<open>possible\<close> g'] by blast
    have 4: "\<exists>rl' t' p. patient dbg 3 ?rl k c u = Some (rl', t', p) \<and> u \<le> t'" if "passes now"
      using served_key [OF w' gv' still [OF that t(2)] \<open>possible\<close> g'] .
    show ?thesis
      using served_after [OF 5(1) t(2) 5(2) a] served_after [of 3, OF _ t(2) _ a] 4 t(1)
      by (fastforce simp: numeral_Bit0 numeral_Bit1 simp del: patient.simps)
  qed
  then show "\<exists>rl' t p. patient dbg 5 rl k c now = Some (rl', t, p) \<and> now \<le> t"
    and "passes now \<Longrightarrow> \<exists>rl' t p. patient dbg 4 rl k c now = Some (rl', t, p) \<and> now \<le> t" by blast+
qed

end

section \<open>Both algorithms\<close>

text \<open>
  The last instant to begin at: a wait for credits is below \<open>2^32\<close> seconds, so that a call made by
  then is answered with an instant that can be represented.
\<close>

definition latest_start :: duration where
  "latest_start = dur (max_nanos - 2 ^ 32 * nanos_per_sec)"

definition window_ready :: "algo_state \<Rightarrow> duration \<Rightarrow> bool" where
  "window_ready st now \<longleftrightarrow> (\<exists>s. st = AlgoFixedWindow s \<and> fw_inv s {#})"

definition pool_ready :: "algo_state \<Rightarrow> duration \<Rightarrow> bool" where
  "pool_ready st now \<longleftrightarrow> (\<exists>s. st = AlgoTokenBucket s \<and> tb_last_update s \<le> now)"

lemma window_waits:
  assumes w: "\<not> is_zero window" and c: "weight c \<le> unat m" and inv: "fw_inv s {#}" and al: "algo b = AlgoFixedWindow s"
    and nb: "blocked_until b = None" and m': "\<And>t. now \<le> t \<Longrightarrow> weight c \<le> unat (m' t)"
  shows "(\<exists>b' p. bucket_decide dbg b k (CfgFixedWindow m window) c now = Some (b', Inr p)) \<or>
    (\<exists>b' d b2 p. bucket_decide dbg b k (CfgFixedWindow m window) c now = Some (b', Inl d) \<and> blocked_until b' = None \<and>
       bucket_decide dbg b' k (CfgFixedWindow (m' (saturating_add now (retry_after (bd_deny d)))) window) c
         (saturating_add now (retry_after (bd_deny d))) = Some (b2, Inr p))"
proof -
  have m: "m \<noteq> 0" using c weight_nonzero [of c] by auto
  obtain s1 where s1: "fw_maybe_reset_window dbg s now window = Some s1"
    and dec: "fw_try_reserve dbg s k m window c now =
      (if unat m < fw_used s1 + weight c then
         Some (s1, Inl \<lparr>bd_deny = \<lparr>retry_after =
           saturating_sub (saturating_add (fw_window_start s1) window) now\<rparr>, bd_reason = WindowExhausted\<rparr>)
       else Some (s1\<lparr>fw_reserved := fw_reserved s1 + cost_get c\<rparr>,
         Inr \<lparr>p_key = k, p_cost = c, p_window_start = fw_window_start s1, p_issued_at = now,
              p_deadline = saturating_add (fw_window_start s1) window,
              p_meta = MetaFixedWindow (fw_window_start s1)\<rparr>))"
    using fixed_window_decision [OF inv w, of dbg now k m c] m c by auto
  have inv1: "fw_inv s1 {#}" using fw_inv_reset [OF inv s1 w] .
  show ?thesis
  proof (cases "unat m < fw_used s1 + weight c")
    case False
    with dec al show ?thesis by (simp add: bucket_decide_def)
  next
    case True
    let ?over = "saturating_add (fw_window_start s1) window"
    let ?t = "saturating_add now (saturating_sub ?over now)"
    have "?over \<le> ?t" using nanos_of_le [of ?over] by (simp add: less_eq_duration_def del: nanos_of_le)
    moreover have "fw_reserved s1 = 0" using inv1 by (simp add: fw_inv_def unat_eq_0)
    moreover have c': "weight c \<le> unat (m' ?t)" by (rule m') (simp add: less_eq_duration_def)
    then have "m' ?t \<noteq> 0" using weight_nonzero [of c] by auto
    then obtain s2 where s2: "fw_maybe_reset_window dbg s1 ?t window = Some s2"
      and dec2: "unat (m' ?t) \<ge> fw_used s2 + weight c \<Longrightarrow>
        \<exists>s' p. fw_try_reserve dbg s1 k (m' ?t) window c ?t = Some (s', Inr p)"
      using fixed_window_decision [OF inv1 w, of dbg ?t k "m' ?t" c] c' by auto
    ultimately have "fw_used s2 = 0"
      by (auto simp: fw_maybe_reset_window_def Let_def bind_eq_Some_conv fw_used_def)
    with dec2 c' obtain s' p where "fw_try_reserve dbg s1 k (m' ?t) window c ?t = Some (s', Inr p)" by auto
    with True dec al nb show ?thesis by (intro disjI2) (simp add: bucket_decide_def)
  qed
qed

lemma pool_waits:
  assumes c: "weight c \<le> unat cap" and r: "r \<noteq> 0" and lu: "tb_last_update s \<le> now" and al: "algo b = AlgoTokenBucket s"
    and nb: "blocked_until b = None" and h: "now \<le> latest_start"
  shows "(\<exists>b' p. bucket_decide dbg b k (CfgTokenBucket cap r) c now = Some (b', Inr p)) \<or>
    (\<exists>b' d b2 p. bucket_decide dbg b k (CfgTokenBucket cap r) c now = Some (b', Inl d) \<and> blocked_until b' = None \<and>
       bucket_decide dbg b' k (CfgTokenBucket cap r) c (saturating_add now (retry_after (bd_deny d))) = Some (b2, Inr p))"
proof -
  have cap: "cap \<noteq> 0" using c weight_nonzero [of c] by auto
  have r0: "0 < unat r" using r by (simp add: unat_gt_0)
  obtain s' res where t: "tb_try_reserve dbg s cap r c now = Some (s', res)" using tb_try_reserve_total by blast
  show ?thesis
  proof (cases res)
    case (Inr u)
    with t al cap show ?thesis by (simp add: bucket_decide_def token_try_reserve_def)
  next
    case (Inl d)
    let ?t = "saturating_add now (retry_after d)"
    note den = tb_try_reserve_denied [OF t [unfolded Inl]]
    have "unat (ucast (cost_get c) - tb_credits s') \<le> weight c"
      using den(3) c by (subst unat_minus_fits) (simp_all add: word_le_nat_alt)
    then have "unat (ucast (cost_get c) - tb_credits s') * nanos_per_sec \<le> (weight c * nanos_per_sec) * unat r"
      using mult_le_mono [of _ _ 1 "unat r"] r0 by (simp add: Suc_le_eq mult.commute mult.assoc mult_le_mono)
    then have "nanos_of (retry_after d) \<le> weight c * nanos_per_sec"
      using den(2) c r r0 by (simp add: nanos_of_retry_after_for_deficit ceil_div_le_iff)
    also have "\<dots> \<le> 2 ^ 32 * nanos_per_sec" using unat_word_less [of "cost_get c"] by (simp add: weight_def)
    finally have "nanos_of now + nanos_of (retry_after d) \<le> max_nanos"
      using h by (simp add: latest_start_def less_eq_duration_def max_nanos_def nanos_per_sec_def)
    then have "nanos_of now + nanos_of (retry_after d) \<le> nanos_of ?t" "now \<le> ?t" by (simp_all add: less_eq_duration_def)
    with pool_wait [OF t [unfolded Inl] lu c r0] have "pool_grants dbg s' cap r c ?t" by simp
    then obtain s2 where "tb_try_reserve dbg s' cap r c ?t = Some (s2, Inr ())"
      using tb_try_reserve_granted_iff [of dbg s' cap r c ?t] by (auto simp: pool_grants_iff)
    with t Inl al nb cap show ?thesis by (intro disjI2) (simp add: bucket_decide_def token_try_reserve_def)
  qed
qed

text \<open>The limit of a fixed window under slow start, if any, and the wait until it allows a cost.\<close>

definition limit_at :: "u32 \<Rightarrow> slow_start option \<Rightarrow> duration \<Rightarrow> duration \<Rightarrow> u32" where
  "limit_at m so st t = (case so of None \<Rightarrow> m | Some slow \<Rightarrow> effective_max m slow st t)"

definition limit_wait :: "u32 \<Rightarrow> slow_start option \<Rightarrow> duration \<Rightarrow> cost \<Rightarrow> duration \<Rightarrow> duration" where
  "limit_wait m so st c t =
     (case so of None \<Rightarrow> dur_zero | Some slow \<Rightarrow> retry_after_for_cost m slow st t (cost_get c))"

text \<open>A ramp that has begun and ends before time does.\<close>

definition ramp_in_time :: "slow_start option \<Rightarrow> duration \<Rightarrow> duration \<Rightarrow> bool" where
  "ramp_in_time so st now \<longleftrightarrow>
     (\<forall>slow. so = Some slow \<longrightarrow> st \<le> now \<and> nanos_of st + nanos_of (ss_ramp slow) \<le> max_nanos)"

lemma limit_at_mono: "t \<le> t' \<Longrightarrow> limit_at m so st t \<le> limit_at m so st t'"
  by (simp add: limit_at_def ramp32.eff_mono split: option.split)

lemma limit_reached:
  assumes "weight c \<le> unat m" and r: "ramp_in_time so st since" and "since \<le> now" and no: "\<not> cost_get c \<le> limit_at m so st now"
  shows "cost_get c \<le> limit_at m so st (saturating_add now (limit_wait m so st c now))"
proof -
  have "so \<noteq> None" using assms(1) no by (cases so) (simp_all add: limit_at_def word_le_nat_alt weight_def)
  then obtain slow where so: "so = Some slow" by blast
  then have st: "st \<le> now" and e: "nanos_of st + nanos_of (ss_ramp slow) \<le> max_nanos"
    using r assms(3) by (auto simp: ramp_in_time_def)
  let ?w = "retry_after_for_cost m slow st now (cost_get c)" and ?full = "saturating_add st (ss_ramp slow)"
  have c: "0 < unat (cost_get c)" "unat (cost_get c) \<le> unat m"
    using assms(1) weight_nonzero [of c] by (auto simp: weight_def)
  note exact = ramp32.wait_exact [where s = slow, OF TrueI c st]
  have full: "effective_max m slow st ?full = m" by (rule ramp32.eff_full [OF TrueI]) (simp_all add: e)
  have "now \<le> ?full"
  proof (rule ccontr)
    assume "\<not> now \<le> ?full"
    then have "m \<le> effective_max m slow st now" using full ramp32.eff_mono [OF TrueI, of ?full now m slow st] by simp
    with no so c(2) show False by (simp add: limit_at_def word_le_nat_alt)
  qed
  from exact [OF this] have "nanos_of now + nanos_of ?w \<le> nanos_of ?full" using full c(2) by (simp add: word_le_nat_alt)
  then have fits: "nanos_of now + nanos_of ?w \<le> max_nanos" using nanos_of_le [of ?full] by linarith
  have "cost_get c \<le> effective_max m slow st (saturating_add now ?w)"
    by (subst exact) (use fits in \<open>simp_all add: less_eq_duration_def\<close>)
  then show ?thesis by (simp add: limit_at_def limit_wait_def so)
qed

interpretation window_patience: patience "CfgFixedWindow m window" "\<lambda>t. CfgFixedWindow (limit_at m so st t) window"
  "\<lambda>t. cost_get c \<le> limit_at m so st t" "limit_wait m so st c"
  "\<not> is_zero window \<and> weight c \<le> unat m \<and> ramp_in_time so st since" window_ready dur_max c dbg since
  for m window so st c dbg since
proof (unfold_locales, goal_cases)
  case (1 now)
  then obtain b where "bucket_new dbg now (CfgFixedWindow m window) = Some b" "bucket_inv (CfgFixedWindow m window) b {#}"
    "blocked_until b = None" using bucket_new_inv [of "CfgFixedWindow m window" dbg now] by auto
  then show ?case by (cases "algo b") (auto simp: bucket_inv_def window_ready_def)
next
  case (3 t t')
  then show ?case using limit_at_mono order_trans by blast
next
  case (4 now)
  then show ?case using limit_reached [of c m so st since now] by (simp add: less_eq_duration_def)
next
  case (5 now b k)
  then obtain s where s: "algo b = AlgoFixedWindow s" "fw_inv s {#}" by (auto simp: window_ready_def)
  have m: "weight c \<le> unat (limit_at m so st t)" if "now \<le> t" for t
    using limit_at_mono [OF that, of m so st] 5(2) by (simp add: word_le_nat_alt weight_def)
  have w: "\<not> is_zero window" using 5(1) by simp
  show ?case by (rule window_waits [OF w m [OF order_refl] s(2,1) 5(4) m])
qed (simp add: window_ready_def)

interpretation pool_patience: patience "CfgTokenBucket cap r" "\<lambda>_. CfgTokenBucket cap r" "\<lambda>_. True" "\<lambda>_. dur_zero"
  "weight c \<le> unat cap \<and> r \<noteq> 0" pool_ready latest_start c dbg since for cap r c dbg since
proof (unfold_locales, goal_cases)
  case (1 now)
  show ?case by (simp add: bucket_new_def algo_new_def tb_new_def pool_ready_def)
next
  case (2 st now now')
  then show ?case by (auto simp: pool_ready_def intro: order_trans)
next
  case (5 now b k)
  then show ?case using pool_waits unfolding pool_ready_def by blast
qed simp_all

section \<open>A patient client is served\<close>

text \<open>The limits can serve the cost at all.\<close>

fun can_serve :: "algorithm_config \<Rightarrow> cost \<Rightarrow> bool" where
  "can_serve (CfgFixedWindow m window) c \<longleftrightarrow> weight c \<le> unat m"
| "can_serve (CfgTokenBucket cap r) c \<longleftrightarrow> weight c \<le> unat cap \<and> r \<noteq> 0"

text \<open>
  Of slow start: for a fixed window, that a ramp has begun and ends before time does; for a credit
  pool, that it is over (\<open>ramp_advises_never\<close>). And for a credit pool that no clock is ahead: every
  instant the limiter remembers that matters to a key, its blocks among them.
\<close>

definition ramp_over :: "slow_start option \<Rightarrow> duration \<Rightarrow> duration \<Rightarrow> bool" where
  "ramp_over so st now \<longleftrightarrow> (\<forall>slow. so = Some slow \<longrightarrow> nanos_of (ss_ramp slow) \<le> nanos_of now - nanos_of st)"

definition in_time :: "limiter \<Rightarrow> key \<Rightarrow> duration \<Rightarrow> bool" where
  "in_time rl bk now \<longleftrightarrow>
     (case cfg_algorithm (l_cfg rl) of
        CfgFixedWindow m window \<Rightarrow> ramp_in_time (cfg_slow_start (l_cfg rl)) (l_started_at rl) now
      | CfgTokenBucket cap r \<Rightarrow>
          ramp_over (cfg_slow_start (l_cfg rl)) (l_started_at rl) now \<and> now \<le> latest_start \<and>
          (\<forall>u. l_global_blocked_until rl = Some u \<longrightarrow> u \<le> latest_start) \<and>
          (\<forall>b. fmlookup (l_buckets rl) bk = Some b \<longrightarrow>
             (\<forall>u. blocked_until b = Some u \<longrightarrow> u \<le> latest_start) \<and>
             (\<forall>s. algo b = AlgoTokenBucket s \<longrightarrow> tb_last_update s \<le> now)))"

lemma governed_window:
  assumes "cfg_algorithm (l_cfg rl) = CfgFixedWindow m window" and "weight c \<le> unat m"
  shows "governed (CfgFixedWindow m window)
    (\<lambda>t. CfgFixedWindow (limit_at m (cfg_slow_start (l_cfg rl)) (l_started_at rl) t) window)
    (\<lambda>t. cost_get c \<le> limit_at m (cfg_slow_start (l_cfg rl)) (l_started_at rl) t)
    (limit_wait m (cfg_slow_start (l_cfg rl)) (l_started_at rl) c) c since rl"
proof -
  have m: "m \<noteq> 0" using assms(2) weight_nonzero [of c] by auto
  show ?thesis
  proof (cases "cfg_slow_start (l_cfg rl)")
    case None
    with assms show ?thesis
      by (simp add: governed_def effective_algorithm_def slow_start_pre_deny_def limit_at_def word_le_nat_alt weight_def)
  next
    case (Some slow)
    with assms m show ?thesis
      using slow_start_pre_deny_window [OF Some _ assms(2)]
      by (simp add: governed_def effective_algorithm_def algo_of_def limit_at_def limit_wait_def)
  qed
qed

lemma governed_pool:
  assumes a: "cfg_algorithm (l_cfg rl) = CfgTokenBucket cap r" and c: "weight c \<le> unat cap"
    and over: "ramp_over (cfg_slow_start (l_cfg rl)) (l_started_at rl) since"
  shows "governed (CfgTokenBucket cap r) (\<lambda>_. CfgTokenBucket cap r) (\<lambda>_. True) (\<lambda>_. dur_zero) c since rl"
proof (cases "cfg_slow_start (l_cfg rl)")
  case None
  with a show ?thesis by (simp add: governed_def effective_algorithm_def slow_start_pre_deny_def)
next
  case (Some slow)
  have full: "effective_u64 q slow (l_started_at rl) t = q" if "since \<le> t" for q t
    using over that by (auto simp: ramp_over_def Some effective_u64_def Let_def less_eq_duration_def)
  have "(ucast (cost_get c) :: u64) \<le> cap" using c by (simp add: word_le_nat_alt weight_def unat_ucast_wide)
  with a Some full show ?thesis by (simp add: governed_def effective_algorithm_def slow_start_pre_deny_def Let_def)
qed

text \<open>C16: A client that waits as it is advised is served: in any reachable state, it calls for a cost the
  configured limits can serve (with a refill rate that is not zero, for a pool) on a key on which
  it holds no permit and which is tracked or finds room, waits after each denial exactly as long as it is
  told, and is granted with the fourth call at the latest, or the fifth with slow start. It may be
  told of the backoff of the limiter, of slow start, of the backoff of the key, and of exhaustion,
  each once. For a fixed window the first call can be at any instant, or under slow start at any
  instant from the creation of the limiter, with a ramp that ends within the range of \<open>Duration\<close>.
  For a credit pool the ramp, if any, is over at the first call; no clock is ahead, that is, the
  pool was last updated at or before that call; and the call and every backoff in force come at
  least \<open>2^32\<close> seconds before the largest \<open>Duration\<close>, so no backoff lasts for ever.\<close>

theorem patient_client_served:
  assumes "reachable dbg rl ps" and "keyed (resolve_bucket_key rl k) ps = {#}"
    and "can_serve (cfg_algorithm (l_cfg rl)) c" and "admits (resolve_bucket_key rl k) rl"
    and "in_time rl (resolve_bucket_key rl k) now"
  shows "\<exists>rl' t p. patient dbg (if cfg_slow_start (l_cfg rl) = None then 4 else 5) rl k c now = Some (rl', t, p) \<and> now \<le> t"
proof -
  let ?bk = "resolve_bucket_key rl k"
  have inv: "lim_inv rl ps" using assms(1) by (rule reachable_inv)
  then have va: "valid_algorithm (cfg_algorithm (l_cfg rl))" by (simp add: lim_inv_def algo_of_def)
  have b: "bucket_inv (cfg_algorithm (l_cfg rl)) b {#}" if "fmlookup (l_buckets rl) ?bk = Some b" for b
    using inv buckets_invD [OF _ that] assms(2) unfolding lim_inv_def algo_of_def by metis
  show ?thesis
  proof (cases "cfg_algorithm (l_cfg rl)")
    case (CfgFixedWindow m window)
    have c: "weight c \<le> unat m" using assms(3) CfgFixedWindow by simp
    have "window_ready (algo b) now" if "fmlookup (l_buckets rl) ?bk = Some b" for b
      using b [OF that] CfgFixedWindow by (cases "algo b") (auto simp: bucket_inv_def window_ready_def)
    then have "awaits window_ready dur_max rl k now"
      using assms(4) by (auto simp: awaits_def less_eq_duration_def)
    from window_patience.served [OF this governed_window [OF CfgFixedWindow c] order_refl]
    show ?thesis using va assms(5) CfgFixedWindow c
      by (auto simp: in_time_def limit_at_def word_le_nat_alt weight_def simp del: patient.simps)
  next
    case (CfgTokenBucket cap r)
    have c: "weight c \<le> unat cap" "r \<noteq> 0" using assms(3) CfgTokenBucket by simp_all
    have o: "ramp_over (cfg_slow_start (l_cfg rl)) (l_started_at rl) now" using assms(5) CfgTokenBucket by (simp add: in_time_def)
    have "pool_ready (algo b) now" if "fmlookup (l_buckets rl) ?bk = Some b" for b
      using b [OF that] CfgTokenBucket assms(5) that
      by (cases "algo b") (auto simp: bucket_inv_def pool_ready_def in_time_def)
    then have "awaits pool_ready latest_start rl k now"
      using assms(4,5) CfgTokenBucket by (auto simp: awaits_def in_time_def)
    from pool_patience.served [OF this governed_pool [OF CfgTokenBucket c(1) o] order_refl]
    show ?thesis using c by (auto simp del: patient.simps)
  qed
qed

text \<open>A state in which all three denials happen: both backoffs are in force and the window is used up.\<close>

definition ex_spender :: permit where
  "ex_spender =
     \<lparr>p_key = 8, p_cost = Cost 3, p_window_start = dur 1000000000,
      p_issued_at = dur 1600000000, p_deadline = dur 2000000000,
      p_meta = MetaFixedWindow (dur 1000000000)\<rparr>"

definition ex_said :: "nat \<Rightarrow> feedback_scope \<Rightarrow> observer_id \<times> observer_call" where
  "ex_said n sc = (0, OnFeedback \<lparr>fe_route_key = 8, fe_bucket_key = 8, fe_now = dur 1700000000,
     fe_retry_after = dur n, fe_scope = sc, fe_bucket_remap = None\<rparr>)"

definition ex_used :: limiter where
  "ex_used = ex_full\<lparr>l_buckets := fmupd 8 (ex_idle_bucket\<lparr>algo := AlgoFixedWindow
     \<lparr>fw_window_start = dur 1000000000, fw_reserved = 0, fw_spent = 3\<rparr>\<rparr>) (fmupd 7 ex_bucket fmempty)\<rparr>"

definition ex_busy :: limiter where
  "ex_busy = ex_full\<lparr>
     l_buckets := fmupd 8 \<lparr>blocked_until = Some (dur 1800000000), algo = AlgoFixedWindow
       \<lparr>fw_window_start = dur 1000000000, fw_reserved = 0, fw_spent = 3\<rparr>\<rparr> (fmupd 7 ex_bucket fmempty),
     l_global_blocked_until := Some (dur 1750000000),
     l_calls := [ex_said 100000000 FbKey, ex_said 50000000 FbGlobal]\<rparr>"

lemmas ex_busy_eval = ex_busy_def ex_used_def ex_said_def ex_spender_def ex_full_def ex_idle_bucket_def ex_limiter_def
  ex_config_def ex_bucket_def eval_simps

lemma ex_busy_reachable: "reachable True ex_busy {#ex_permit#}"
proof -
  obtain rl1 where a: "try_acquire True ex_full 8 (Cost 3) (dur 1600000000) = Some (rl1, Inr ex_spender)"
    and c: "commit True rl1 ex_spender Confirmed (dur 1700000000) = Some ex_used"
    by (simp add: ex_busy_eval)
  obtain rl2 where k: "apply_feedback True ex_used 8 (feedback_new (dur 100000000) FbKey) (dur 1700000000) = Some rl2"
    and g: "apply_feedback True rl2 8 (feedback_new (dur 50000000) FbGlobal) (dur 1700000000) = Some ex_busy"
    by (simp add: ex_busy_eval)
  have "reachable True rl1 {#ex_spender, ex_permit#}"
    by (rule step [OF ex_full_reachable], rule granted [OF _ a]) (simp add: few_permits_def)
  moreover have "client_step True (rl1, {#ex_spender, ex_permit#}) (ex_used, {#ex_permit#})"
    using committed [OF _ c, of "{#ex_spender, ex_permit#}"] by simp
  ultimately have "reachable True ex_used {#ex_permit#}" by (rule step)
  then have "reachable True rl2 {#ex_permit#}" by (rule step) (rule client_step.feedback [OF k])
  then show ?thesis by (rule step) (rule client_step.feedback [OF g])
qed

lemma patient_client_served_witness:
  "patient True 3 ex_busy 8 (Cost 3) (dur 1700000000) = None \<and>
   (\<exists>rl t p. patient True 4 ex_busy 8 (Cost 3) (dur 1700000000) = Some (rl, t, p))"
proof -
  have "keyed (resolve_bucket_key ex_busy 8) {#ex_permit#} = {#}" and n: "cfg_slow_start (l_cfg ex_busy) = None"
    and "admits (resolve_bucket_key ex_busy 8) ex_busy"
    and "in_time ex_busy (resolve_bucket_key ex_busy 8) (dur 1700000000)"
    by (simp_all add: ex_busy_eval ex_permit_def in_time_def ramp_in_time_def admits_def)
  moreover have "can_serve (cfg_algorithm (l_cfg ex_busy)) (Cost 3)"
    by (simp add: ex_busy_def ex_full_def ex_limiter_def ex_config_def weight_def cost_get_Cost)
  ultimately have "\<exists>rl t p. patient True (if cfg_slow_start (l_cfg ex_busy) = None then 4 else 5)
      ex_busy 8 (Cost 3) (dur 1700000000) = Some (rl, t, p) \<and> dur 1700000000 \<le> t"
    by (intro patient_client_served [OF ex_busy_reachable]) auto
  then have "\<exists>rl t p. patient True 4 ex_busy 8 (Cost 3) (dur 1700000000) = Some (rl, t, p)"
    unfolding n by (auto simp del: patient.simps)
  moreover have "patient True (Suc (Suc (Suc 0))) ex_busy 8 (Cost 3) (dur 1700000000) = None"
    by (simp add: ex_busy_eval)
  ultimately show ?thesis by (simp only: numeral_3_eq_3)
qed

text \<open>Under slow start: a cost of 6 of 10 half way through a ramp of ten seconds is served one second later.\<close>

lemma patient_under_ramp:
  "\<exists>rl p. patient True (Suc (Suc 0)) ex_ramping 7 (Cost 6) (from_secs 5) = Some (rl, from_secs 6, p)"
  by (simp add: ex_ramping_def ex_ramp_def eval_simps)

end
