(* ===== verification/Crate_Tests.thy ===== *)
theory Crate_Tests
  imports In_Flight
begin

text \<open>
  The unit tests of the crate, run in the model. Each test is translated statement by statement
  into a computation that is \<open>None\<close> when the test would panic, and each is shown to pass in both
  build profiles: the definitions compute what the crate's authors expect of the code.
\<close>

section \<open>The vocabulary of the tests\<close>

definition check :: "bool \<Rightarrow> unit option" where
  "check b = (if b then Some () else None)"

definition unwrap :: "'e + 'a \<Rightarrow> 'a option" where
  "unwrap r = (case r of Inl _ \<Rightarrow> None | Inr x \<Rightarrow> Some x)"

definition unwrap_err :: "'e + 'a \<Rightarrow> 'e option" where
  "unwrap_err r = (case r of Inl e \<Rightarrow> Some e | Inr _ \<Rightarrow> None)"

text \<open>\<open>try_acquire(..).unwrap()\<close> and \<open>.unwrap_err()\<close>, and acquiring and committing some times over.\<close>

definition acquired ::
  "bool \<Rightarrow> limiter \<Rightarrow> key \<Rightarrow> cost \<Rightarrow> duration \<Rightarrow> (limiter \<times> permit) option" where
  "acquired dbg rl k c now =
     do { (rl, r) \<leftarrow> try_acquire dbg rl k c now; p \<leftarrow> unwrap r; Some (rl, p) }"

definition denied ::
  "bool \<Rightarrow> limiter \<Rightarrow> key \<Rightarrow> cost \<Rightarrow> duration \<Rightarrow> (limiter \<times> deny) option" where
  "denied dbg rl k c now =
     do { (rl, r) \<leftarrow> try_acquire dbg rl k c now; d \<leftarrow> unwrap_err r; Some (rl, d) }"

primrec send_many ::
  "bool \<Rightarrow> nat \<Rightarrow> limiter \<Rightarrow> key \<Rightarrow> cost \<Rightarrow> outcome \<Rightarrow> duration \<Rightarrow> limiter option" where
  "send_many dbg 0 rl k c out now = Some rl"
| "send_many dbg (Suc n) rl k c out now =
     do {
       (rl, p) \<leftarrow> acquired dbg rl k c now;
       rl \<leftarrow> commit dbg rl p out now;
       send_many dbg n rl k c out now
     }"

lemma send_many_numeral [eval_simps]:
  "send_many dbg (numeral n) rl k c out now =
     do {
       (rl, p) \<leftarrow> acquired dbg rl k c now;
       rl \<leftarrow> commit dbg rl p out now;
       send_many dbg (pred_numeral n) rl k c out now
     }"
  by (simp add: numeral_eq_Suc)

definition test_cfg :: "u32 \<Rightarrow> duration \<Rightarrow> config option" where
  "test_cfg m window = unwrap (fixed_window m window)"

lemmas crate_tests_eval [eval_simps] =
  check_def unwrap_def unwrap_err_def acquired_def denied_def test_cfg_def

section \<open>limiter.rs: feedback\<close>

definition feedback_blocks_key_until_deadline_and_unknown_key_is_ok :: "bool \<Rightarrow> unit option" where
  "feedback_blocks_key_until_deadline_and_unknown_key_is_ok dbg = do {
     cfg \<leftarrow> test_cfg 10 (from_secs 10);
     let rl = limiter_new cfg;
     rl \<leftarrow> apply_feedback dbg rl 123 (feedback_new (from_secs 3) FbKey) (from_secs 0);
     (rl, d) \<leftarrow> denied dbg rl 123 cost_one (from_secs 1);
     check (retry_after d = from_secs 2);
     (rl, p) \<leftarrow> acquired dbg rl 123 cost_one (from_secs 3);
     Some ()
   }"

definition feedback_remaining_zero_reset_after_extends_block :: "bool \<Rightarrow> unit option" where
  "feedback_remaining_zero_reset_after_extends_block dbg = do {
     cfg \<leftarrow> test_cfg 10 (from_secs 10);
     let rl = limiter_new cfg;
     let fb = \<lparr>fb_retry_after = from_secs 1, fb_scope = FbKey, fb_remaining = Some 0,
       fb_reset_after = Some (from_secs 5), fb_bucket_remap = None\<rparr>;
     rl \<leftarrow> apply_feedback dbg rl 1 fb (from_secs 0);
     (rl, d) \<leftarrow> denied dbg rl 1 cost_one (from_secs 1);
     check (retry_after d = from_secs 4)
   }"

definition feedback_bucket_remap_moves_future_acquires_to_new_bucket :: "bool \<Rightarrow> unit option" where
  "feedback_bucket_remap_moves_future_acquires_to_new_bucket dbg = do {
     cfg \<leftarrow> test_cfg 1 (from_secs 10);
     let rl = limiter_new cfg;
     let now = from_secs 0;
     (rl, p1) \<leftarrow> acquired dbg rl 77 cost_one now;
     rl \<leftarrow> commit dbg rl p1 Confirmed now;
     (rl, d) \<leftarrow> denied dbg rl 77 cost_one now;
     let fb = \<lparr>fb_retry_after = dur_zero, fb_scope = FbRoute, fb_remaining = None,
       fb_reset_after = None, fb_bucket_remap = Some 999\<rparr>;
     rl \<leftarrow> apply_feedback dbg rl 77 fb now;
     (rl, p2) \<leftarrow> acquired dbg rl 77 cost_one now;
     check (p_key p2 = 999)
   }"

definition global_feedback_blocks_all_keys :: "bool \<Rightarrow> unit option" where
  "global_feedback_blocks_all_keys dbg = do {
     cfg \<leftarrow> test_cfg 10 (from_secs 10);
     let rl = limiter_new cfg;
     rl \<leftarrow> apply_feedback dbg rl 1 (feedback_new (from_secs 3) FbGlobal) (from_secs 0);
     (rl, d) \<leftarrow> denied dbg rl 2 cost_one (from_secs 1);
     check (retry_after d = from_secs 2)
   }"

definition apply_feedback_duration_max_saturates_and_does_not_panic :: "bool \<Rightarrow> unit option" where
  "apply_feedback_duration_max_saturates_and_does_not_panic dbg = do {
     cfg \<leftarrow> test_cfg 10 (from_secs 10);
     let rl = limiter_new cfg;
     rl \<leftarrow> apply_feedback dbg rl 1 (feedback_new dur_max FbGlobal) (from_secs 1);
     (rl, d) \<leftarrow> denied dbg rl 2 cost_one (from_secs 2);
     check (retry_after d = dur_minus dur_max (from_secs 2))
   }"

definition outcome_global_feedback_duration_max_saturates_and_does_not_panic :: "bool \<Rightarrow> unit option" where
  "outcome_global_feedback_duration_max_saturates_and_does_not_panic dbg = do {
     cfg \<leftarrow> test_cfg 10 (from_secs 10);
     let rl = limiter_new cfg;
     (rl, p) \<leftarrow> acquired dbg rl 1 cost_one (from_secs 0);
     rl \<leftarrow> commit dbg rl p (RateLimitedFeedback dur_max ScopeGlobal None) (from_secs 1);
     (rl, d) \<leftarrow> denied dbg rl 2 cost_one (from_secs 2);
     check (retry_after d = dur_minus dur_max (from_secs 2))
   }"

definition outcome_key_feedback_duration_max_saturates_and_does_not_panic :: "bool \<Rightarrow> unit option" where
  "outcome_key_feedback_duration_max_saturates_and_does_not_panic dbg = do {
     cfg \<leftarrow> test_cfg 10 (from_secs 10);
     let rl = limiter_new cfg;
     (rl, p) \<leftarrow> acquired dbg rl 1 cost_one (from_secs 0);
     rl \<leftarrow> commit dbg rl p (RateLimitedFeedback dur_max ScopeKey None) (from_secs 1);
     (rl, d) \<leftarrow> denied dbg rl 1 cost_one (from_secs 2);
     check (retry_after d = dur_minus dur_max (from_secs 2))
   }"

lemma feedback_tests_pass:
  "feedback_blocks_key_until_deadline_and_unknown_key_is_ok dbg = Some ()"
  "feedback_remaining_zero_reset_after_extends_block dbg = Some ()"
  "feedback_bucket_remap_moves_future_acquires_to_new_bucket dbg = Some ()"
  "global_feedback_blocks_all_keys dbg = Some ()"
  "apply_feedback_duration_max_saturates_and_does_not_panic dbg = Some ()"
  "outcome_global_feedback_duration_max_saturates_and_does_not_panic dbg = Some ()"
  "outcome_key_feedback_duration_max_saturates_and_does_not_panic dbg = Some ()"
  by (simp add: feedback_blocks_key_until_deadline_and_unknown_key_is_ok_def eval_simps,
      simp add: feedback_remaining_zero_reset_after_extends_block_def eval_simps,
      simp add: feedback_bucket_remap_moves_future_acquires_to_new_bucket_def eval_simps,
      simp add: global_feedback_blocks_all_keys_def eval_simps,
      simp add: apply_feedback_duration_max_saturates_and_does_not_panic_def eval_simps,
      simp add: outcome_global_feedback_duration_max_saturates_and_does_not_panic_def eval_simps,
      simp add: outcome_key_feedback_duration_max_saturates_and_does_not_panic_def eval_simps)

section \<open>limiter.rs: slow start and eviction\<close>

definition slow_start_scales_capacity_and_retry_after_is_actionable :: "bool \<Rightarrow> unit option" where
  "slow_start_scales_capacity_and_retry_after_is_actionable dbg = do {
     cfg0 \<leftarrow> test_cfg 10 (from_secs 10);
     let cfg = with_slow_start cfg0 (slow_start_new (from_secs 10));
     let rl = limiter_new_at cfg (from_secs 0);
     (rl, d0) \<leftarrow> denied dbg rl 1 cost_one (from_secs 0);
     check (retry_after d0 = from_secs 1);
     six \<leftarrow> cost_new 6;
     (rl, d_mid) \<leftarrow> denied dbg rl 1 six (from_secs 5);
     check (retry_after d_mid = from_secs 1);
     (rl, p) \<leftarrow> acquired dbg rl 1 six (from_secs 6);
     Some ()
   }"

definition bounded_keys_eviction_fifo :: "bool \<Rightarrow> unit option" where
  "bounded_keys_eviction_fifo dbg = do {
     cfg0 \<leftarrow> unwrap (fixed_window_bounded 1 (from_secs 10) (Some 1));
     let cfg = with_overflow_policy cfg0 EvictOldestKey;
     let rl = limiter_new cfg;
     let now = from_secs 0;
     (rl, p1) \<leftarrow> acquired dbg rl 1 cost_one now;
     rl \<leftarrow> commit dbg rl p1 Confirmed now;
     check (tracked_keys rl = 1);
     (rl, p2) \<leftarrow> acquired dbg rl 2 cost_one now;
     rl \<leftarrow> commit dbg rl p2 Confirmed now;
     check (tracked_keys rl = 1);
     (rl, p3) \<leftarrow> acquired dbg rl 1 cost_one now;
     check (tracked_keys rl = 1)
   }"

definition eviction_does_not_evict_outstanding_reservations :: "bool \<Rightarrow> unit option" where
  "eviction_does_not_evict_outstanding_reservations dbg = do {
     cfg0 \<leftarrow> unwrap (fixed_window_bounded 10 (from_secs 10) (Some 1));
     let cfg = with_overflow_policy cfg0 EvictOldestKey;
     let rl = limiter_new cfg;
     let now = from_secs 0;
     (rl, p) \<leftarrow> acquired dbg rl 1 cost_one now;
     (rl, d) \<leftarrow> denied dbg rl 2 cost_one now;
     check (retry_after d = from_secs 10);
     check (tracked_keys rl = 1)
   }"

definition eviction_skips_keys_with_outstanding_reservations :: "bool \<Rightarrow> unit option" where
  "eviction_skips_keys_with_outstanding_reservations dbg = do {
     cfg0 \<leftarrow> unwrap (fixed_window_bounded 10 (from_secs 10) (Some 2));
     let cfg = with_overflow_policy cfg0 EvictOldestKey;
     let rl = limiter_new cfg;
     let now = from_secs 0;
     (rl, p1) \<leftarrow> acquired dbg rl 1 cost_one now;
     (rl, p2) \<leftarrow> acquired dbg rl 2 cost_one now;
     rl \<leftarrow> commit dbg rl p2 Confirmed now;
     (rl, p3) \<leftarrow> acquired dbg rl 3 cost_one now;
     rl \<leftarrow> commit dbg rl p3 Confirmed now;
     Some ()
   }"

lemma eviction_tests_pass:
  "slow_start_scales_capacity_and_retry_after_is_actionable dbg = Some ()"
  "bounded_keys_eviction_fifo dbg = Some ()"
  "eviction_does_not_evict_outstanding_reservations dbg = Some ()"
  "eviction_skips_keys_with_outstanding_reservations dbg = Some ()"
  by (simp add: slow_start_scales_capacity_and_retry_after_is_actionable_def eval_simps,
      simp add: bounded_keys_eviction_fifo_def eval_simps,
      simp add: eviction_does_not_evict_outstanding_reservations_def eval_simps,
      simp add: eviction_skips_keys_with_outstanding_reservations_def eval_simps)

section \<open>limiter.rs: observers\<close>

text \<open>
  The observers of the tests. The limiter records whom it calls with what, in order; the state of an
  observer is folded from the calls it gets. A method that is not overridden does nothing.
\<close>

record counting_observer =
  co_denies :: u32
  co_feedbacks :: u32

definition counting_observer_new :: counting_observer where
  "counting_observer_new = \<lparr>co_denies = 0, co_feedbacks = 0\<rparr>"

fun counting_observer_on :: "counting_observer \<Rightarrow> observer_call \<Rightarrow> counting_observer" where
  "counting_observer_on o' (OnDeny ev) = o'\<lparr>co_denies := co_denies o' + 1\<rparr>"
| "counting_observer_on o' (OnFeedback ev) = o'\<lparr>co_feedbacks := co_feedbacks o' + 1\<rparr>"

fun recording_observer_on :: "feedback_event list \<Rightarrow> observer_call \<Rightarrow> feedback_event list" where
  "recording_observer_on evs (OnDeny ev) = evs"
| "recording_observer_on evs (OnFeedback ev) = evs @ [ev]"

definition observer_state :: "('o \<Rightarrow> observer_call \<Rightarrow> 'o) \<Rightarrow> 'o \<Rightarrow> limiter \<Rightarrow> observer_id \<Rightarrow> 'o" where
  "observer_state on o' rl ob = foldl on o' (map snd (filter (\<lambda>x. fst x = ob) (l_calls rl)))"

lemmas observer_tests_eval [eval_simps] = observer_state_def counting_observer_new_def

text \<open>The counter of denials is the number of calls on a denial, as long as it does not wrap.\<close>

lemma counting_observer_counts:
  "unat (co_denies (foldl counting_observer_on o' cs)) =
    (unat (co_denies o') + length (filter (\<lambda>x. case x of OnDeny _ \<Rightarrow> True | _ \<Rightarrow> False) cs)) mod 2 ^ 32"
proof (induction cs arbitrary: o')
  case Nil
  show ?case using unat_word_less [of "co_denies o'"] by simp
next
  case (Cons x cs)
  show ?case by (cases x) (simp_all add: Cons.IH unat_word_ariths mod_simps)
qed

definition observer_hooks_fire_once_for_deny_and_feedback :: "bool \<Rightarrow> unit option" where
  "observer_hooks_fire_once_for_deny_and_feedback dbg = do {
     cfg \<leftarrow> test_cfg 1 (from_secs 10);
     let rl = set_observer (limiter_new cfg) 1;
     rl \<leftarrow> apply_feedback dbg rl 1 (feedback_new (from_secs 2) FbKey) (from_secs 0);
     (rl, r) \<leftarrow> try_acquire dbg rl 1 cost_one (from_secs 1);
     let counts = observer_state counting_observer_on counting_observer_new rl 1;
     check (co_feedbacks counts = 1);
     check (co_denies counts = 1)
   }"

definition feedback_bucket_remap_event_reports_only_applied_remaps :: "bool \<Rightarrow> unit option" where
  "feedback_bucket_remap_event_reports_only_applied_remaps dbg = do {
     cfg \<leftarrow> unwrap (fixed_window_bounded 1 (from_secs 10) (Some 1));
     let rl = set_observer (limiter_new cfg) 1;
     rl \<leftarrow> apply_feedback dbg rl 1
       \<lparr>fb_retry_after = dur_zero, fb_scope = FbRoute, fb_remaining = None, fb_reset_after = None,
        fb_bucket_remap = Some 10\<rparr> (from_secs 0);
     rl \<leftarrow> apply_feedback dbg rl 2
       \<lparr>fb_retry_after = dur_zero, fb_scope = FbRoute, fb_remaining = None, fb_reset_after = None,
        fb_bucket_remap = Some 20\<rparr> (from_secs 0);
     (case observer_state recording_observer_on [] rl 1 of
        [ev0, ev1] \<Rightarrow> do {
          check (fe_route_key ev0 = 1);
          check (fe_bucket_key ev0 = 10);
          check (fe_bucket_remap ev0 = Some 10);
          check (fe_route_key ev1 = 2);
          check (fe_bucket_key ev1 = 2);
          check (fe_bucket_remap ev1 = None)
        }
      | _ \<Rightarrow> None)
   }"

lemma observer_tests_pass:
  "observer_hooks_fire_once_for_deny_and_feedback dbg = Some ()"
  "feedback_bucket_remap_event_reports_only_applied_remaps dbg = Some ()"
  by (simp add: observer_hooks_fire_once_for_deny_and_feedback_def eval_simps,
      simp add: feedback_bucket_remap_event_reports_only_applied_remaps_def eval_simps)

section \<open>limiter.rs: credit pools\<close>

text \<open>Sending \<open>n\<close> times at one instant from a pool that has the credits takes them all, one after the other.\<close>

lemma send_many_pool:
  assumes "cfg_algorithm (l_cfg rl) = CfgTokenBucket capacity r" and "cfg_slow_start (l_cfg rl) = None"
    and "l_global_blocked_until rl = None" and "fmlookup (l_route_map rl) k = None"
    and "fmlookup (l_buckets rl) k = Some \<lparr>blocked_until = None, algo = AlgoTokenBucket
      \<lparr>tb_last_update = now, tb_credits = m, tb_in_flight = 0\<rparr>\<rparr>"
    and "n * weight c \<le> unat m" and "unat m \<le> unat capacity"
  shows "send_many dbg n rl k c SentNoConfirm now = Some (rl\<lparr>l_buckets :=
    fmupd k \<lparr>blocked_until = None, algo = AlgoTokenBucket
      \<lparr>tb_last_update = now, tb_credits = m - of_nat (n * weight c), tb_in_flight = 0\<rparr>\<rparr> (l_buckets rl)\<rparr>)"
  using assms
proof (induction n arbitrary: rl m)
  case 0
  then have "fmupd k \<lparr>blocked_until = None, algo = AlgoTokenBucket
      \<lparr>tb_last_update = now, tb_credits = m, tb_in_flight = 0\<rparr>\<rparr> (l_buckets rl) = l_buckets rl"
    by (intro fmap_ext) auto
  then show ?case by simp
next
  case (Suc n)
  let ?want = "ucast (cost_get c) :: u64"
  have want: "unat ?want = weight c" by (simp add: weight_def unat_ucast_wide)
  have le: "?want \<le> m" "\<not> capacity < ?want" "?want \<noteq> 0" "capacity \<noteq> 0"
    using Suc.prems(6,7) want weight_pos [of c] by (auto simp: word_le_nat_alt word_less_nat_alt)
  let ?b = "\<lparr>blocked_until = None, algo = AlgoTokenBucket
      \<lparr>tb_last_update = now, tb_credits = m - ?want, tb_in_flight = 0\<rparr>\<rparr>"
  have "sat_sub (sat_add 0 ?want) ?want = 0"
    by (simp add: sat_sub_def)
  then have step: "send_many dbg (Suc n) rl k c SentNoConfirm now =
      send_many dbg n (rl\<lparr>l_buckets := fmupd k ?b (l_buckets rl)\<rparr>) k c SentNoConfirm now"
    using Suc.prems le
    by (simp add: acquired_def try_acquire_def global_wait_def effective_algorithm_def slow_start_pre_deny_def
        ensure_bucket_capacity_def resolve_bucket_key_def reserve_entry_def bucket_try_reserve_def
        clear_expired_block_def bucket_decide_def token_try_reserve_def tb_try_reserve_def tb_refill_def
        unwrap_def commit_def outcome_backoff_def bucket_commit_def token_commit_def tb_commit_def Let_def)
  have m: "unat (m - ?want) = unat m - weight c" using le(1) by (simp add: unat_minus_fits want)
  have "of_nat (weight c) = ?want" by (simp only: want [symmetric] of_nat_unat ucast_id)
  then have "m - of_nat (Suc n * weight c) = m - ?want - of_nat (n * weight c)" by (simp add: algebra_simps)
  moreover have "n * weight c \<le> unat (m - ?want)" "unat (m - ?want) \<le> unat capacity"
    using Suc.prems(6,7) by (simp_all add: m)
  ultimately show ?case
    using Suc.IH [of "rl\<lparr>l_buckets := fmupd k ?b (l_buckets rl)\<rparr>" "m - ?want"] Suc.prems(1-4) step by (simp add: diff_diff_eq)
qed

text \<open>The first of them brings the pool up to the instant.\<close>

lemma send_first:
  "send_many dbg 100 rl k c out now =
    do { (rl, p) \<leftarrow> acquired dbg rl k c now; rl \<leftarrow> commit dbg rl p out now; send_many dbg 99 rl k c out now }"
  "send_many dbg 20 rl k c out now =
    do { (rl, p) \<leftarrow> acquired dbg rl k c now; rl \<leftarrow> commit dbg rl p out now; send_many dbg 19 rl k c out now }"
  using send_many.simps(2) [of dbg 99 rl k c out now] send_many.simps(2) [of dbg 19 rl k c out now]
  by (simp_all del: send_many.simps)

definition token_bucket_deribit_non_matching_engine_defaults_example :: "bool \<Rightarrow> unit option" where
  "token_bucket_deribit_non_matching_engine_defaults_example dbg = do {
     let rl = limiter_new (token_bucket 50000 10000);
     let now = from_secs 0;
     cost \<leftarrow> cost_new 500;
     rl \<leftarrow> send_many dbg 100 rl 1 cost SentNoConfirm now;
     (rl, d) \<leftarrow> denied dbg rl 1 cost now;
     check (retry_after d = from_millis 50);
     (rl, p) \<leftarrow> acquired dbg rl 1 cost (from_millis 50);
     rl \<leftarrow> commit dbg rl p SentNoConfirm (from_millis 50);
     let t = from_millis 1050;
     rl \<leftarrow> send_many dbg 20 rl 1 cost SentNoConfirm t;
     (rl, d) \<leftarrow> denied dbg rl 1 cost t;
     Some ()
   }"

definition token_bucket_deribit_subscribe_limits_example :: "bool \<Rightarrow> unit option" where
  "token_bucket_deribit_subscribe_limits_example dbg = do {
     let rl = limiter_new (token_bucket 30000 10000);
     let now = from_secs 0;
     cost \<leftarrow> cost_new 3000;
     rl \<leftarrow> send_many dbg 10 rl 1 cost SentNoConfirm now;
     (rl, d) \<leftarrow> denied dbg rl 1 cost now;
     check (retry_after d = from_millis 300)
   }"

definition token_bucket_update_semantics_capacity_and_refill :: "bool \<Rightarrow> unit option" where
  "token_bucket_update_semantics_capacity_and_refill dbg = do {
     let now0 = from_secs 0;
     cost \<leftarrow> cost_new 5;
     let rl = limiter_new (token_bucket 10 0);
     (rl, p) \<leftarrow> acquired dbg rl 1 cost now0;
     rl \<leftarrow> commit dbg rl p SentNoConfirm now0;
     (rl, r) \<leftarrow> update_config dbg rl (token_bucket 20 0) now0;
     unwrap r;
     rl \<leftarrow> send_many dbg 3 rl 1 cost SentNoConfirm now0;
     (rl, d) \<leftarrow> denied dbg rl 1 cost now0;
     let rl = limiter_new (token_bucket 20 0);
     (rl, p) \<leftarrow> acquired dbg rl 1 cost now0;
     rl \<leftarrow> commit dbg rl p SentNoConfirm now0;
     (rl, r) \<leftarrow> update_config dbg rl (token_bucket 10 0) now0;
     unwrap r;
     rl \<leftarrow> send_many dbg 2 rl 1 cost SentNoConfirm now0;
     (rl, d) \<leftarrow> denied dbg rl 1 cost now0;
     let rl = limiter_new (token_bucket 10 10);
     ten \<leftarrow> cost_new 10;
     (rl, p) \<leftarrow> acquired dbg rl 1 ten now0;
     rl \<leftarrow> commit dbg rl p SentNoConfirm now0;
     (rl, d1) \<leftarrow> denied dbg rl 1 cost_one now0;
     check (retry_after d1 = from_millis 100);
     (rl, r) \<leftarrow> update_config dbg rl (token_bucket 10 100) now0;
     unwrap r;
     (rl, d2) \<leftarrow> denied dbg rl 1 cost_one now0;
     check (retry_after d2 = from_millis 10)
   }"

definition token_bucket_respects_max_keys_when_set :: "bool \<Rightarrow> unit option" where
  "token_bucket_respects_max_keys_when_set dbg = do {
     let cfg = with_max_keys (token_bucket 10 10) (Some 1);
     let rl = limiter_new cfg;
     let now = from_secs 0;
     (rl, p1) \<leftarrow> acquired dbg rl 1 cost_one now;
     rl \<leftarrow> commit dbg rl p1 Confirmed now;
     (rl, d) \<leftarrow> denied dbg rl 2 cost_one now;
     check (retry_after d = from_secs 1)
   }"

lemma pool_tests_pass:
  "token_bucket_deribit_non_matching_engine_defaults_example dbg = Some ()"
  "token_bucket_deribit_subscribe_limits_example dbg = Some ()"
  "token_bucket_update_semantics_capacity_and_refill dbg = Some ()"
  "token_bucket_respects_max_keys_when_set dbg = Some ()"
  by (simp add: token_bucket_deribit_non_matching_engine_defaults_example_def eval_simps send_first send_many_pool
        del: send_many_numeral,
      simp add: token_bucket_deribit_subscribe_limits_example_def eval_simps,
      simp add: token_bucket_update_semantics_capacity_and_refill_def eval_simps,
      simp add: token_bucket_respects_max_keys_when_set_def eval_simps)

section \<open>limiter.rs: updates\<close>

definition update_config_rejects_algorithm_change_with_outstanding_permits :: "bool \<Rightarrow> unit option" where
  "update_config_rejects_algorithm_change_with_outstanding_permits dbg = do {
     cfg \<leftarrow> test_cfg 1 (from_secs 1);
     let rl = limiter_new cfg;
     (rl, p) \<leftarrow> acquired dbg rl 1 cost_one (from_secs 0);
     (rl, r) \<leftarrow> update_config dbg rl (token_bucket 10 10) (from_secs 0);
     err \<leftarrow> unwrap_err r;
     check (err = AlgorithmChanged)
   }"

definition update_config_rejects_fixed_window_window_change_with_outstanding_permits :: "bool \<Rightarrow> unit option" where
  "update_config_rejects_fixed_window_window_change_with_outstanding_permits dbg = do {
     cfg \<leftarrow> test_cfg 1 (from_secs 1);
     let rl = limiter_new cfg;
     (rl, p) \<leftarrow> acquired dbg rl 1 cost_one (from_secs 0);
     cfg2 \<leftarrow> unwrap (fixed_window 1 (from_secs 2));
     (rl, r) \<leftarrow> update_config dbg rl cfg2 (from_secs 0);
     err \<leftarrow> unwrap_err r;
     check (err = FixedWindowWindowChanged)
   }"

definition update_config_allows_fixed_window_window_change_without_outstanding_permits :: "bool \<Rightarrow> unit option" where
  "update_config_allows_fixed_window_window_change_without_outstanding_permits dbg = do {
     cfg \<leftarrow> test_cfg 1 (from_secs 1);
     let rl = limiter_new cfg;
     (rl, p) \<leftarrow> acquired dbg rl 1 cost_one (from_secs 0);
     rl \<leftarrow> commit dbg rl p Confirmed (from_secs 0);
     cfg2 \<leftarrow> unwrap (fixed_window 1 (from_secs 2));
     (rl, r) \<leftarrow> update_config dbg rl cfg2 (from_secs 0);
     unwrap r;
     Some ()
   }"

lemma update_tests_pass:
  "update_config_rejects_algorithm_change_with_outstanding_permits dbg = Some ()"
  "update_config_rejects_fixed_window_window_change_with_outstanding_permits dbg = Some ()"
  "update_config_allows_fixed_window_window_change_without_outstanding_permits dbg = Some ()"
  by (simp add: update_config_rejects_algorithm_change_with_outstanding_permits_def eval_simps,
      simp add: update_config_rejects_fixed_window_window_change_with_outstanding_permits_def eval_simps,
      simp add: update_config_allows_fixed_window_window_change_without_outstanding_permits_def eval_simps)

section \<open>bucket.rs\<close>

text \<open>\<open>try_reserve(..).unwrap()\<close> and \<open>.unwrap_err()\<close> on a bucket.\<close>

definition reserved_in ::
  "bool \<Rightarrow> bucket_state \<Rightarrow> key \<Rightarrow> algorithm_config \<Rightarrow> cost \<Rightarrow> duration \<Rightarrow> (bucket_state \<times> permit) option" where
  "reserved_in dbg b k a c now =
     do { (b, r) \<leftarrow> bucket_try_reserve dbg b k a c now; p \<leftarrow> unwrap r; Some (b, p) }"

definition refused_by ::
  "bool \<Rightarrow> bucket_state \<Rightarrow> key \<Rightarrow> algorithm_config \<Rightarrow> cost \<Rightarrow> duration \<Rightarrow> (bucket_state \<times> bucket_deny) option" where
  "refused_by dbg b k a c now =
     do { (b, r) \<leftarrow> bucket_try_reserve dbg b k a c now; d \<leftarrow> unwrap_err r; Some (b, d) }"

lemmas bucket_tests_eval [eval_simps] = reserved_in_def refused_by_def

section \<open>bucket.rs: the tests\<close>

definition fixed_window_retry_after_decreases_over_time :: "bool \<Rightarrow> unit option" where
  "fixed_window_retry_after_decreases_over_time dbg = do {
     let cfg = CfgFixedWindow 2 (from_secs 10);
     b \<leftarrow> bucket_new dbg (from_secs 0) cfg;
     (b, p1) \<leftarrow> reserved_in dbg b 1 cfg cost_one (from_secs 0);
     (b, p2) \<leftarrow> reserved_in dbg b 1 cfg cost_one (from_secs 0);
     (b, d1) \<leftarrow> refused_by dbg b 1 cfg cost_one (from_secs 1);
     check (retry_after (bd_deny d1) = from_secs 9);
     (b, d2) \<leftarrow> refused_by dbg b 1 cfg cost_one (from_secs 9);
     check (retry_after (bd_deny d2) = from_secs 1)
   }"

definition token_bucket_blocks_until_refill :: "bool \<Rightarrow> unit option" where
  "token_bucket_blocks_until_refill dbg = do {
     let cfg = CfgTokenBucket 10 10;
     b \<leftarrow> bucket_new dbg (from_secs 0) cfg;
     ten \<leftarrow> cost_new 10;
     (b, p) \<leftarrow> reserved_in dbg b 1 cfg ten (from_secs 0);
     b \<leftarrow> bucket_commit dbg b p SentNoConfirm (from_secs 0) cfg;
     (b, d) \<leftarrow> refused_by dbg b 1 cfg cost_one (from_secs 0);
     check (retry_after (bd_deny d) = from_millis 100)
   }"

definition blocked_until_denies_before_algorithm_logic :: "bool \<Rightarrow> unit option" where
  "blocked_until_denies_before_algorithm_logic dbg = do {
     let cfg = CfgFixedWindow 10 (from_secs 10);
     b \<leftarrow> bucket_new dbg (from_secs 0) cfg;
     let b = apply_blocked_until b (from_secs 5);
     (b, d) \<leftarrow> refused_by dbg b (- 1) cfg cost_one (from_secs 1);
     check (bd_reason d = BlockedUntil);
     check (retry_after (bd_deny d) = from_secs 4)
   }"

definition fixed_window_cost_above_max_is_permanent_deny :: "bool \<Rightarrow> unit option" where
  "fixed_window_cost_above_max_is_permanent_deny dbg = do {
     let cfg = CfgFixedWindow 5 (from_secs 10);
     b \<leftarrow> bucket_new dbg (from_secs 0) cfg;
     six \<leftarrow> cost_new 6;
     (b, d) \<leftarrow> refused_by dbg b 1 cfg six (from_secs 0);
     check (bd_reason d = Unachievable);
     check (retry_after (bd_deny d) = dur_max)
   }"

lemma bucket_tests_pass:
  "fixed_window_retry_after_decreases_over_time dbg = Some ()"
  "token_bucket_blocks_until_refill dbg = Some ()"
  "blocked_until_denies_before_algorithm_logic dbg = Some ()"
  "fixed_window_cost_above_max_is_permanent_deny dbg = Some ()"
  by (simp add: fixed_window_retry_after_decreases_over_time_def eval_simps,
      simp add: token_bucket_blocks_until_refill_def eval_simps,
      simp add: blocked_until_denies_before_algorithm_logic_def eval_simps,
      simp add: fixed_window_cost_above_max_is_permanent_deny_def eval_simps)

section \<open>token_bucket.rs\<close>

definition pool_reserved :: "bool \<Rightarrow> token_state \<Rightarrow> u64 \<Rightarrow> u64 \<Rightarrow> cost \<Rightarrow> duration \<Rightarrow> token_state option" where
  "pool_reserved dbg s capacity r c now =
     do { (s, res) \<leftarrow> tb_try_reserve dbg s capacity r c now; unwrap res; Some s }"

definition pool_refused ::
  "bool \<Rightarrow> token_state \<Rightarrow> u64 \<Rightarrow> u64 \<Rightarrow> cost \<Rightarrow> duration \<Rightarrow> (token_state \<times> deny) option" where
  "pool_refused dbg s capacity r c now =
     do { (s, res) \<leftarrow> tb_try_reserve dbg s capacity r c now; d \<leftarrow> unwrap_err res; Some (s, d) }"

primrec spend_many :: "bool \<Rightarrow> nat \<Rightarrow> token_state \<Rightarrow> u64 \<Rightarrow> u64 \<Rightarrow> cost \<Rightarrow> duration \<Rightarrow> token_state option" where
  "spend_many dbg 0 s capacity r c now = Some s"
| "spend_many dbg (Suc n) s capacity r c now =
     do { s \<leftarrow> pool_reserved dbg s capacity r c now; spend_many dbg n (tb_commit s c) capacity r c now }"

lemma spend_many_numeral [eval_simps]:
  "spend_many dbg (numeral n) s capacity r c now =
     do { s \<leftarrow> pool_reserved dbg s capacity r c now; spend_many dbg (pred_numeral n) (tb_commit s c) capacity r c now }"
  by (simp add: numeral_eq_Suc)

lemmas token_tests_eval [eval_simps] = pool_reserved_def pool_refused_def

section \<open>token_bucket.rs: the tests\<close>

definition basic_burst_then_deny :: "bool \<Rightarrow> unit option" where
  "basic_burst_then_deny dbg = do {
     let s = tb_new (from_secs 0) 10;
     s \<leftarrow> spend_many dbg 10 s 10 1 cost_one (from_secs 0);
     (s, d) \<leftarrow> pool_refused dbg s 10 1 cost_one (from_secs 0);
     check (dur_zero < retry_after d)
   }"

definition refill_adds_credits_up_to_capacity :: "bool \<Rightarrow> unit option" where
  "refill_adds_credits_up_to_capacity dbg = do {
     let s = tb_new (from_secs 0) 10;
     ten \<leftarrow> cost_new 10;
     s \<leftarrow> pool_reserved dbg s 10 10 ten (from_secs 0);
     let s = tb_commit s ten;
     check (tb_credits s = 0);
     let s = tb_refill s 10 10 (from_millis 500);
     check (tb_credits s = 5);
     let s = tb_refill s 10 10 (from_secs 2);
     check (tb_credits s = 10)
   }"

definition weighted_cost_consumes_proportionally :: "bool \<Rightarrow> unit option" where
  "weighted_cost_consumes_proportionally dbg = do {
     let s = tb_new (from_secs 0) 10;
     seven \<leftarrow> cost_new 7;
     s \<leftarrow> pool_reserved dbg s 10 10 seven (from_secs 0);
     check (tb_credits s = 3)
   }"

definition retry_after_is_minimal_delay_until_enough :: "bool \<Rightarrow> unit option" where
  "retry_after_is_minimal_delay_until_enough dbg = do {
     let s = tb_new (from_secs 0) 10;
     ten \<leftarrow> cost_new 10;
     s \<leftarrow> pool_reserved dbg s 10 10 ten (from_secs 0);
     let s = tb_commit s ten;
     (s, d) \<leftarrow> pool_refused dbg s 10 10 cost_one (from_secs 0);
     check (retry_after d = from_millis 100)
   }"

definition zero_refill_is_permanent_after_exhaustion :: "bool \<Rightarrow> unit option" where
  "zero_refill_is_permanent_after_exhaustion dbg = do {
     let s = tb_new (from_secs 0) 2;
     s \<leftarrow> pool_reserved dbg s 2 0 cost_one (from_secs 0);
     let s = tb_commit s cost_one;
     s \<leftarrow> pool_reserved dbg s 2 0 cost_one (from_secs 0);
     let s = tb_commit s cost_one;
     (s, d) \<leftarrow> pool_refused dbg s 2 0 cost_one (from_secs 0);
     check (retry_after d = dur_max)
   }"

definition cost_above_capacity_is_permanent_deny :: "bool \<Rightarrow> unit option" where
  "cost_above_capacity_is_permanent_deny dbg = do {
     let s = tb_new (from_secs 0) 2;
     three \<leftarrow> cost_new 3;
     (s, d) \<leftarrow> pool_refused dbg s 2 10 three (from_secs 0);
     check (retry_after d = dur_max)
   }"

lemma token_tests_pass:
  "basic_burst_then_deny dbg = Some ()"
  "refill_adds_credits_up_to_capacity dbg = Some ()"
  "weighted_cost_consumes_proportionally dbg = Some ()"
  "retry_after_is_minimal_delay_until_enough dbg = Some ()"
  "zero_refill_is_permanent_after_exhaustion dbg = Some ()"
  "cost_above_capacity_is_permanent_deny dbg = Some ()"
  by (simp add: basic_burst_then_deny_def eval_simps,
      simp add: refill_adds_credits_up_to_capacity_def eval_simps,
      simp add: weighted_cost_consumes_proportionally_def eval_simps,
      simp add: retry_after_is_minimal_delay_until_enough_def eval_simps,
      simp add: zero_refill_is_permanent_after_exhaustion_def eval_simps,
      simp add: cost_above_capacity_is_permanent_deny_def eval_simps)

section \<open>slow_start.rs, config.rs, types.rs\<close>

definition effective_max_scales_linearly_and_floors :: "bool \<Rightarrow> unit option" where
  "effective_max_scales_linearly_and_floors dbg = do {
     let slow = slow_start_new (from_secs 10);
     let started = from_secs 0;
     check (effective_max 10 slow started (from_secs 0) = 0);
     check (effective_max 10 slow started (from_secs 1) = 1);
     check (effective_max 10 slow started (from_secs 5) = 5);
     check (effective_max 10 slow started (from_secs 9) = 9);
     check (effective_max 10 slow started (from_secs 10) = 10)
   }"

definition retry_after_for_cost_reaches_next_integer_step :: "bool \<Rightarrow> unit option" where
  "retry_after_for_cost_reaches_next_integer_step dbg = do {
     let slow = slow_start_new (from_secs 10);
     let started = from_secs 0;
     check (retry_after_for_cost 10 slow started (from_secs 0) 1 = from_secs 1);
     check (retry_after_for_cost 10 slow started (from_secs 5) 6 = from_secs 1);
     check (retry_after_for_cost 10 slow started (from_secs 6) 6 = from_secs 0)
   }"

definition effective_u64_scales_linearly_and_floors :: "bool \<Rightarrow> unit option" where
  "effective_u64_scales_linearly_and_floors dbg = do {
     let slow = slow_start_new (from_secs 10);
     let started = from_secs 0;
     check (effective_u64 10 slow started (from_secs 0) = 0);
     check (effective_u64 10 slow started (from_secs 1) = 1);
     check (effective_u64 10 slow started (from_secs 10) = 10)
   }"

definition fixed_window_rejects_zero_window :: "bool \<Rightarrow> unit option" where
  "fixed_window_rejects_zero_window dbg = do {
     err \<leftarrow> unwrap_err (fixed_window 1 dur_zero);
     check (err = ZeroWindow)
   }"

definition cost_new_rejects_zero :: "bool \<Rightarrow> unit option" where
  "cost_new_rejects_zero dbg = do {
     check (cost_new 0 = None);
     c \<leftarrow> cost_new 1;
     check (cost_get c = 1)
   }"

lemma small_tests_pass:
  "effective_max_scales_linearly_and_floors dbg = Some ()"
  "retry_after_for_cost_reaches_next_integer_step dbg = Some ()"
  "effective_u64_scales_linearly_and_floors dbg = Some ()"
  "fixed_window_rejects_zero_window dbg = Some ()"
  "cost_new_rejects_zero dbg = Some ()"
  by (simp add: effective_max_scales_linearly_and_floors_def eval_simps,
      simp add: retry_after_for_cost_reaches_next_integer_step_def eval_simps,
      simp add: effective_u64_scales_linearly_and_floors_def eval_simps,
      simp add: fixed_window_rejects_zero_window_def eval_simps,
      simp add: cost_new_rejects_zero_def eval_simps)

section \<open>in_flight.rs\<close>

type_synonym test_table = "(u64, u64, u64) in_flight_table"

text \<open>The loop of the heap test, from \<open>i\<close>, \<open>n\<close> times; its waiter is the unit value.\<close>

primrec begin_and_complete ::
  "nat \<Rightarrow> u64 \<Rightarrow> duration \<Rightarrow> (u64, u64, unit) in_flight_table \<Rightarrow> (u64, u64, unit) in_flight_table option" where
  "begin_and_complete 0 i deadline t = Some t"
| "begin_and_complete (Suc n) i deadline t = do {
     let (t, r) = begin_entry t i 1 deadline ();
     check (r = New);
     let (t, ws) = complete_entry t i;
     begin_and_complete n (i + 1) deadline t
   }"

lemma begin_and_complete_empties:
  assumes "t_map t = fmempty" and "t_heap t = []" and "0 < t_max t"
  shows "\<exists>s. begin_and_complete n i deadline t = Some (t\<lparr>t_seq := s\<rparr>)"
  using assms
proof (induction n arbitrary: i t)
  case 0
  then show ?case by (auto intro: exI [of _ "t_seq t"])
next
  case (Suc n)
  have "begin_and_complete (Suc n) i deadline t = begin_and_complete n (i + 1) deadline (t\<lparr>t_seq := t_seq t + 1\<rparr>)"
    using Suc.prems
    by (cases t) (simp add: begin_entry_def complete_entry_def next_seq_def maybe_compact_heap_def heap_push_def heap_new_def
        fm_len_fmupd fmdrop_fmupd_same check_def Let_def)
  also have "\<exists>s. \<dots> = Some (t\<lparr>t_seq := s\<rparr>)"
    using Suc.IH [of "t\<lparr>t_seq := t_seq t + 1\<rparr>" "i + 1"] Suc.prems by auto
  finally show ?case .
qed

definition dedup_new_then_join_same_fp :: "bool \<Rightarrow> unit option" where
  "dedup_new_then_join_same_fp dbg = do {
     let t = (table_new 10 :: test_table);
     let (t, r) = begin_entry t 1 7 (from_secs 5) 10;
     check (r = New);
     let (t, r) = begin_entry t 1 7 (from_secs 5) 11;
     check (r = Joined);
     let (t, ws) = complete_entry t 1;
     check (ws = [10, 11])
   }"

definition dedup_payload_mismatch :: "bool \<Rightarrow> unit option" where
  "dedup_payload_mismatch dbg = do {
     let t = (table_new 10 :: test_table);
     let (t, r) = begin_entry t 1 7 (from_secs 5) 10;
     check (r = New);
     let (t, r) = begin_entry t 1 8 (from_secs 5) 11;
     check (r = PayloadMismatch);
     let (t, ws) = complete_entry t 1;
     check (ws = [10])
   }"

definition table_full_enforced :: "bool \<Rightarrow> unit option" where
  "table_full_enforced dbg = do {
     let t = (table_new 1 :: test_table);
     let (t, r) = begin_entry t 1 7 (from_secs 5) 10;
     check (r = New);
     let (t, r) = begin_entry t 2 7 (from_secs 5) 20;
     check (r = TableFull)
   }"

definition expire_removes_and_returns_waiters :: "bool \<Rightarrow> unit option" where
  "expire_removes_and_returns_waiters dbg = do {
     let t = (table_new 10 :: test_table);
     let (t, _) = begin_entry t 1 7 (from_secs 5) 10;
     let (t, _) = begin_entry t 2 7 (from_secs 2) 20;
     let (t, expired) = expire t (from_secs 3);
     check (expired = [(2, [20])]);
     check (table_len t = 1)
   }"

definition heap_does_not_grow_unbounded_when_entries_complete_before_deadlines :: "bool \<Rightarrow> unit option" where
  "heap_does_not_grow_unbounded_when_entries_complete_before_deadlines dbg = do {
     t \<leftarrow> begin_and_complete 130 0 (from_secs 60) (table_new 10000);
     check (table_is_empty t);
     check (t_heap t = [])
   }"

definition permit_attachment_refund_on_not_sent :: "bool \<Rightarrow> unit option" where
  "permit_attachment_refund_on_not_sent dbg = do {
     cfg \<leftarrow> unwrap (fixed_window 1 (from_secs 10));
     let rl = limiter_new cfg;
     let now = from_secs 0;
     (rl, p) \<leftarrow> acquired dbg rl 1 cost_one now;
     let entry = lf_new p (from_secs 1) ();
     (rl, ws) \<leftarrow> lf_finalize dbg entry rl NotSent now;
     (rl, p2) \<leftarrow> acquired dbg rl 1 cost_one now;
     Some ()
   }"

definition permit_attachment_no_refund_on_sent_no_confirm_or_expiry_by_default :: "bool \<Rightarrow> unit option" where
  "permit_attachment_no_refund_on_sent_no_confirm_or_expiry_by_default dbg = do {
     cfg \<leftarrow> unwrap (fixed_window 1 (from_secs 10));
     let rl = limiter_new cfg;
     let now = from_secs 0;
     (rl, p) \<leftarrow> acquired dbg rl 1 cost_one now;
     let entry = lf_new p (from_secs 1) ();
     (rl, ws) \<leftarrow> lf_finalize dbg entry rl SentNoConfirm now;
     (rl, d) \<leftarrow> denied dbg rl 1 cost_one now;
     cfg \<leftarrow> unwrap (fixed_window 1 (from_secs 10));
     let rl = limiter_new cfg;
     (rl, p) \<leftarrow> acquired dbg rl 1 cost_one now;
     let entry = lf_new p (from_secs 1) ();
     (rl, ws) \<leftarrow> lf_expire dbg entry rl CommitSentNoConfirm now;
     (rl, d) \<leftarrow> denied dbg rl 1 cost_one now;
     Some ()
   }"

lemma in_flight_tests_pass:
  "dedup_new_then_join_same_fp dbg = Some ()"
  "dedup_payload_mismatch dbg = Some ()"
  "table_full_enforced dbg = Some ()"
  "expire_removes_and_returns_waiters dbg = Some ()"
  "heap_does_not_grow_unbounded_when_entries_complete_before_deadlines dbg = Some ()"
  "permit_attachment_refund_on_not_sent dbg = Some ()"
  "permit_attachment_no_refund_on_sent_no_confirm_or_expiry_by_default dbg = Some ()"
  by (simp add: dedup_new_then_join_same_fp_def eval_simps,
      simp add: dedup_payload_mismatch_def eval_simps,
      simp add: table_full_enforced_def eval_simps,
      simp add: expire_removes_and_returns_waiters_def eval_simps,
      use begin_and_complete_empties [of "table_new 10000" 130 0 "from_secs 60"] in
        \<open>auto simp: heap_does_not_grow_unbounded_when_entries_complete_before_deadlines_def
          table_new_def heap_new_def table_is_empty_def check_def\<close>,
      simp add: permit_attachment_refund_on_not_sent_def eval_simps,
      simp add: permit_attachment_no_refund_on_sent_no_confirm_or_expiry_by_default_def eval_simps)

end
