(* ===== verification/Open_Gate_Properties.thy ===== *)
theory Open_Gate_Properties
  imports Open_Gate
begin

text \<open>
  The durable open gate: grants are spaced by the window within a process whatever fails, and
  across restarts when the gate fails closed; blocked attempts stay off the disk; the counters
  add up; and what each failure turns into.
\<close>

section \<open>Locks that only grow\<close>

text \<open>
  A lock value, in milliseconds, that no step lowers; a step that grants at \<open>t\<close> with window
  \<open>w\<close> finds the lock no later than \<open>t\<close> and leaves it at \<open>t + w\<close> or later. Steps of a run give
  its grants.
\<close>

type_synonym grant = "u64 \<times> u64"

inductive grants_run ::
  "('s \<Rightarrow> grant option \<Rightarrow> 's \<Rightarrow> bool) \<Rightarrow> 's \<Rightarrow> grant list \<Rightarrow> 's \<Rightarrow> bool" for stp where
  start: "grants_run stp s [] s"
| silent: "grants_run stp s gs s' \<Longrightarrow> stp s' None s'' \<Longrightarrow> grants_run stp s gs s''"
| grants: "grants_run stp s gs s' \<Longrightarrow> stp s' (Some gr) s'' \<Longrightarrow> grants_run stp s (gs @ [gr]) s''"

definition spaced :: "grant list \<Rightarrow> bool" where
  "spaced gs \<longleftrightarrow> sorted_wrt (\<lambda>(t, w) (t', w'). sat_add t w \<le> t') gs"

locale growing_lock =
  fixes inv :: "'s \<Rightarrow> bool" and lock_of :: "'s \<Rightarrow> u64" and stp :: "'s \<Rightarrow> grant option \<Rightarrow> 's \<Rightarrow> bool"
  assumes inv_step: "inv s \<Longrightarrow> stp s gr s' \<Longrightarrow> inv s'"
    and lock_grows: "inv s \<Longrightarrow> stp s gr s' \<Longrightarrow> lock_of s \<le> lock_of s'"
    and lock_grants: "inv s \<Longrightarrow> stp s (Some (t, w)) s' \<Longrightarrow> lock_of s \<le> t \<and> sat_add t w \<le> lock_of s'"
begin

lemma run_spaced:
  assumes "grants_run stp s gs s'" and "inv s"
  shows "inv s' \<and> spaced gs \<and> (\<forall>(t, w) \<in> set gs. lock_of s \<le> t \<and> sat_add t w \<le> lock_of s') \<and> lock_of s \<le> lock_of s'"
  using assms
proof (induction rule: grants_run.induct)
  case (start s)
  then show ?case by (simp add: spaced_def)
next
  case (silent s gs s' s'')
  then have "inv s'" and "lock_of s' \<le> lock_of s''" using lock_grows by blast+
  with silent show ?case using inv_step by (auto intro: order_trans)
next
  case (grants s gs s' gr s'')
  obtain t w where gr: "gr = (t, w)" by fastforce
  have i: "inv s'" using grants by blast
  have l: "lock_of s' \<le> t" "sat_add t w \<le> lock_of s''" "lock_of s' \<le> lock_of s''"
    using lock_grants [OF i] lock_grows [OF i] grants.hyps(2) gr by auto
  with grants gr show ?case using inv_step
    by (fastforce simp: spaced_def sorted_wrt_append intro: order_trans)
qed

lemma run_grants_spaced: "grants_run stp s gs s' \<Longrightarrow> inv s \<Longrightarrow> spaced gs"
  using run_spaced by blast

end

section \<open>One attempt\<close>

abbreviation (input) window_ms :: "durable_open_gate \<Rightarrow> u64" where
  "window_ms g \<equiv> duration_to_millis (gc_window (g_cfg g))"

lemma sat_add_ge: "a \<le> sat_add a b"
  by (simp add: word_le_nat_alt unat_sat_add) (use unat_le_max [of a] in linarith)

lemma count_simps [simp]:
  "g_cfg (count_reads g) = g_cfg g" "g_cached_lock_until_ms (count_reads g) = g_cached_lock_until_ms g"
  "g_cfg (count_failure g) = g_cfg g" "g_cached_lock_until_ms (count_failure g) = g_cached_lock_until_ms g"
  "g_cfg (count_blocked g) = g_cfg g" "g_cached_lock_until_ms (count_blocked g) = g_cached_lock_until_ms g"
  "g_cfg (count_allowed g) = g_cfg g" "g_cached_lock_until_ms (count_allowed g) = g_cached_lock_until_ms g"
  "g_cfg (count_write g) = g_cfg g" "g_cached_lock_until_ms (count_write g) = g_cached_lock_until_ms g"
  "g_cfg (count_attempt g) = g_cfg g" "g_cached_lock_until_ms (count_attempt g) = g_cached_lock_until_ms g"
  by (simp_all add: count_defs)

text \<open>The ways an attempt ends, with the gate and the store it leaves.\<close>

lemma persist_error_cases:
  assumes "persist_error_decision g err now_ms = (g', r)"
  obtains (closed) "gc_fail_closed (g_cfg g)" "g' = count_failure g" "r = Inl err"
    | (opened) "\<not> gc_fail_closed (g_cfg g)"
        "g' = count_allowed ((count_failure g)\<lparr>g_cached_lock_until_ms := sat_add now_ms (window_ms g)\<rparr>)"
        "r = Inr (Allowed (millis_to_duration (sat_add now_ms (window_ms g))))"
  using assms by (auto simp: persist_error_decision_def Let_def split: if_splits)

definition gate_record :: "durable_open_gate \<Rightarrow> u64 \<Rightarrow> open_gate_record" where
  "gate_record g now_ms =
     \<lparr>rec_version = 1, rec_lock_until_ms = sat_add now_ms (window_ms g), rec_updated_at_ms = now_ms,
      rec_window_ms = window_ms g\<rparr>"

definition gate_slot :: "durable_open_gate \<Rightarrow> string \<times> string" where
  "gate_slot g = (gc_db_name (g_cfg g), gc_record_key (g_cfg g))"

lemma try_acquire_open_cases:
  assumes "try_acquire_open enc dec io g s now = (g', s', r)"
  obtains (cached) "duration_to_millis now < g_cached_lock_until_ms g"
        "g' = count_blocked (count_attempt g)" "s' = s"
        "r = Inr (Blocked (millis_to_duration (g_cached_lock_until_ms g)))"
    | (no_txn) e where "g_cached_lock_until_ms g \<le> duration_to_millis now" "ai_write_txn io = Some e"
        "g' = count_attempt g" "s' = s" "r = Inl (Heed e)"
    | (failed) err where "g_cached_lock_until_ms g \<le> duration_to_millis now" "ai_write_txn io = None"
        "persist_error_decision (count_attempt g) err (duration_to_millis now) = (g', r)"
        "s' = s \<or> (\<exists>b l. enc (gate_record g (duration_to_millis now)) = Inr b \<and> s' = s(gate_slot g \<mapsto> b) \<and>
          read_lock_until_ms dec (ai_get io) g s = Inr l \<and> l \<le> duration_to_millis now)"
    | (blocked) l where "g_cached_lock_until_ms g \<le> duration_to_millis now" "ai_write_txn io = None"
        "read_lock_until_ms dec (ai_get io) g s = Inr l" "duration_to_millis now < l"
        "g' = count_blocked (count_reads ((count_attempt g)\<lparr>g_cached_lock_until_ms := l\<rparr>))" "s' = s"
        "r = Inr (Blocked (millis_to_duration l))"
    | (granted) l b where "g_cached_lock_until_ms g \<le> duration_to_millis now" "ai_write_txn io = None"
        "read_lock_until_ms dec (ai_get io) g s = Inr l" "l \<le> duration_to_millis now"
        "enc (gate_record g (duration_to_millis now)) = Inr b" "s' = s(gate_slot g \<mapsto> b)"
        "g' = count_allowed (count_write (count_reads
          ((count_attempt g)\<lparr>g_cached_lock_until_ms := sat_add (duration_to_millis now) (window_ms g)\<rparr>)))"
        "r = Inr (Allowed (millis_to_duration (sat_add (duration_to_millis now) (window_ms g))))"
proof -
  have same: "read_lock_until_ms dec f (count_attempt g) s = read_lock_until_ms dec f g s" for f
    by (simp add: read_lock_until_ms_def split: option.split)
  have later: "c \<le> t \<Longrightarrow> t < l \<Longrightarrow> max c l = l" for c t l :: u64
    by (rule max_absorb2) (blast intro: order_trans less_imp_le)
  show ?thesis
    using assms that
    by (auto simp: try_acquire_open_def persist_grant_def gate_record_def gate_slot_def Let_def same not_less
        less_max_iff_disj later split: if_splits option.splits sum.splits prod.splits)
qed

text \<open>The grant an attempt makes, if any: the instant and the window, in milliseconds.\<close>

definition grant_of ::
  "durable_open_gate \<Rightarrow> duration \<Rightarrow> 'h gate_error + open_gate_decision \<Rightarrow> grant option" where
  "grant_of g now r =
     (case r of Inr (Allowed _) \<Rightarrow> Some (duration_to_millis now, window_ms g) | _ \<Rightarrow> None)"

lemma attempt_cfg: "try_acquire_open enc dec io g s now = (g', s', r) \<Longrightarrow> g_cfg g' = g_cfg g"
  by (erule try_acquire_open_cases) (auto elim: persist_error_cases)

lemma attempt_cache:
  assumes "try_acquire_open enc dec io g s now = (g', s', r)"
  shows "g_cached_lock_until_ms g \<le> g_cached_lock_until_ms g' \<and>
    (\<forall>t w. grant_of g now r = Some (t, w) \<longrightarrow>
      g_cached_lock_until_ms g \<le> t \<and> g_cached_lock_until_ms g' = sat_add t w)"
  using assms
proof (cases rule: try_acquire_open_cases)
  case (failed err)
  from failed(3) show ?thesis
    by (cases rule: persist_error_cases)
       (use failed(1) in \<open>auto simp: grant_of_def intro: order_trans [OF _ sat_add_ge]\<close>)
qed (auto simp: grant_of_def intro: order_trans [OF _ sat_add_ge])

lemmas attempt_cache_grows = attempt_cache [THEN conjunct1]
  and attempt_cache_grants = attempt_cache [THEN conjunct2, rule_format]

section \<open>Within one process\<close>

text \<open>
  Attempts on one gate, directly or through the shared one, with any failures. The type \<open>'h\<close> of
  LMDB's errors is an argument of the steps.
\<close>

inductive session_step ::
  "'h itself \<Rightarrow> encoder \<Rightarrow> decoder \<Rightarrow> durable_open_gate \<times> store \<Rightarrow> grant option \<Rightarrow> durable_open_gate \<times> store \<Rightarrow> bool"
  for h enc dec where
  attempt: "try_acquire_open_fail_closed lk enc dec (io :: 'h attempt_io) g s now = (g', s', r) \<Longrightarrow>
    grant_of g now r = gr \<Longrightarrow> session_step h enc dec (g, s) gr (g', s')"

text \<open>An attempt through the shared gate that finds the mutex taken or poisoned changes nothing.\<close>

lemma shared_attempt_cases:
  assumes "try_acquire_open_fail_closed lk enc dec io g s now = (g', s', r)"
  obtains (entered) "try_acquire_open enc dec io g s now = (g', s', r)" "lk = LockFree"
    | (refused) "g' = g" "s' = s" "grant_of g now r = None" "lk \<noteq> LockFree"
  using assms by (auto simp: try_acquire_open_fail_closed_def grant_of_def split: try_lock_result.splits)

interpretation session_lock: growing_lock "\<lambda>_. True" "g_cached_lock_until_ms \<circ> fst" "session_step h enc dec"
  for h enc dec
proof (unfold_locales, goal_cases)
  case (2 s gr s')
  then show ?case by (auto elim!: session_step.cases shared_attempt_cases dest: attempt_cache_grows)
next
  case (3 s t w s')
  then show ?case by (auto elim!: session_step.cases shared_attempt_cases dest: attempt_cache_grants)
qed simp

section \<open>Across restarts\<close>

definition codec_ok :: "encoder \<Rightarrow> decoder \<Rightarrow> bool" where
  "codec_ok enc dec \<longleftrightarrow> (\<forall>r b. enc r = Inr b \<longrightarrow> dec b = Inr r)"

definition stored_lock :: "decoder \<Rightarrow> string \<times> string \<Rightarrow> store \<Rightarrow> u64" where
  "stored_lock dec slot s =
     (case s slot of
        None \<Rightarrow> 0
      | Some b \<Rightarrow> (case dec b of Inl _ \<Rightarrow> 0 | Inr r \<Rightarrow> rec_lock_until_ms r))"

lemma read_stored:
  "read_lock_until_ms dec f g s = Inr l \<Longrightarrow> stored_lock dec (gate_slot g) s = l"
  by (auto simp: read_lock_until_ms_def stored_lock_def gate_slot_def split: option.splits sum.splits)

lemma stored_written:
  "codec_ok enc dec \<Longrightarrow> enc (gate_record g t) = Inr b \<Longrightarrow>
    stored_lock dec slot (s(slot \<mapsto> b)) = sat_add t (window_ms g)"
  by (auto simp: codec_ok_def stored_lock_def gate_record_def)

lemma attempt_store:
  assumes codec: "codec_ok enc dec" and closed: "gc_fail_closed (g_cfg g)"
    and "try_acquire_open enc dec io g s now = (g', s', r)"
  shows "stored_lock dec (gate_slot g) s \<le> stored_lock dec (gate_slot g) s' \<and>
    (\<forall>t w. grant_of g now r = Some (t, w) \<longrightarrow>
      stored_lock dec (gate_slot g) s \<le> t \<and> sat_add t w \<le> stored_lock dec (gate_slot g) s')"
  using assms(3)
proof (cases rule: try_acquire_open_cases)
  case (failed err)
  from failed(3) have "grant_of g now r = None"
    by (cases rule: persist_error_cases) (use closed in \<open>auto simp: grant_of_def\<close>)
  with failed(4) show ?thesis
    using stored_written [OF codec, of g _ _ "gate_slot g"]
    by (auto dest!: read_stored intro: order_trans [OF _ sat_add_ge])
next
  case (granted l b)
  then show ?thesis
    using stored_written [OF codec granted(5), of "gate_slot g"] read_stored [OF granted(3)]
    by (auto simp: grant_of_def intro: order_trans [OF _ sat_add_ge])
qed (auto simp: grant_of_def)

lemmas attempt_store_grows = attempt_store [THEN conjunct1]
  and attempt_store_grants = attempt_store [THEN conjunct2, rule_format]

text \<open>
  The life of a directory, one gate at a time as the file lock has it: a process opens the gate on
  a record, with any window and any failures, attempts, and is gone at any moment.
\<close>

inductive life_step ::
  "'h itself \<Rightarrow> encoder \<Rightarrow> decoder \<Rightarrow> string \<times> string \<Rightarrow> durable_open_gate option \<times> store \<Rightarrow> grant option
    \<Rightarrow> durable_open_gate option \<times> store \<Rightarrow> bool"
  for h enc dec slot where
  opened: "gate_open dec (io :: 'h open_io) s cfg = Inr g \<Longrightarrow> gc_fail_closed cfg \<Longrightarrow>
    (gc_db_name cfg, gc_record_key cfg) = slot \<Longrightarrow> life_step h enc dec slot (None, s) None (Some g, s)"
| attempt: "try_acquire_open enc dec (io :: 'h attempt_io) g s now = (g', s', r) \<Longrightarrow> grant_of g now r = gr \<Longrightarrow>
    life_step h enc dec slot (Some g, s) gr (Some g', s')"
| stopped: "life_step h enc dec slot (Some g, s) None (None, s)"

definition closed_gate :: "encoder \<Rightarrow> decoder \<Rightarrow> string \<times> string \<Rightarrow> durable_open_gate option \<times> store \<Rightarrow> bool" where
  "closed_gate enc dec slot x \<longleftrightarrow> codec_ok enc dec \<and>
     (case fst x of None \<Rightarrow> True | Some g \<Rightarrow> gc_fail_closed (g_cfg g) \<and> gate_slot g = slot)"

text \<open>What a successful \<open>open\<close> has checked and read.\<close>

lemma gate_open_restores:
  assumes "gate_open dec io s cfg = Inr g"
  shows "g_cfg g = cfg \<and> \<not> is_zero (gc_window cfg) \<and> 1024 * 1024 \<le> gc_lmdb_map_size_bytes cfg \<and>
    (gc_fail_closed cfg \<longrightarrow>
      g_cached_lock_until_ms g = stored_lock dec (gc_db_name cfg, gc_record_key cfg) s) \<and>
    attempts_total (g_stats g) = 0 \<and> allowed_total (g_stats g) = 0 \<and> blocked_total (g_stats g) = 0 \<and>
    persist_writes_total (g_stats g) = 0"
proof -
  define g0 where "g0 = count_reads \<lparr>g_cfg = cfg, g_cached_lock_until_ms = 0, g_stats = stats_default\<rparr>"
  have slot: "gate_slot g0 = (gc_db_name cfg, gc_record_key cfg)" by (simp add: g0_def gate_slot_def)
  from assms have "\<not> is_zero (gc_window cfg) \<and> 1024 * 1024 \<le> gc_lmdb_map_size_bytes cfg"
    by (auto simp: gate_open_def open_environment_def split: sum.splits if_splits)
  moreover have "(\<exists>l. read_lock_until_ms dec (oi_get io) g0 s = Inr l \<and> g = g0\<lparr>g_cached_lock_until_ms := l\<rparr>) \<or>
      \<not> gc_fail_closed cfg \<and> (g = count_failure g0 \<or>
        g = count_failure \<lparr>g_cfg = cfg, g_cached_lock_until_ms = 0, g_stats = stats_default\<rparr>)"
    using assms
    by (auto simp: gate_open_def load_lock_until_ms_def Let_def g0_def split: sum.splits option.splits if_splits)
  ultimately show ?thesis
    using read_stored [of dec "oi_get io" g0 s] slot
    by (auto simp: g0_def count_defs stats_default_def)
qed

lemma gate_open_cfg: "gate_open dec io s cfg = Inr g \<Longrightarrow> g_cfg g = cfg"
  by (auto simp: gate_open_def load_lock_until_ms_def Let_def split: sum.splits option.splits if_splits)

interpretation durable_lock: growing_lock "closed_gate enc dec slot" "stored_lock dec slot \<circ> snd"
  "life_step h enc dec slot" for h enc dec slot
proof (unfold_locales, goal_cases)
  case (1 s gr s')
  then show ?case
    by (auto elim!: life_step.cases simp: closed_gate_def gate_slot_def dest!: gate_open_cfg attempt_cfg)
next
  case (2 s gr s')
  then show ?case by (auto elim!: life_step.cases simp: closed_gate_def dest: attempt_store_grows)
next
  case (3 s t w s')
  then show ?case by (auto elim!: life_step.cases simp: closed_gate_def dest: attempt_store_grants)
qed

section \<open>A record format and a run\<close>

text \<open>A format that can be decoded: the bits of the four fields, one byte for each.\<close>

definition ex_field :: "'w::len word \<Rightarrow> bytes" where
  "ex_field v = map (\<lambda>n. of_bool (bit v n)) [0..<LENGTH('w)]"

definition ex_unfield :: "bytes \<Rightarrow> 'w::len word" where
  "ex_unfield bs = horner_sum of_bool 2 (map (\<lambda>b. b = 1) bs)"

definition ex_encode :: encoder where
  "ex_encode r = Inr (ex_field (rec_version r) @ ex_field (rec_lock_until_ms r) @
     ex_field (rec_updated_at_ms r) @ ex_field (rec_window_ms r))"

definition ex_decode :: decoder where
  "ex_decode bs = Inr \<lparr>rec_version = ex_unfield (take 16 bs), rec_lock_until_ms = ex_unfield (take 64 (drop 16 bs)),
     rec_updated_at_ms = ex_unfield (take 64 (drop 80 bs)), rec_window_ms = ex_unfield (drop 144 bs)\<rparr>"

lemma length_ex_field [simp]: "length (ex_field (v :: 'w::len word)) = LENGTH('w)"
  by (simp add: ex_field_def)

lemma ex_unfield_field [simp]: "ex_unfield (ex_field v) = (v :: 'w::len word)"
proof -
  have "map (\<lambda>b. b = 1) (ex_field v) = map (bit v) [0..<LENGTH('w)]"
    by (simp add: ex_field_def of_bool_eq_1_iff)
  then show ?thesis by (simp add: ex_unfield_def horner_sum_bit_eq_take_bit)
qed

lemma ex_codec_ok: "codec_ok ex_encode ex_decode"
  by (simp add: codec_ok_def ex_encode_def ex_decode_def)

definition ex_slot :: "string \<times> string" where
  "ex_slot = (''open_gate'', ''global_open_gate'')"

definition ex_opening :: "unit open_io" where
  "ex_opening = \<lparr>oi_open_lock_file = None, oi_try_lock_exclusive = None, oi_create_dir_all = None,
     oi_env_open = None, oi_write_txn = None, oi_create_database = None, oi_commit = None,
     oi_read_txn = None, oi_get = None\<rparr>"

definition ex_quiet :: "unit attempt_io" where
  "ex_quiet = \<lparr>ai_write_txn = None, ai_get = None, ai_put = None, ai_commit = None, ai_persisted_anyway = False\<rparr>"

text \<open>LMDB fails at the commit.\<close>

definition ex_broken :: "unit attempt_io" where
  "ex_broken = ex_quiet\<lparr>ai_commit := Some ()\<rparr>"

definition ex_gate :: durable_open_gate where
  "ex_gate = \<lparr>g_cfg = gate_config_default, g_cached_lock_until_ms = 0,
     g_stats = stats_default\<lparr>persist_reads_total := 1\<rparr>\<rparr>"

definition ex_empty :: store where
  "ex_empty = (\<lambda>_. None)"

lemma ex_gate_open: "gate_open ex_decode ex_opening ex_empty gate_config_default = Inr ex_gate"
  by (simp add: open_gate_eval ex_opening_def ex_empty_def ex_gate_def eval_simps)

lemma ex_grant:
  "\<exists>g s. try_acquire_open ex_encode ex_decode ex_quiet ex_gate ex_empty (from_secs 1) =
      (g, s, Inr (Allowed (from_secs 1801))) \<and> g_cached_lock_until_ms g = 1801000 \<and> g_cfg g = gate_config_default"
  by (simp add: open_gate_eval ex_quiet_def ex_empty_def ex_gate_def ex_encode_def eval_simps del: length_ex_field)

text \<open>The directory opens again after a grant.\<close>

lemma ex_reopen:
  "\<exists>g. gate_open ex_decode ex_opening
    (ex_empty(gate_slot ex_gate \<mapsto> projr (ex_encode (gate_record ex_gate 1000)))) gate_config_default = Inr g"
  by (simp add: gate_open_def open_environment_def file_lock_acquire_def load_lock_until_ms_def
      read_lock_until_ms_def ex_opening_def ex_gate_def gate_config_default_def gate_slot_def Let_def
      is_zero_def from_secs_def nanos_per_sec_def max_nanos_def count_defs ex_decode_def)

section \<open>What the gate promises\<close>

text \<open>Within one process the grants of a gate are spaced by the window whatever fails: over any sequence of
  attempts, direct or through the shared gate, with instants in any order, any LMDB failures, any
  record format and whether it fails open or closed, the next grant is never earlier than the
  instant of the last one plus its window, in milliseconds.\<close>

lemma gate_spaced_in_process:
  assumes "grants_run (session_step TYPE('h) enc dec) (g, s) gs x"
  shows "spaced gs \<and> (\<forall>(t, w) \<in> set gs. g_cached_lock_until_ms g \<le> t)"
  using session_lock.run_spaced [OF assms] by auto

lemma gate_spaced_in_process_witness:
  "\<exists>x. grants_run (session_step TYPE(unit) ex_encode ex_decode) (ex_gate, ex_empty) [(1000, 1800000)] x \<and>
    spaced [(1000, 1800000)]"
proof -
  obtain g s where a: "try_acquire_open ex_encode ex_decode ex_quiet ex_gate ex_empty (from_secs 1) =
      (g, s, Inr (Allowed (from_secs 1801)))" using ex_grant by blast
  have "grant_of ex_gate (from_secs 1) (Inr (Allowed (from_secs 1801)) :: unit gate_error + open_gate_decision) =
      Some (1000, 1800000)"
    by (simp add: grant_of_def ex_gate_def eval_simps)
  with a have "session_step TYPE(unit) ex_encode ex_decode (ex_gate, ex_empty) (Some (1000, 1800000)) (g, s)"
    by (intro session_step.attempt [of LockFree]) (simp_all add: try_acquire_open_fail_closed_def)
  then have "grants_run (session_step TYPE(unit) ex_encode ex_decode) (ex_gate, ex_empty)
      ([] @ [(1000, 1800000)]) (g, s)"
    by (rule grants_run.grants [OF grants_run.start])
  then show ?thesis using gate_spaced_in_process by fastforce
qed

text \<open>C6: Across restarts and crashes a gate that fails closed still grants at most once per window: over the
  whole life of its directory, from any contents on disk, with any configuration that keeps the
  record's place and fails closed, any failures in opening and attempting, and processes that stop
  at any moment, grants are spaced by the window of the earlier one, and the record on disk holds
  every granted lock. The record format must decode what it encoded.\<close>

theorem gate_spaced_across_restarts:
  assumes "codec_ok enc dec" and "grants_run (life_step TYPE('h) enc dec slot) (None, s) gs (og, s')"
  shows "spaced gs \<and> (\<forall>(t, w) \<in> set gs. sat_add t w \<le> stored_lock dec slot s')"
  using durable_lock.run_spaced [OF assms(2)] assms(1) by (auto simp: closed_gate_def)

lemma gate_spaced_across_restarts_witness:
  "\<exists>x. grants_run (life_step TYPE(unit) ex_encode ex_decode ex_slot) (None, ex_empty) [(1000, 1800000)] (None, x) \<and>
    sat_add 1000 1800000 \<le> stored_lock ex_decode ex_slot x"
proof -
  obtain g s where a: "try_acquire_open ex_encode ex_decode ex_quiet ex_gate ex_empty (from_secs 1) =
      (g, s, Inr (Allowed (from_secs 1801)))" using ex_grant by blast
  have o: "life_step TYPE(unit) ex_encode ex_decode ex_slot (None, ex_empty) None (Some ex_gate, ex_empty)"
    by (rule life_step.opened [OF ex_gate_open]) (simp_all add: gate_config_default_def ex_slot_def)
  have gr: "grant_of ex_gate (from_secs 1) (Inr (Allowed (from_secs 1801)) :: unit gate_error + open_gate_decision) =
      Some (1000, 1800000)"
    by (simp add: grant_of_def ex_gate_def eval_simps)
  let ?st = "life_step TYPE(unit) ex_encode ex_decode ex_slot"
  have "grants_run ?st (None, ex_empty) [] (Some ex_gate, ex_empty)"
    using grants_run.silent [where stp = ?st, OF grants_run.start o] .
  then have "grants_run ?st (None, ex_empty) ([] @ [(1000, 1800000)]) (Some g, s)"
    by (rule grants_run.grants [where stp = ?st]) (rule life_step.attempt [OF a gr])
  then have r: "grants_run ?st (None, ex_empty) ([] @ [(1000, 1800000)]) (None, s)"
    by (rule grants_run.silent [where stp = ?st]) (rule life_step.stopped)
  then show ?thesis using gate_spaced_across_restarts [OF ex_codec_ok r] by auto
qed

text \<open>After a grant every attempt before the lock ends is blocked with the granted end of the lock and
  stays off the disk: the answer and the state are the same whatever LMDB would answer and however
  records are encoded, and only the two counters change.\<close>

lemma gate_blocks_from_cache:
  assumes "try_acquire_open enc dec io g s now = (g1, s1, Inr (Allowed u))"
    and "duration_to_millis later < g_cached_lock_until_ms g1"
  shows "try_acquire_open enc' dec' io' g1 s2 later =
    (count_blocked (count_attempt g1), s2, Inr (Blocked u))"
proof -
  have "u = millis_to_duration (g_cached_lock_until_ms g1)"
    using assms(1)
  proof (cases rule: try_acquire_open_cases)
    case (failed err)
    from failed(3) show ?thesis by (cases rule: persist_error_cases) simp_all
  qed simp_all
  with assms(2) show ?thesis by (simp add: try_acquire_open_def Let_def)
qed

lemma gate_blocks_from_cache_witness:
  "\<exists>g s. snd (snd (try_acquire_open ex_encode ex_decode ex_broken g s (from_secs 1800))) =
    Inr (Blocked (from_secs 1801))"
proof -
  obtain g s where a: "try_acquire_open ex_encode ex_decode ex_quiet ex_gate ex_empty (from_secs 1) =
      (g, s, Inr (Allowed (from_secs 1801)))" and c: "g_cached_lock_until_ms g = 1801000"
    using ex_grant by blast
  have "duration_to_millis (from_secs 1800) < g_cached_lock_until_ms g" by (simp add: c eval_simps)
  from gate_blocks_from_cache [OF a this] show ?thesis by (metis snd_conv)
qed

text \<open>C34: A grant of a gate that fails closed survives a restart: the next gate opened on the same record by any
  process, before anything else is written, starts with the lock that was granted. The next gate
  fails closed itself, or its read did not fail; one that fails open and cannot read starts with no
  lock. The record format decodes what it encoded (\<open>codec_ok\<close>).\<close>

theorem grant_survives_restart:
  assumes "codec_ok enc dec" and "gc_fail_closed (g_cfg g)"
    and "try_acquire_open enc dec io g s now = (g1, s1, Inr (Allowed u))"
    and "gate_open dec io' s1 cfg = Inr g2"
    and "gc_fail_closed cfg \<or> oi_read_txn io' = None \<and> oi_get io' = None"
    and "(gc_db_name cfg, gc_record_key cfg) = gate_slot g"
  shows "g_cached_lock_until_ms g2 = g_cached_lock_until_ms g1"
  using assms(3)
proof (cases rule: try_acquire_open_cases)
  case (failed err)
  from failed(3) show ?thesis by (cases rule: persist_error_cases) (use assms(2) in simp_all)
next
  case (granted l b)
  let ?t = "duration_to_millis now"
  have lock: "stored_lock dec (gate_slot g) s1 = g_cached_lock_until_ms g1"
    using granted stored_written [OF assms(1) granted(5)] by simp
  show ?thesis
  proof (cases "gc_fail_closed cfg")
    case True
    with gate_open_restores [OF assms(4)] assms(6) lock show ?thesis by simp
  next
    case False
    have "dec b = Inr (gate_record g ?t)" using assms(1) granted(5) by (simp add: codec_ok_def)
    with False assms(4,5,6) granted(6) lock show ?thesis
      by (auto simp: gate_open_def load_lock_until_ms_def read_lock_until_ms_def stored_lock_def count_defs
          Let_def split: sum.splits)
  qed
qed simp_all

lemma grant_survives_restart_witness:
  "\<exists>g s g2. try_acquire_open ex_encode ex_decode ex_quiet ex_gate ex_empty (from_secs 1) =
      (g, s, Inr (Allowed (from_secs 1801))) \<and>
    gate_open ex_decode ex_opening s gate_config_default = Inr g2 \<and> g_cached_lock_until_ms g2 = 1801000"
proof -
  obtain g s where a: "try_acquire_open ex_encode ex_decode ex_quiet ex_gate ex_empty (from_secs 1) =
      (g, s, Inr (Allowed (from_secs 1801)))" and c: "g_cached_lock_until_ms g = 1801000"
    using ex_grant by blast
  have s: "s = ex_empty(gate_slot ex_gate \<mapsto> projr (ex_encode (gate_record ex_gate 1000)))"
    using a
  proof (cases rule: try_acquire_open_cases)
    case (failed err)
    from failed(3) show ?thesis
      by (cases rule: persist_error_cases) (simp_all add: ex_gate_def gate_config_default_def count_defs)
  next
    case (granted l b)
    then show ?thesis by (simp add: eval_simps)
  qed simp_all
  then obtain g2 where o: "gate_open ex_decode ex_opening s gate_config_default = Inr g2"
    using ex_reopen by blast
  have "gc_fail_closed (g_cfg ex_gate)" "gc_fail_closed gate_config_default"
    "(gc_db_name gate_config_default, gc_record_key gate_config_default) = gate_slot ex_gate"
    by (simp_all add: ex_gate_def gate_config_default_def gate_slot_def)
  from grant_survives_restart [OF ex_codec_ok this(1) a o disjI1 [OF this(2)] this(3)] a o c show ?thesis by auto
qed

text \<open>With a gate that fails open an attempt reports an error in one case only: the lock is over as far as
  the process knows and LMDB gives no write transaction. Every other failure, of reading, decoding,
  encoding, writing or committing, grants or blocks.\<close>

lemma fail_open_error_iff_no_transaction:
  assumes "\<not> gc_fail_closed (g_cfg g)" and "try_acquire_open enc dec io g s now = (g', s', r)"
  shows "(\<exists>err. r = Inl err) \<longleftrightarrow>
    g_cached_lock_until_ms g \<le> duration_to_millis now \<and> ai_write_txn io \<noteq> None"
  using assms(2)
proof (cases rule: try_acquire_open_cases)
  case (failed err)
  from failed(3) show ?thesis by (cases rule: persist_error_cases) (use assms(1) failed in simp_all)
qed (auto simp: not_le)

lemma fail_open_error_iff_no_transaction_witness:
  "\<exists>g' s' err. try_acquire_open ex_encode ex_decode (ex_quiet\<lparr>ai_write_txn := Some ()\<rparr>)
     (ex_gate\<lparr>g_cfg := gate_config_default\<lparr>gc_fail_closed := False\<rparr>\<rparr>) ex_empty (from_secs 1) = (g', s', Inl err)"
proof -
  let ?g = "ex_gate\<lparr>g_cfg := gate_config_default\<lparr>gc_fail_closed := False\<rparr>\<rparr>"
  obtain g' s' r where a: "try_acquire_open ex_encode ex_decode (ex_quiet\<lparr>ai_write_txn := Some ()\<rparr>) ?g
      ex_empty (from_secs 1) = (g', s', r)" by (metis prod_cases3)
  have "\<exists>err. r = Inl err"
    using fail_open_error_iff_no_transaction [OF _ a] by (simp add: ex_gate_def)
  with a show ?thesis by blast
qed

text \<open>What an attempt needs of the libraries: to read the record, and to write its own.\<close>

definition record_readable :: "decoder \<Rightarrow> 'h attempt_io \<Rightarrow> durable_open_gate \<Rightarrow> store \<Rightarrow> bool" where
  "record_readable dec io g s \<longleftrightarrow> ai_write_txn io = None \<and> ai_get io = None \<and>
     (case s (gate_slot g) of None \<Rightarrow> True | Some raw \<Rightarrow> \<not> isl (dec raw))"

definition record_writable :: "encoder \<Rightarrow> 'h attempt_io \<Rightarrow> durable_open_gate \<Rightarrow> duration \<Rightarrow> bool" where
  "record_writable enc io g now \<longleftrightarrow> \<not> isl (enc (gate_record g (duration_to_millis now))) \<and>
     ai_put io = None \<and> ai_commit io = None"

text \<open>C35: With a gate that fails closed every failure is an error and no failure grants. An attempt is granted
  exactly when the cached lock is over, the transaction began, the record on disk, if there is one,
  was read and decoded, its lock is over too, and the new record was encoded, put and committed; the
  record of this very grant is then on disk and no other record changed. It is an error exactly when
  the cached lock is over and one of these calls failed, a record that does not decode included, the
  writing ones being reached only when the lock on disk is over. An error leaves the cached lock as
  it was, and the disk too unless the failed commit reached it.\<close>

theorem fail_closed_grants_what_is_on_disk:
  assumes "gc_fail_closed (g_cfg g)" and "try_acquire_open enc dec io g s now = (g', s', r)"
  shows "((\<exists>u. r = Inr (Allowed u)) \<longleftrightarrow>
      g_cached_lock_until_ms g \<le> duration_to_millis now \<and> record_readable dec io g s \<and>
      stored_lock dec (gate_slot g) s \<le> duration_to_millis now \<and> record_writable enc io g now) \<and>
    ((\<exists>err. r = Inl err) \<longleftrightarrow>
      g_cached_lock_until_ms g \<le> duration_to_millis now \<and> (\<not> record_readable dec io g s \<or>
        stored_lock dec (gate_slot g) s \<le> duration_to_millis now \<and> \<not> record_writable enc io g now)) \<and>
    (\<forall>u. r = Inr (Allowed u) \<longrightarrow>
      (\<exists>b. enc (gate_record g (duration_to_millis now)) = Inr b \<and> s' = s(gate_slot g \<mapsto> b))) \<and>
    (\<forall>err. r = Inl err \<longrightarrow> g_cached_lock_until_ms g' = g_cached_lock_until_ms g \<and>
      (s' = s \<or> ai_commit io \<noteq> None \<and> ai_persisted_anyway io))"
  using assms
  by (auto simp: try_acquire_open_def persist_grant_def persist_error_decision_def gate_record_def gate_slot_def
      read_lock_until_ms_def Let_def count_defs record_readable_def record_writable_def stored_lock_def
      less_max_iff_disj not_less split: if_splits option.splits sum.splits)

lemma fail_closed_grants_what_is_on_disk_witness:
  "\<exists>g s. try_acquire_open ex_encode ex_decode ex_quiet ex_gate ex_empty (from_secs 1) =
      (g, s, Inr (Allowed (from_secs 1801))) \<and> s (gate_slot ex_gate) \<noteq> None"
proof -
  obtain g s where a: "try_acquire_open ex_encode ex_decode ex_quiet ex_gate ex_empty (from_secs 1) =
      (g, s, Inr (Allowed (from_secs 1801)))" using ex_grant by blast
  have "gc_fail_closed (g_cfg ex_gate)" by (simp add: ex_gate_def gate_config_default_def)
  from fail_closed_grants_what_is_on_disk [OF this a] a show ?thesis by auto
qed

section \<open>Counters\<close>

definition is_allowed :: "'e + open_gate_decision \<Rightarrow> bool" where
  "is_allowed r \<longleftrightarrow> (\<exists>u. r = Inr (Allowed u))"

definition is_blocked :: "'e + open_gate_decision \<Rightarrow> bool" where
  "is_blocked r \<longleftrightarrow> (\<exists>u. r = Inr (Blocked u))"

lemma answer_simps [simp]:
  "is_allowed (Inr (Allowed u))" "\<not> is_allowed (Inr (Blocked u))" "\<not> is_allowed (Inl e)"
  "\<not> is_blocked (Inr (Allowed u))" "is_blocked (Inr (Blocked u))" "\<not> is_blocked (Inl e)"
  by (simp_all add: is_allowed_def is_blocked_def)

definition bump :: "bool \<Rightarrow> u64 \<Rightarrow> u64" where
  "bump b x = (if b then sat_add x 1 else x)"

lemma unat_bump: "unat x + 1 < 2 ^ 64 \<Longrightarrow> unat (bump b x) = unat x + of_bool b"
  by (simp add: bump_def unat_sat_add)

lemma attempt_counts:
  assumes "try_acquire_open enc dec io g s now = (g', s', r)"
  shows "attempts_total (g_stats g') = sat_add (attempts_total (g_stats g)) 1"
    and "allowed_total (g_stats g') = bump (is_allowed r) (allowed_total (g_stats g))"
    and "blocked_total (g_stats g') = bump (is_blocked r) (blocked_total (g_stats g))"
    and "\<exists>b. persist_writes_total (g_stats g') = bump b (persist_writes_total (g_stats g)) \<and>
      (b \<longrightarrow> is_allowed r) \<and> (gc_fail_closed (g_cfg g) \<longrightarrow> b = is_allowed r)"
proof -
  have all: "attempts_total (g_stats g') = sat_add (attempts_total (g_stats g)) 1 \<and>
      allowed_total (g_stats g') = bump (is_allowed r) (allowed_total (g_stats g)) \<and>
      blocked_total (g_stats g') = bump (is_blocked r) (blocked_total (g_stats g)) \<and>
      (\<exists>b. persist_writes_total (g_stats g') = bump b (persist_writes_total (g_stats g)) \<and>
        (b \<longrightarrow> is_allowed r) \<and> (gc_fail_closed (g_cfg g) \<longrightarrow> b = is_allowed r))"
    using assms
  proof (cases rule: try_acquire_open_cases)
    case (failed err)
    from failed(3) show ?thesis
      by (cases rule: persist_error_cases) (simp_all add: count_defs bump_def exI [of _ False])
  qed (simp_all add: count_defs bump_def exI [of _ False] exI [of _ True])
  show "attempts_total (g_stats g') = sat_add (attempts_total (g_stats g)) 1" using all by (rule conjunct1)
  show "allowed_total (g_stats g') = bump (is_allowed r) (allowed_total (g_stats g))" using all by (elim conjE)
  show "blocked_total (g_stats g') = bump (is_blocked r) (blocked_total (g_stats g))" using all by (elim conjE)
  show "\<exists>b. persist_writes_total (g_stats g') = bump b (persist_writes_total (g_stats g)) \<and>
      (b \<longrightarrow> is_allowed r) \<and> (gc_fail_closed (g_cfg g) \<longrightarrow> b = is_allowed r)"
    using all by (elim conjE)
qed

text \<open>A sequence of attempts, each with what LMDB answers it, and their answers.\<close>

fun attempts ::
  "encoder \<Rightarrow> decoder \<Rightarrow> ('h attempt_io \<times> duration) list \<Rightarrow> durable_open_gate \<Rightarrow> store
    \<Rightarrow> durable_open_gate \<times> store \<times> ('h gate_error + open_gate_decision) list" where
  "attempts enc dec [] g s = (g, s, [])"
| "attempts enc dec ((io, now) # xs) g s =
     (let (g1, s1, r) = try_acquire_open enc dec io g s now;
          (g2, s2, rs) = attempts enc dec xs g1 s1
      in (g2, s2, r # rs))"

definition room :: "durable_open_gate \<Rightarrow> nat \<Rightarrow> bool" where
  "room g n \<longleftrightarrow> unat (attempts_total (g_stats g)) + n < 2 ^ 64 \<and> unat (allowed_total (g_stats g)) + n < 2 ^ 64 \<and>
     unat (blocked_total (g_stats g)) + n < 2 ^ 64 \<and> unat (persist_writes_total (g_stats g)) + n < 2 ^ 64"

lemma attempts_counts:
  assumes "attempts enc dec xs g s = (g', s', rs)" and "room g (length xs)"
  shows "length rs = length xs \<and>
    unat (attempts_total (g_stats g')) = unat (attempts_total (g_stats g)) + length xs \<and>
    unat (allowed_total (g_stats g')) = unat (allowed_total (g_stats g)) + length (filter is_allowed rs) \<and>
    unat (blocked_total (g_stats g')) = unat (blocked_total (g_stats g)) + length (filter is_blocked rs) \<and>
    unat (persist_writes_total (g_stats g')) \<le> unat (persist_writes_total (g_stats g)) + length (filter is_allowed rs) \<and>
    (gc_fail_closed (g_cfg g) \<longrightarrow>
      unat (persist_writes_total (g_stats g')) = unat (persist_writes_total (g_stats g)) + length (filter is_allowed rs))"
  using assms
proof (induction xs arbitrary: g s rs)
  case Nil
  then show ?case by simp
next
  case (Cons x xs)
  obtain io now where x: "x = (io, now)" by fastforce
  obtain g1 s1 r where a: "try_acquire_open enc dec io g s now = (g1, s1, r)" by (metis prod_cases3)
  obtain rs1 where as: "attempts enc dec xs g1 s1 = (g', s', rs1)" and rs: "rs = r # rs1"
    using Cons.prems(1) a by (auto simp: x Let_def split: prod.splits)
  obtain b where w: "persist_writes_total (g_stats g1) = bump b (persist_writes_total (g_stats g))"
    and b: "b \<longrightarrow> is_allowed r" "gc_fail_closed (g_cfg g) \<longrightarrow> b = is_allowed r"
    using attempt_counts(4) [OF a] by blast
  have counts: "unat (attempts_total (g_stats g1)) = unat (attempts_total (g_stats g)) + 1"
    "unat (allowed_total (g_stats g1)) = unat (allowed_total (g_stats g)) + of_bool (is_allowed r)"
    "unat (blocked_total (g_stats g1)) = unat (blocked_total (g_stats g)) + of_bool (is_blocked r)"
    "unat (persist_writes_total (g_stats g1)) = unat (persist_writes_total (g_stats g)) + of_bool b"
    using Cons.prems(2) attempt_counts(1-3) [OF a] w
    by (simp_all add: room_def unat_bump unat_sat_add)
  have "room g1 (length xs)"
    using Cons.prems(2) by (simp add: room_def counts of_bool_def)
  from Cons.IH [OF as this] show ?case
    using b attempt_cfg [OF a] by (cases "is_allowed r"; cases "is_blocked r"; cases b) (auto simp: counts rs)
qed

text \<open>C38: The counters of a gate add up: after any number of attempts below \<open>2^64\<close> on a freshly opened gate,
  \<open>attempts_total\<close> is their number, \<open>allowed_total\<close> and \<open>blocked_total\<close> the numbers of attempts so
  answered, and \<open>persist_writes_total\<close> at most the grants, and all of them when the gate fails closed.\<close>

theorem gate_counters_add_up:
  assumes "gate_open dec io s cfg = Inr g" and "attempts enc dec xs g s = (g', s', rs)" and "length xs < 2 ^ 64"
  shows "unat (attempts_total (gate_stats g')) = length xs \<and>
    unat (allowed_total (gate_stats g')) = length (filter is_allowed rs) \<and>
    unat (blocked_total (gate_stats g')) = length (filter is_blocked rs) \<and>
    unat (persist_writes_total (gate_stats g')) \<le> length (filter is_allowed rs) \<and>
    (gc_fail_closed cfg \<longrightarrow> unat (persist_writes_total (gate_stats g')) = length (filter is_allowed rs))"
  using attempts_counts [OF assms(2)] gate_open_restores [OF assms(1)] assms(3)
  by (simp add: room_def gate_stats_def)

lemma gate_counters_add_up_witness:
  "\<exists>g' s' rs. attempts ex_encode ex_decode [(ex_quiet, from_secs 1), (ex_broken, from_secs 2), (ex_broken, from_secs 1801)]
      ex_gate ex_empty = (g', s', rs) \<and> unat (attempts_total (gate_stats g')) = 3"
proof -
  let ?xs = "[(ex_quiet, from_secs 1), (ex_broken, from_secs 2), (ex_broken, from_secs 1801)]"
  obtain g' s' rs where a: "attempts ex_encode ex_decode ?xs ex_gate ex_empty = (g', s', rs)" by (metis prod_cases3)
  show ?thesis using gate_counters_add_up [OF ex_gate_open a] a by simp
qed

section \<open>Granting when due\<close>

text \<open>When nothing fails, and the gate knows the lock that is on disk.\<close>

definition quiet :: "'h attempt_io \<Rightarrow> bool" where
  "quiet io \<longleftrightarrow> ai_write_txn io = None \<and> ai_get io = None \<and> ai_put io = None \<and> ai_commit io = None"

definition in_sync :: "decoder \<Rightarrow> durable_open_gate \<Rightarrow> store \<Rightarrow> bool" where
  "in_sync dec g s \<longleftrightarrow>
     (case s (gate_slot g) of
        None \<Rightarrow> g_cached_lock_until_ms g = 0
      | Some raw \<Rightarrow> map_sum id rec_lock_until_ms (dec raw) = Inr (g_cached_lock_until_ms g))"

lemma in_sync_read: "in_sync dec g s \<Longrightarrow> read_lock_until_ms dec None g s = Inr (g_cached_lock_until_ms g)"
  by (auto simp: in_sync_def read_lock_until_ms_def gate_slot_def split: option.splits sum.splits)

lemma in_sync_cong: "gate_slot g' = gate_slot g \<Longrightarrow> g_cached_lock_until_ms g' = g_cached_lock_until_ms g \<Longrightarrow>
    in_sync dec g' s = in_sync dec g s"
  by (simp add: in_sync_def split: option.split)

lemma gate_open_in_sync:
  assumes "gate_open dec io s cfg = Inr g" and "gc_fail_closed cfg"
  shows "in_sync dec g s"
  using assms
  by (auto simp: gate_open_def load_lock_until_ms_def read_lock_until_ms_def in_sync_def gate_slot_def Let_def
      split: sum.splits option.splits if_splits)

lemma quiet_attempt:
  assumes "in_sync dec g s" and "quiet io" and "codec_ok enc dec" and "\<forall>r. \<exists>b. enc r = Inr b"
    and a: "try_acquire_open enc dec io g s now = (g', s', r)"
  shows "in_sync dec g' s' \<and> g_cfg g' = g_cfg g \<and>
    (if g_cached_lock_until_ms g \<le> duration_to_millis now
     then is_allowed r \<and> g_cached_lock_until_ms g' = sat_add (duration_to_millis now) (window_ms g)
     else is_blocked r \<and> g_cached_lock_until_ms g' = g_cached_lock_until_ms g)"
proof -
  let ?t = "duration_to_millis now"
  have cfg: "g_cfg g' = g_cfg g" using attempt_cfg [OF a] .
  have io: "ai_write_txn io = None" "ai_get io = None" "ai_put io = None" "ai_commit io = None"
    using assms(2) by (simp_all add: quiet_def)
  show ?thesis
  proof (cases "g_cached_lock_until_ms g \<le> ?t")
    case False
    then have "?t < g_cached_lock_until_ms g" by simp
    then have "g' = count_blocked (count_attempt g)" "s' = s" "is_blocked r"
      using a by (auto simp: try_acquire_open_def Let_def is_blocked_def)
    with False assms(1) show ?thesis by (simp add: in_sync_def gate_slot_def split: option.splits)
  next
    case True
    obtain b where b: "enc (gate_record g ?t) = Inr b" using assms(4) by blast
    have due: "(?t < g_cached_lock_until_ms g) = False" using True by simp
    have rd: "read_lock_until_ms dec None (count_attempt g) s = Inr (g_cached_lock_until_ms g)"
      using in_sync_read [of dec "count_attempt g" s] in_sync_cong [of "count_attempt g" g dec s] assms(1)
      by (simp add: gate_slot_def)
    have g': "g_cached_lock_until_ms g' = sat_add ?t (window_ms g)" "s' = s(gate_slot g \<mapsto> b)" "is_allowed r"
      using a b by (auto simp: try_acquire_open_def persist_grant_def Let_def io rd due gate_slot_def
          gate_record_def is_allowed_def)
    have "dec b = Inr (gate_record g ?t)" using assms(3) b by (simp add: codec_ok_def)
    then have "in_sync dec g' s'" by (simp add: in_sync_def g' cfg gate_slot_def gate_record_def)
    with True g' cfg show ?thesis by simp
  qed
qed

lemma blocked_not_allowed: "is_blocked r \<Longrightarrow> \<not> is_allowed r"
  by (auto simp: is_allowed_def is_blocked_def)

text \<open>The reference the crate's soak test keeps: an open is due once the instant reaches the end of the
  last granted window.\<close>

fun lock_answers :: "u64 \<Rightarrow> u64 \<Rightarrow> u64 list \<Rightarrow> bool list" where
  "lock_answers window next_open [] = []"
| "lock_answers window next_open (t # ts) =
     (if next_open \<le> t then True # lock_answers window (sat_add t window) ts
      else False # lock_answers window next_open ts)"

lemma attempts_lock_answers:
  assumes "codec_ok enc dec" and "\<forall>r. \<exists>b. enc r = Inr b" and "\<forall>(io, now) \<in> set xs. quiet io"
    and "in_sync dec g s" and "attempts enc dec xs g s = (g', s', rs)"
  shows "map is_allowed rs =
    lock_answers (window_ms g) (g_cached_lock_until_ms g) (map (\<lambda>x. duration_to_millis (snd x)) xs)"
  using assms(3-)
proof (induction xs arbitrary: g s rs)
  case Nil
  then show ?case by simp
next
  case (Cons x xs)
  obtain io now where x: "x = (io, now)" by fastforce
  obtain g1 s1 r where a: "try_acquire_open enc dec io g s now = (g1, s1, r)" by (metis prod_cases3)
  obtain rs1 where as: "attempts enc dec xs g1 s1 = (g', s', rs1)" and rs: "rs = r # rs1"
    using Cons.prems(3) a by (auto simp: x Let_def split: prod.splits)
  have q: "quiet io" "\<forall>(io, now) \<in> set xs. quiet io" using Cons.prems(1) x by auto
  note step = quiet_attempt [OF Cons.prems(2) q(1) assms(1,2) a]
  then have "map is_allowed rs1 =
      lock_answers (window_ms g1) (g_cached_lock_until_ms g1) (map (\<lambda>x. duration_to_millis (snd x)) xs)"
    using Cons.IH [OF q(2) _ as] by blast
  with step show ?case
    by (cases "g_cached_lock_until_ms g \<le> duration_to_millis now") (simp_all add: rs x blocked_not_allowed)
qed

text \<open>C37: When nothing fails, a gate that fails closed is the plain lock its tests keep as a reference, and so
  grants whenever an open is due: for any instants in any order, the attempts that are allowed are
  exactly those that come at or after the end of the last granted window, beginning with the lock
  found on disk.\<close>

theorem gate_grants_when_due:
  assumes "gate_open dec io s cfg = Inr g" and "gc_fail_closed cfg"
    and "codec_ok enc dec" and "\<forall>r. \<exists>b. enc r = Inr b" and "\<forall>(io, now) \<in> set xs. quiet io"
    and "attempts enc dec xs g s = (g', s', rs)"
  shows "map is_allowed rs =
    lock_answers (duration_to_millis (gc_window cfg)) (stored_lock dec (gc_db_name cfg, gc_record_key cfg) s)
      (map (\<lambda>x. duration_to_millis (snd x)) xs)"
  using attempts_lock_answers [OF assms(3,4,5) gate_open_in_sync [OF assms(1,2)] assms(6)]
    gate_open_restores [OF assms(1)] assms(2) by simp

lemma gate_grants_when_due_witness:
  "\<exists>g' s' rs. attempts ex_encode ex_decode [(ex_quiet, from_secs 1), (ex_quiet, from_secs 1800), (ex_quiet, from_secs 1801)]
      ex_gate ex_empty = (g', s', rs) \<and> map is_allowed rs = [True, False, True]"
proof -
  let ?xs = "[(ex_quiet, from_secs 1), (ex_quiet, from_secs 1800), (ex_quiet, from_secs 1801)]"
  obtain g' s' rs where a: "attempts ex_encode ex_decode ?xs ex_gate ex_empty = (g', s', rs)" by (metis prod_cases3)
  have "gc_fail_closed gate_config_default" by (simp add: gate_config_default_def)
  moreover have "\<forall>r. \<exists>b. ex_encode r = Inr b" by (simp add: ex_encode_def)
  moreover have "\<forall>(io, now) \<in> set ?xs. quiet io" by (simp add: quiet_def ex_quiet_def)
  ultimately have "map is_allowed rs = [True, False, True]"
    using gate_grants_when_due [OF ex_gate_open _ ex_codec_ok _ _ a]
    by (simp add: stored_lock_def ex_empty_def gate_config_default_def eval_simps)
  with a show ?thesis by (intro exI conjI)
qed

section \<open>Opening\<close>

text \<open>Opening reports the first thing that is wrong, in the order of the code, and makes a gate only when
  nothing is: a directory locked by another process is reported as such before the configuration
  is looked at, then a zero window, then a map below 1 MiB; a record that cannot be read or decoded
  is an error when the gate fails closed and a gate that starts unlocked when it fails open.\<close>

lemma open_reports_in_order:
  assumes "oi_open_lock_file io = None" and "oi_create_dir_all io = None" and "oi_env_open io = None"
    and "oi_write_txn io = None" and "oi_create_database io = None" and "oi_commit io = None" and "oi_read_txn io = None"
  shows "gate_open dec io s cfg =
    (if oi_try_lock_exclusive io = Some WouldBlock then Inl AlreadyLocked
     else case oi_try_lock_exclusive io of Some e \<Rightarrow> Inl (Io e) | None \<Rightarrow>
     if is_zero (gc_window cfg) then Inl (InvalidConfig ''window must be non-zero'')
     else if gc_lmdb_map_size_bytes cfg < 1024 * 1024 then
       Inl (InvalidConfig ''lmdb_map_size_bytes must be at least 1 MiB'')
     else let g = count_reads \<lparr>g_cfg = cfg, g_cached_lock_until_ms = 0, g_stats = stats_default\<rparr> in
       case read_lock_until_ms dec (oi_get io) g s of
         Inr l \<Rightarrow> Inr (g\<lparr>g_cached_lock_until_ms := l\<rparr>)
       | Inl err \<Rightarrow> if gc_fail_closed cfg then Inl err else Inr (count_failure g))"
  using assms
  by (auto simp: gate_open_def open_environment_def file_lock_acquire_def load_lock_until_ms_def Let_def
      split: option.split sum.split)

lemma open_reports_in_order_witness:
  "gate_open ex_decode (ex_opening\<lparr>oi_try_lock_exclusive := Some WouldBlock\<rparr>) ex_empty
    (gate_config_default\<lparr>gc_window := dur_zero\<rparr>) = Inl AlreadyLocked"
  by (subst open_reports_in_order) (simp_all add: ex_opening_def)

text \<open>A window below one millisecond, which \<open>open\<close> accepts, never blocks: it is truncated to no
  milliseconds, so that with nothing failing a second attempt at the very instant of a grant is
  granted again.\<close>

lemma short_window_never_blocks:
  assumes "nanos_of (gc_window (g_cfg g)) < 1000000"
    and "try_acquire_open enc dec io g s now = (g1, s1, Inr (Allowed u))"
    and "codec_ok enc dec" and "gc_fail_closed (g_cfg g)"
    and "ai_write_txn io = None" "ai_get io = None" "ai_put io = None" "ai_commit io = None"
  shows "\<exists>g2. try_acquire_open enc dec io g1 s1 now = (g2, s1, Inr (Allowed u))"
proof -
  have "as_millis (gc_window (g_cfg g)) = 0" using assms(1) by (simp add: as_millis_def)
  then have w: "window_ms g = 0" by (simp add: duration_to_millis_def)
  have z: "sat_add t 0 = t" for t :: u64 using unat_word_less [of t] by (simp add: sat_add_def)
  show ?thesis
    using assms(2)
  proof (cases rule: try_acquire_open_cases)
    case (failed err)
    from failed(3) show ?thesis by (cases rule: persist_error_cases) (use assms(4) in simp_all)
  next
    case (granted l b)
    have cfg: "g_cfg g1 = g_cfg g" and c: "g_cached_lock_until_ms g1 = duration_to_millis now"
      using granted(7) w by (simp_all add: z)
    have enc: "enc \<lparr>rec_version = 1, rec_lock_until_ms = duration_to_millis now,
        rec_updated_at_ms = duration_to_millis now, rec_window_ms = 0\<rparr> = Inr b"
      using granted(5) by (simp add: gate_record_def w z)
    then have dec: "dec b = Inr \<lparr>rec_version = 1, rec_lock_until_ms = duration_to_millis now,
        rec_updated_at_ms = duration_to_millis now, rec_window_ms = 0\<rparr>"
      using assms(3) by (simp add: codec_ok_def)
    have "read_lock_until_ms dec (ai_get io) (count_attempt g1) s1 = Inr (duration_to_millis now)"
      using granted(6) assms(6) dec by (simp add: read_lock_until_ms_def cfg gate_slot_def)
    then show ?thesis
      using granted assms(5-8) w enc
      by (simp add: try_acquire_open_def persist_grant_def Let_def c cfg z gate_slot_def)
  qed simp_all
qed

definition ex_short :: gate_config where
  "ex_short = gate_config_default\<lparr>gc_window := dur 500000\<rparr>"

lemma ex_short_grant:
  "\<exists>g g1 s1. gate_open ex_decode ex_opening ex_empty ex_short = Inr g \<and> g_cfg g = ex_short \<and>
    try_acquire_open ex_encode ex_decode ex_quiet g ex_empty (from_secs 1) = (g1, s1, Inr (Allowed (from_secs 1)))"
  by (simp add: open_gate_eval ex_opening_def ex_quiet_def ex_empty_def ex_short_def ex_encode_def eval_simps
      del: length_ex_field)

lemma short_window_never_blocks_witness:
  "\<exists>g g1 s1 g2. gate_open ex_decode ex_opening ex_empty ex_short = Inr g \<and>
    try_acquire_open ex_encode ex_decode ex_quiet g ex_empty (from_secs 1) = (g1, s1, Inr (Allowed (from_secs 1))) \<and>
    try_acquire_open ex_encode ex_decode ex_quiet g1 s1 (from_secs 1) = (g2, s1, Inr (Allowed (from_secs 1)))"
proof -
  obtain g g1 s1 where o: "gate_open ex_decode ex_opening ex_empty ex_short = Inr g" "g_cfg g = ex_short"
    and a: "try_acquire_open ex_encode ex_decode ex_quiet g ex_empty (from_secs 1) = (g1, s1, Inr (Allowed (from_secs 1)))"
    using ex_short_grant by blast
  have "nanos_of (gc_window (g_cfg g)) < 1000000" "gc_fail_closed (g_cfg g)"
    by (simp_all add: o(2) ex_short_def gate_config_default_def)
  from short_window_never_blocks [OF this(1) a ex_codec_ok this(2)] o(1) a show ?thesis
    by (simp add: ex_quiet_def)
qed

end
