(* ===== verification/Gate_Threads.thy ===== *)
theory Gate_Threads
  imports Open_Gate_Properties "HOL-Library.Sublist"
begin

text \<open>
  Threads that share one gate through \<open>SharedDurableOpenGate\<close> of \<open>src/src/durable_open_gate.rs\<close>: the
  mutex (\<open>Arc<Mutex<DurableOpenGate>>\<close>), who holds it, whether a panic has poisoned it, and how far
  each thread is in its call. Any thread moves next, and may panic while it holds the mutex; the
  process may be killed at any moment, also between the commit of a record and the return of the
  call. Every such run is, up to grants that never reached their caller, a sequence of whole
  attempts, so that what \<open>Open_Gate_Properties\<close> shows of those holds of threads.
\<close>

section \<open>The mutex and its threads\<close>

text \<open>
  A thread is outside, or holds the guard (\<open>shared_inner\<close>), or is in an attempt on the guarded
  gate, or has made it: what it wrote is then on disk, and the gate it computed and the answer are
  about to be seen by others.
\<close>

datatype 'h thread_phase =
    Outside
  | Guarding
  | Attempting (at_now: duration)
  | Returning (at_now: duration) (rt_gate: durable_open_gate) (rt_answer: "'h gate_error + open_gate_decision")

record ('t, 'h) shared_gate =
  sg_gate :: durable_open_gate
  sg_holder :: "'t option"
  sg_poisoned :: bool
  sg_phase :: "'t \<Rightarrow> 'h thread_phase"

text \<open>The gate is wrapped (\<open>SharedDurableOpenGate::new\<close>), after it was opened (\<open>SharedDurableOpenGate::open\<close>).\<close>

definition shared_new :: "durable_open_gate \<Rightarrow> ('t, 'h) shared_gate" where
  "shared_new g = \<lparr>sg_gate = g, sg_holder = None, sg_poisoned = False, sg_phase = (\<lambda>_. Outside)\<rparr>"

definition shared_open ::
  "decoder \<Rightarrow> 'h open_io \<Rightarrow> store \<Rightarrow> gate_config \<Rightarrow> 'h gate_error + ('t, 'h) shared_gate" where
  "shared_open dec io s cfg = map_sum id shared_new (gate_open dec io s cfg)"

text \<open>
  What \<open>Mutex::try_lock\<close> finds: a mutex that is taken refuses before it looks at the poison. Dropping
  the guard frees it; a drop during a panic poisons it.
\<close>

definition try_lock :: "('t, 'h) shared_gate \<Rightarrow> try_lock_result" where
  "try_lock sh =
     (if sg_holder sh \<noteq> None then LockHeld else if sg_poisoned sh then LockIsPoisoned else LockFree)"

definition take_lock :: "'t \<Rightarrow> 'h thread_phase \<Rightarrow> ('t, 'h) shared_gate \<Rightarrow> ('t, 'h) shared_gate" where
  "take_lock t ph sh = sh\<lparr>sg_holder := Some t, sg_phase := (sg_phase sh)(t := ph)\<rparr>"

definition drop_lock :: "'t \<Rightarrow> ('t, 'h) shared_gate \<Rightarrow> ('t, 'h) shared_gate" where
  "drop_lock t sh = sh\<lparr>sg_holder := None, sg_phase := (sg_phase sh)(t := Outside)\<rparr>"

text \<open>
  The steps of one thread, each with the grant that a caller gets to see. A call that finds the mutex
  taken or poisoned answers at once. One that finds it free takes it, makes the attempt, and
  returns. After a panic the guarded gate is arbitrary.
\<close>

inductive thread_step ::
  "encoder \<Rightarrow> decoder \<Rightarrow> 't \<Rightarrow> ('t, 'h) shared_gate \<times> store \<Rightarrow> grant option \<Rightarrow> ('t, 'h) shared_gate \<times> store \<Rightarrow> bool"
  for enc dec t where
  refused: "sg_phase sh t = Outside \<Longrightarrow> try_lock sh \<noteq> LockFree \<Longrightarrow>
    try_acquire_open_fail_closed (try_lock sh) enc dec (io :: 'h attempt_io) (sg_gate sh) s now = (g', s', r) \<Longrightarrow>
    thread_step enc dec t (sh, s) (grant_of (sg_gate sh) now r) (sh\<lparr>sg_gate := g'\<rparr>, s')"
| enters: "sg_phase sh t = Outside \<Longrightarrow> try_lock sh = LockFree \<Longrightarrow>
    thread_step enc dec t (sh, s) None (take_lock t (Attempting now) sh, s)"
| attempts: "sg_phase sh t = Attempting now \<Longrightarrow>
    try_acquire_open_fail_closed LockFree enc dec (io :: 'h attempt_io) (sg_gate sh) s now = (g', s', r) \<Longrightarrow>
    thread_step enc dec t (sh, s) None (sh\<lparr>sg_phase := (sg_phase sh)(t := Returning now g' r)\<rparr>, s')"
| returns: "sg_phase sh t = Returning now g' r \<Longrightarrow>
    thread_step enc dec t (sh, s) (grant_of g' now r) (drop_lock t (sh\<lparr>sg_gate := g'\<rparr>), s)"
| locks: "sg_phase sh t = Outside \<Longrightarrow> try_lock sh = LockFree \<Longrightarrow>
    thread_step enc dec t (sh, s) None (take_lock t Guarding sh, s)"
| unlocks: "sg_phase sh t = Guarding \<Longrightarrow> thread_step enc dec t (sh, s) None (drop_lock t sh, s)"
| panics: "sg_phase sh t \<noteq> Outside \<Longrightarrow>
    thread_step enc dec t (sh, s) None (drop_lock t (sh\<lparr>sg_gate := g'', sg_poisoned := True\<rparr>), s)"


inductive any_step ::
  "encoder \<Rightarrow> decoder \<Rightarrow> ('t, 'h) shared_gate \<times> store \<Rightarrow> grant option \<Rightarrow> ('t, 'h) shared_gate \<times> store \<Rightarrow> bool"
  for enc dec where
  moves: "thread_step enc dec t x gr y \<Longrightarrow> any_step enc dec x gr y"

section \<open>Mutual exclusion\<close>

definition mutually_exclusive :: "('t, 'h) shared_gate \<Rightarrow> bool" where
  "mutually_exclusive sh \<longleftrightarrow> (\<forall>t. sg_holder sh = Some t \<longleftrightarrow> sg_phase sh t \<noteq> Outside) \<and>
     (sg_poisoned sh \<longrightarrow> sg_holder sh = None)"

lemmas shared_gate_defs = shared_new_def try_lock_def take_lock_def drop_lock_def mutually_exclusive_def

lemma shared_new_exclusive [simp]: "mutually_exclusive (shared_new g)"
  by (simp add: shared_gate_defs)

lemma try_lock_free [simp]: "try_lock sh = LockFree \<longleftrightarrow> sg_holder sh = None \<and> \<not> sg_poisoned sh"
  by (simp add: try_lock_def)

lemma refused_changes_nothing:
  assumes "try_acquire_open_fail_closed lk enc dec io g s now = (g', s', r)" and "lk \<noteq> LockFree"
  shows "g' = g \<and> s' = s \<and> grant_of g now r = None"
  using assms by (auto elim: shared_attempt_cases)


lemma take_lock_exclusive:
  "mutually_exclusive sh \<Longrightarrow> try_lock sh = LockFree \<Longrightarrow> ph \<noteq> Outside \<Longrightarrow> mutually_exclusive (take_lock t ph sh)"
  by (auto simp: mutually_exclusive_def take_lock_def)

lemma drop_lock_exclusive:
  assumes "mutually_exclusive sh" and "sg_phase sh t \<noteq> Outside"
  shows "mutually_exclusive (drop_lock t (sh\<lparr>sg_gate := g, sg_poisoned := b\<rparr>))"
proof -
  have "sg_holder sh = Some t" using assms by (simp add: mutually_exclusive_def)
  then have "sg_phase sh u = Outside" if "u \<noteq> t" for u
    using that assms(1) by (metis mutually_exclusive_def option.inject)
  then show ?thesis by (simp add: mutually_exclusive_def drop_lock_def)
qed

lemma thread_step_exclusive:
  assumes "thread_step enc dec t (sh, s) gr (sh', s')" and "mutually_exclusive sh"
  shows "mutually_exclusive sh'"
  using assms
proof cases
  case (refused io now g' r)
  then show ?thesis using assms(2) by (simp add: mutually_exclusive_def)
next
  case (attempts now io g' r)
  then show ?thesis using assms(2) by (simp add: mutually_exclusive_def)
next
  case (returns now g' r)
  then show ?thesis using drop_lock_exclusive [OF assms(2), of t "sg_poisoned sh" g'] by simp
next
  case unlocks
  then show ?thesis using drop_lock_exclusive [OF assms(2), of t "sg_poisoned sh" "sg_gate sh"] by simp
qed (simp_all add: take_lock_exclusive drop_lock_exclusive assms(2))

section \<open>Runs of threads are runs of attempts\<close>

text \<open>The gate as the last attempt left it, and the grant that its caller has not seen yet.\<close>

definition gate_in_effect :: "('t, 'h) shared_gate \<Rightarrow> durable_open_gate" where
  "gate_in_effect sh =
     (case sg_holder sh of
        None \<Rightarrow> sg_gate sh
      | Some t \<Rightarrow> (case sg_phase sh t of Returning _ g' _ \<Rightarrow> g' | _ \<Rightarrow> sg_gate sh))"

definition grant_pending :: "('t, 'h) shared_gate \<Rightarrow> grant list" where
  "grant_pending sh =
     (case sg_holder sh of
        None \<Rightarrow> []
      | Some t \<Rightarrow> (case sg_phase sh t of
            Returning now g' r \<Rightarrow> (case grant_of g' now r of None \<Rightarrow> [] | Some gr \<Rightarrow> [gr])
          | _ \<Rightarrow> []))"

text \<open>An attempt takes effect when it has been made; all else leaves the gate in effect as it was.\<close>

definition grant_list :: "grant option \<Rightarrow> grant list" where
  "grant_list gr = (case gr of None \<Rightarrow> [] | Some x \<Rightarrow> [x])"

lemma thread_step_session:
  assumes "thread_step enc dec t (sh, s) gr (sh', s')" and "mutually_exclusive sh"
    and "sg_poisoned sh \<or> g = gate_in_effect sh"
  obtains gr' g' where "session_step TYPE('h) enc dec (g, s) gr' (g', s') \<or> gr' = None \<and> g' = g \<and> s' = s"
    "subseq (grant_list gr @ grant_pending sh') (grant_pending (sh :: ('t, 'h) shared_gate) @ grant_list gr')"
    "sg_poisoned sh' \<or> g' = gate_in_effect sh'"
proof -
  have h: "sg_phase sh t \<noteq> Outside \<Longrightarrow> sg_holder sh = Some t \<and> \<not> sg_poisoned sh"
    using assms(2) by (auto simp: mutually_exclusive_def)
  note effect = gate_in_effect_def grant_pending_def grant_list_def take_lock_def drop_lock_def
  from assms(1) show thesis
  proof cases
    case (refused io now g' r)
    then have "g' = sg_gate sh" "s' = s" "gr = None" using refused_changes_nothing by metis+
    with refused assms(3) show ?thesis by (intro that [of None g]) (simp_all add: effect)
  next
    case (attempts now io g' r)
    then have "session_step TYPE('h) enc dec (sg_gate sh, s) (grant_of (sg_gate sh) now r) (g', s')"
      by (intro session_step.attempt [where lk = LockFree and now = now and io = io]) simp_all
    moreover have "g_cfg g' = g_cfg (sg_gate sh)"
      using attempts by (auto simp: try_acquire_open_fail_closed_def intro: attempt_cfg)
    then have "grant_of g' now r = grant_of (sg_gate sh) now r" by (simp add: grant_of_def cong: sum.case_cong open_gate_decision.case_cong)
    ultimately show ?thesis using attempts h assms(3)
      by (intro that [of "grant_of (sg_gate sh) now r" g']) (simp_all add: effect split: option.split)
  next
    case (returns now g' r)
    then show ?thesis using h assms(3) by (intro that [of None g]) (simp_all add: effect split: option.split)
  next
    case (panics g'')
    then show ?thesis by (intro that [of None g]) (simp_all add: effect)
  qed (use h assms(3) in \<open>auto intro!: that [of None g] simp: effect\<close>)
qed

lemma grants_run_grow:
  "grants_run stp x gs y \<Longrightarrow> stp y gr z \<Longrightarrow> grants_run stp x (gs @ grant_list gr) z"
  by (cases gr) (auto simp: grant_list_def intro: grants_run.silent [where stp = stp] grants_run.grants [where stp = stp])

lemma grants_run_split [consumes 1, case_names start step]:
  assumes "grants_run stp x gs y"
    and "P []  x" and "\<And>gs y gr z. grants_run stp x gs y \<Longrightarrow> P gs y \<Longrightarrow> stp y gr z \<Longrightarrow> P (gs @ grant_list gr) z"
  shows "P gs y"
  using assms
proof (induction rule: grants_run.induct)
  case (silent s gs s' s'')
  then show ?case using silent.prems(2) [OF silent.hyps(1) _ silent.hyps(2)] by (simp add: grant_list_def)
next
  case (grants s gs s' gr s'')
  then show ?case using grants.prems(2) [OF grants.hyps(1) _ grants.hyps(2)] by (simp add: grant_list_def)
qed

lemma grants_run_append:
  assumes "grants_run stp x gs y" and "grants_run stp y gs' z"
  shows "grants_run stp x (gs @ gs') z"
  using assms(2)
proof (induction rule: grants_run_split)
  case (step gs' y' gr z)
  from grants_run_grow [where stp = stp, OF step.IH step.hyps(2)] show ?case by simp
qed (use assms(1) in simp)

lemma subseq_chain:
  "subseq (gs @ p) gs' \<Longrightarrow> subseq (a @ q) (p @ b) \<Longrightarrow> subseq ((gs @ a) @ q) (gs' @ b)"
proof -
  assume 1: "subseq (gs @ p) gs'" and 2: "subseq (a @ q) (p @ b)"
  have "subseq (gs @ a @ q) (gs @ p @ b)" using 2 by (simp add: subseq_append')
  also have "subseq (gs @ p @ b) (gs' @ b)" using 1 list_emb_append_mono [OF 1, of b b] by simp
  finally show ?thesis by simp
qed

lemma any_run_session:
  assumes "grants_run (any_step enc dec) (shared_new g0, s0) gs (y :: ('t, 'h) shared_gate \<times> store)"
  shows "mutually_exclusive (fst y) \<and> (\<exists>g gs'. grants_run (session_step TYPE('h) enc dec) (g0, s0) gs' (g, snd y) \<and>
    subseq (gs @ grant_pending (fst y)) gs' \<and> (sg_poisoned (fst y) \<or> g = gate_in_effect (fst y)))"
  using assms
proof (induction rule: grants_run_split)
  case start
  show ?case
    using shared_new_exclusive [of g0]
    by (auto simp: grant_pending_def gate_in_effect_def shared_new_def intro: grants_run.start)
next
  case (step gs y gr z)
  obtain sh s sh' s' where yz: "y = (sh, s)" "z = (sh', s')" by fastforce
  obtain t where st: "thread_step enc dec t (sh, s) gr (sh', s')" using step.hyps(2) yz by (auto elim: any_step.cases)
  obtain g gs' where r: "grants_run (session_step TYPE('h) enc dec) (g0, s0) gs' (g, s)"
    "subseq (gs @ grant_pending sh) gs'" "sg_poisoned sh \<or> g = gate_in_effect sh" and ex: "mutually_exclusive sh"
    using step.IH yz by auto
  from st ex r(3) obtain gr' g' where x: "session_step TYPE('h) enc dec (g, s) gr' (g', s') \<or> gr' = None \<and> g' = g \<and> s' = s"
    "subseq (grant_list gr @ grant_pending sh') (grant_pending sh @ grant_list gr')"
    "sg_poisoned sh' \<or> g' = gate_in_effect sh'" by (rule thread_step_session)
  have "grants_run (session_step TYPE('h) enc dec) (g0, s0) (gs' @ grant_list gr') (g', s')"
    using x(1) r(1) grants_run_grow [OF r(1)] by (auto simp: grant_list_def)
  moreover have "subseq ((gs @ grant_list gr) @ grant_pending sh') (gs' @ grant_list gr')"
    using r(2) x(2) by (rule subseq_chain)
  ultimately show ?case using x(3) thread_step_exclusive [OF st ex] yz by auto
qed

lemma spaced_subseq: "subseq gs gs' \<Longrightarrow> spaced gs' \<Longrightarrow> spaced gs"
  unfolding spaced_def
  by (induction rule: list_emb.induct) (auto elim!: list_emb_set)

lemma subseq_front: "subseq (gs @ p) gs' \<Longrightarrow> subseq gs gs'"
  using subseq_order.trans [OF subseq_rev_drop_many [OF subseq_order.refl]] by blast

text \<open>A poisoned mutex lets nobody in, for good.\<close>

lemma exclusive_poisoned:
  assumes "mutually_exclusive sh" and "sg_poisoned sh" and "thread_step enc dec t (sh, s) gr (sh', s')"
  shows "gr = None \<and> sh' = sh \<and> s' = s"
proof -
  have "sg_holder sh = None" using assms(1,2) by (simp add: mutually_exclusive_def)
  then have "sg_phase sh t = Outside" using assms(1) by (metis mutually_exclusive_def option.distinct(1))
  with assms(3,2) show ?thesis
    by cases (auto dest: refused_changes_nothing)
qed

lemma poisoned_run:
  assumes "grants_run (any_step enc dec) (sh, s) gs y" and "mutually_exclusive sh" and "sg_poisoned sh"
  shows "gs = [] \<and> y = (sh, s)"
  using assms(1)
proof (induction rule: grants_run_split)
  case (step gs y gr z)
  then show ?case using exclusive_poisoned [OF assms(2,3)]
    by (cases z) (fastforce elim!: any_step.cases simp: grant_list_def)
qed simp

section \<open>A directory and the threads of its process\<close>

text \<open>
  The process opens with one of the configurations \<open>cfgs\<close>. They agree when all name the same record
  and fail closed.
\<close>

definition agreeing :: "string \<times> string \<Rightarrow> gate_config set \<Rightarrow> bool" where
  "agreeing slot cfgs \<longleftrightarrow>
     (\<forall>cfg \<in> cfgs. gc_fail_closed cfg \<and> (gc_db_name cfg, gc_record_key cfg) = slot)"

inductive host_step ::
  "encoder \<Rightarrow> decoder \<Rightarrow> gate_config set \<Rightarrow> ('t, 'h) shared_gate option \<times> store \<Rightarrow> grant option
    \<Rightarrow> ('t, 'h) shared_gate option \<times> store \<Rightarrow> bool"
  for enc dec cfgs where
  opened: "shared_open dec (io :: 'h open_io) s cfg = Inr sh \<Longrightarrow> cfg \<in> cfgs \<Longrightarrow>
    host_step enc dec cfgs (None, s) None (Some sh, s)"
| thread: "thread_step enc dec t (sh, s) gr (sh', s') \<Longrightarrow> host_step enc dec cfgs (Some sh, s) gr (Some sh', s')"
| killed: "host_step enc dec cfgs (Some sh, s) None (None, s)"

definition host_pending :: "('t, 'h) shared_gate option \<Rightarrow> grant list" where
  "host_pending x = (case x of None \<Rightarrow> [] | Some sh \<Rightarrow> grant_pending sh)"

definition simulates :: "('t, 'h) shared_gate option \<Rightarrow> durable_open_gate option \<Rightarrow> bool" where
  "simulates x og \<longleftrightarrow>
     (case (x, og) of
        (None, None) \<Rightarrow> True
      | (Some sh, Some g) \<Rightarrow> mutually_exclusive sh \<and> (sg_poisoned sh \<or> g = gate_in_effect sh)
      | _ \<Rightarrow> False)"

lemma session_life:
  "session_step h enc dec (g, s) gr (g', s') \<Longrightarrow>
    life_step h enc dec slot (Some g, s) gr (Some g', s') \<or> gr = None \<and> g' = g \<and> s' = s"
  by (auto elim!: session_step.cases shared_attempt_cases intro: life_step.attempt)

lemma host_step_life:
  assumes "host_step enc dec cfgs (x, s) gr (x', s')" and agree: "agreeing slot cfgs" and "simulates (x :: ('t, 'h) shared_gate option) og"
  obtains gr' og' where "life_step TYPE('h) enc dec slot (og, s) gr' (og', s') \<or> gr' = None \<and> og' = og \<and> s' = s"
    "subseq (grant_list gr @ host_pending x') (host_pending x @ grant_list gr')" "simulates x' og'"
  using assms(1)
proof cases
  case (opened io cfg sh)
  then obtain g where g: "gate_open dec io s cfg = Inr g" "sh = shared_new g"
    by (auto simp: shared_open_def map_sum_def split: sum.splits)
  have "simulates x' (Some g)" using opened g shared_new_exclusive [of g]
    by (simp add: simulates_def gate_in_effect_def) (simp add: shared_new_def)
  moreover have "og = None" using opened assms(3) by (simp add: simulates_def split: option.splits)
  moreover have "gc_fail_closed cfg" "(gc_db_name cfg, gc_record_key cfg) = slot"
    using agree opened(6) by (simp_all add: agreeing_def)
  ultimately show ?thesis using opened g life_step.opened [OF g(1)]
    by (intro that [of None "Some g"]) (simp_all add: grant_list_def host_pending_def grant_pending_def shared_new_def)
next
  case (thread t sh sh')
  then obtain g where g: "og = Some g" "mutually_exclusive sh" "sg_poisoned sh \<or> g = gate_in_effect sh"
    using assms(3) by (auto simp: simulates_def split: option.splits)
  from thread(3) g(2,3) obtain gr' g' where
    y: "session_step TYPE('h) enc dec (g, s) gr' (g', s') \<or> gr' = None \<and> g' = g \<and> s' = s"
      "subseq (grant_list gr @ grant_pending sh') (grant_pending sh @ grant_list gr')"
      "sg_poisoned sh' \<or> g' = gate_in_effect sh'"
    by (rule thread_step_session)
  show ?thesis
    using thread y g session_life [of "TYPE('h)" enc dec g s gr' g' s' slot] thread_step_exclusive [OF thread(3) g(2)]
    by (intro that [of gr' "Some g'"]) (auto simp: host_pending_def simulates_def)
next
  case (killed sh)
  then obtain g where "og = Some g" using assms(3) by (auto simp: simulates_def split: option.splits)
  with killed show ?thesis using life_step.stopped [of "TYPE('h)" enc dec slot g s]
    by (intro that [of None None]) (simp_all add: grant_list_def host_pending_def simulates_def)
qed

lemma host_run_life:
  assumes "grants_run (host_step enc dec cfgs) (None, s0) gs (y :: ('t, 'h) shared_gate option \<times> store)"
    and agree: "agreeing slot cfgs"
  shows "\<exists>og gs'. grants_run (life_step TYPE('h) enc dec slot) (None, s0) gs' (og, snd y) \<and>
    subseq (gs @ host_pending (fst y)) gs' \<and> simulates (fst y) og"
  using assms(1)
proof (induction rule: grants_run_split)
  case start
  show ?case
    by (rule exI [of _ None], rule exI [of _ "[]"]) (simp add: host_pending_def simulates_def grants_run.start)
next
  case (step gs y gr z)
  obtain x s x' s' where yz: "y = (x, s)" "z = (x', s')" by fastforce
  obtain og gs' where r: "grants_run (life_step TYPE('h) enc dec slot) (None, s0) gs' (og, s)"
    "subseq (gs @ host_pending x) gs'" "simulates x og"
    using step.IH yz by auto
  from step.hyps(2) [unfolded yz] r(3) obtain gr' og' where
    l: "life_step TYPE('h) enc dec slot (og, s) gr' (og', s') \<or> gr' = None \<and> og' = og \<and> s' = s"
    "subseq (grant_list gr @ host_pending x') (host_pending x @ grant_list gr')" "simulates x' og'"
    by (rule host_step_life [OF _ agree])
  have "grants_run (life_step TYPE('h) enc dec slot) (None, s0) (gs' @ grant_list gr') (og', s')"
    using l(1) r(1) grants_run_grow [OF r(1)] by (auto simp: grant_list_def)
  with subseq_chain [OF r(2) l(2)] l(3) show ?case using yz by auto
qed

lemma any_run_spaced:
  assumes "grants_run (any_step enc dec) (shared_new g, s) gs (y :: ('t, 'h) shared_gate \<times> store)"
  shows "spaced gs \<and> (\<forall>(t, w) \<in> set gs. g_cached_lock_until_ms g \<le> t)"
proof -
  obtain g' gs' where r: "grants_run (session_step TYPE('h) enc dec) (g, s) gs' (g', snd y)"
    "subseq (gs @ grant_pending (fst y)) gs'" using any_run_session [OF assms] by blast
  have sub: "subseq gs gs'" using r(2) by (rule subseq_front)
  then show ?thesis using session_lock.run_spaced [OF r(1)] spaced_subseq [OF sub] by (auto elim!: list_emb_set)
qed

section \<open>A run with two threads\<close>

text \<open>
  Thread 0 takes the mutex and is granted; thread 1 then panics with the guard and poisons it, or
  the process is killed.
\<close>

lemma ex_threads:
  obtains sh1 sh2 sh3 s where
    "grants_run (any_step ex_encode ex_decode) (shared_new ex_gate, ex_empty) [] (sh1 :: (nat, unit) shared_gate, ex_empty)"
    "sg_phase sh1 0 = Attempting (from_secs 1)"
    "grants_run (any_step ex_encode ex_decode) (shared_new ex_gate, ex_empty) [(1000, 1800000)] (sh2 :: (nat, unit) shared_gate, s)"
    "grants_run (any_step ex_encode ex_decode) (shared_new ex_gate, ex_empty) [(1000, 1800000)] (sh3 :: (nat, unit) shared_gate, s)"
    "sg_poisoned sh3"
proof -
  let ?sh0 = "shared_new ex_gate :: (nat, unit) shared_gate"
  let ?sh1 = "take_lock 0 (Attempting (from_secs 1)) ?sh0"
  let ?st = "any_step ex_encode ex_decode :: (nat, unit) shared_gate \<times> store \<Rightarrow> _"
  obtain g s where a: "try_acquire_open ex_encode ex_decode ex_quiet ex_gate ex_empty (from_secs 1) =
      (g, s, Inr (Allowed (from_secs 1801)))" "g_cfg g = gate_config_default" using ex_grant by blast
  have gr: "grant_of g (from_secs 1) (Inr (Allowed (from_secs 1801)) :: unit gate_error + open_gate_decision) =
      Some (1000, 1800000)"
    by (simp add: grant_of_def a(2) eval_simps)
  let ?sh2 = "?sh1\<lparr>sg_phase := (sg_phase ?sh1)(0 := Returning (from_secs 1) g (Inr (Allowed (from_secs 1801))))\<rparr>"
  let ?sh3 = "drop_lock 0 (?sh2\<lparr>sg_gate := g\<rparr>)"
  let ?sh4 = "take_lock 1 Guarding ?sh3"
  let ?sh5 = "drop_lock 1 (?sh4\<lparr>sg_gate := g, sg_poisoned := True\<rparr>)"
  have "?st (?sh0, ex_empty) None (?sh1, ex_empty)"
    by (intro moves [where t = 0] enters) (simp_all add: shared_new_def)
  note 1 = grants_run.silent [where stp = ?st, OF grants_run.start this]
  have "?st (?sh1, ex_empty) None (?sh2, s)"
    by (intro moves [where t = 0] attempts [where io = ex_quiet])
      (use a(1) in \<open>simp_all add: shared_new_def take_lock_def try_acquire_open_fail_closed_def\<close>)
  note 2 = grants_run.silent [where stp = ?st, OF 1 this]
  have "?st (?sh2, s) (grant_of g (from_secs 1) (Inr (Allowed (from_secs 1801)) :: unit gate_error + open_gate_decision)) (?sh3, s)"
    by (intro moves [where t = 0] returns) simp
  note 3 = grants_run.grants [where stp = ?st, OF 2 this [unfolded gr]]
  have "?st (?sh3, s) None (?sh4, s)"
    by (intro moves [where t = 1] locks) (simp_all add: shared_new_def take_lock_def drop_lock_def)
  note 4 = grants_run.silent [where stp = ?st, OF 3 this]
  have "?st (?sh4, s) None (?sh5, s)"
    by (intro moves [where t = 1] panics) (simp add: take_lock_def)
  note 5 = grants_run.silent [where stp = ?st, OF 4 this]
  from 1 3 5 show thesis
    by (intro that [of ?sh1 ?sh3 s ?sh5]) (simp_all add: take_lock_def drop_lock_def)
qed

lemma any_run_host:
  assumes "grants_run (any_step enc dec) x gs y"
    and "grants_run (host_step enc dec cfgs) z [] (Some (fst x), snd x)"
  shows "grants_run (host_step enc dec cfgs) z gs (Some (fst y), snd y)"
  using assms(1)
proof (induction rule: grants_run_split)
  case (step gs y gr z')
  have "host_step enc dec cfgs (Some (fst y), snd y) gr (Some (fst z'), snd z')"
    using step.hyps(2) by (auto elim!: any_step.cases simp: host_step.thread intro: host_step.thread)
  with step.IH show ?case by (rule grants_run_grow)
qed (use assms(2) in simp)

lemma ex_host:
  obtains s where "grants_run (host_step ex_encode ex_decode {gate_config_default}) (None, ex_empty) [(1000, 1800000)]
    (None :: (nat, unit) shared_gate option, s)"
proof -
  let ?st = "host_step ex_encode ex_decode {gate_config_default} :: (nat, unit) shared_gate option \<times> store \<Rightarrow> _"
  obtain sh s where r: "grants_run (any_step ex_encode ex_decode) (shared_new ex_gate, ex_empty) [(1000, 1800000)]
      (sh :: (nat, unit) shared_gate, s)" by (rule ex_threads)
  have "?st (None, ex_empty) None (Some (shared_new ex_gate), ex_empty)"
    by (rule opened [where io = ex_opening and cfg = gate_config_default])
      (simp_all add: shared_open_def ex_gate_open)
  note 1 = grants_run.silent [where stp = ?st, OF grants_run.start this]
  have "grants_run ?st (None, ex_empty) [(1000, 1800000)] (Some sh, s)"
    using any_run_host [OF r, of "{gate_config_default}" "(None, ex_empty)"] 1 by simp
  from grants_run.silent [where stp = ?st, OF this killed] show thesis by (rule that)
qed

section \<open>What threads can rely on\<close>

text \<open>C10: At most one thread is with the gate: in every run of threads that share it, with calls, guards held
  and panics in any order, when a thread is inside its call or holds the guard every other is
  outside, and a call of any other answers at once that it is blocked, until now, and changes nothing.\<close>

theorem one_thread_at_a_time:
  assumes "grants_run (any_step enc dec) (shared_new g, s) gs (sh :: ('t, 'h) shared_gate, s')"
    and "sg_phase sh t \<noteq> Outside" and "u \<noteq> t"
  shows "sg_phase sh u = Outside \<and> try_lock sh = LockHeld \<and>
    try_acquire_open_fail_closed (try_lock sh) enc dec (io :: 'h attempt_io) (sg_gate sh) s' now =
      (sg_gate sh, s', Inr (Blocked now))"
proof -
  have "mutually_exclusive sh" using any_run_session [OF assms(1)] by simp
  then have h: "sg_holder sh = Some t" and "sg_phase sh u = Outside"
    using assms(2,3) by (auto simp: mutually_exclusive_def) (metis option.inject)
  then show ?thesis by (simp add: try_lock_def try_acquire_open_fail_closed_def)
qed

lemma one_thread_at_a_time_witness:
  "\<exists>sh. sg_phase sh 0 = Attempting (from_secs 1) \<and>
    try_acquire_open_fail_closed (try_lock sh) ex_encode ex_decode ex_quiet (sg_gate sh) ex_empty (from_secs 2) =
      (sg_gate (sh :: (nat, unit) shared_gate), ex_empty, Inr (Blocked (from_secs 2)))"
proof -
  obtain sh1 where r: "grants_run (any_step ex_encode ex_decode) (shared_new ex_gate, ex_empty) []
      (sh1 :: (nat, unit) shared_gate, ex_empty)" and p: "sg_phase sh1 0 = Attempting (from_secs 1)"
    by (rule ex_threads)
  have "sg_phase sh1 0 \<noteq> Outside" and "(1 :: nat) \<noteq> 0" using p by simp_all
  from one_thread_at_a_time [OF r this, of ex_quiet "from_secs 2"] p show ?thesis by blast
qed

text \<open>C33: Within one process the grants of a gate are spaced by the window whatever fails and however threads
  interleave: over any run of any number of threads, with instants in any order, any LMDB failures,
  any record format, panics, and whether the gate fails open or closed, the grants that callers get
  to see come, each, no earlier than the instant of any before it plus its window, in milliseconds,
  and than the lock the gate began with.\<close>

theorem threads_spaced_in_process:
  assumes "grants_run (any_step enc dec) (shared_new g, s) gs (y :: ('t, 'h) shared_gate \<times> store)"
  shows "spaced gs \<and> (\<forall>(t, w) \<in> set gs. g_cached_lock_until_ms g \<le> t)"
  using assms by (rule any_run_spaced)

lemma threads_spaced_in_process_witness:
  "\<exists>y. grants_run (any_step ex_encode ex_decode) (shared_new ex_gate :: (nat, unit) shared_gate, ex_empty) [(1000, 1800000)] y \<and>
    spaced [(1000, 1800000)]"
proof -
  obtain sh s where "grants_run (any_step ex_encode ex_decode) (shared_new ex_gate, ex_empty) [(1000, 1800000)]
      (sh :: (nat, unit) shared_gate, s)"
    by (rule ex_threads)
  with threads_spaced_in_process [OF this] show ?thesis by blast
qed

lemma ex_agreeing [simp]: "agreeing ex_slot {gate_config_default}"
  by (simp add: agreeing_def gate_config_default_def ex_slot_def)

text \<open>Threads refine the life of the directory, and calls are atomic on disk: whatever is opened with
  configurations that fail closed on the same record, however the
  threads of the process interleave and panic, and wherever in a call the process is killed, even
  after the record is on disk and before the caller has its answer, there is a life of whole
  attempts, one after the other, that leaves the same disk and makes the same grants in the same
  order, up to grants that reached no caller.\<close>

lemma threads_refine_life:
  assumes "grants_run (host_step enc dec cfgs) (None, s) gs (y :: ('t, 'h) shared_gate option \<times> store)"
    and "agreeing slot cfgs"
  shows "\<exists>og gs'. grants_run (life_step TYPE('h) enc dec slot) (None, s) gs' (og, snd y) \<and> subseq gs gs'"
  using host_run_life [OF assms] by (blast intro: subseq_front)

lemma threads_refine_life_witness:
  "\<exists>og gs' s. grants_run (life_step TYPE(unit) ex_encode ex_decode ex_slot) (None, ex_empty) gs' (og, s) \<and>
    subseq [(1000, 1800000)] gs'"
proof -
  obtain s where "grants_run (host_step ex_encode ex_decode {gate_config_default}) (None, ex_empty) [(1000, 1800000)]
      (None :: (nat, unit) shared_gate option, s)"
    by (rule ex_host)
  from threads_refine_life [OF this ex_agreeing] show ?thesis by auto
qed

text \<open>
  With it the grants that callers of all processes have seen are spaced across restarts, and the
  record on disk holds every one of them.
\<close>

lemma threads_durable:
  assumes "codec_ok enc dec" and agree: "agreeing slot cfgs"
    and "grants_run (host_step enc dec cfgs) (None, s) gs (y :: ('t, 'h) shared_gate option \<times> store)"
  shows "spaced gs \<and> (\<forall>(t, w) \<in> set gs. sat_add t w \<le> stored_lock dec slot (snd y))"
proof -
  obtain og gs' where r: "grants_run (life_step TYPE('h) enc dec slot) (None, s) gs' (og, snd y)"
    and "subseq (gs @ host_pending (fst y)) gs'"
    using host_run_life [OF assms(3) agree] by blast
  then have sub: "subseq gs gs'" by (rule_tac subseq_front)
  have "closed_gate enc dec slot (None, s)" using assms(1) by (simp add: closed_gate_def)
  from durable_lock.run_spaced [OF r this] spaced_subseq [OF sub] sub show ?thesis by (auto elim!: list_emb_set)
qed

text \<open>A call that no other thread disturbs is the sequential function, whatever the mutex is like.\<close>

lemma call_is_sequential:
  assumes "sg_phase sh t = Outside"
    and "try_acquire_open_fail_closed (try_lock sh) enc dec (io :: 'h attempt_io) (sg_gate sh) s now = (g', s', r)"
  shows "grants_run (thread_step enc dec t) (sh :: ('t, 'h) shared_gate, s) (grant_list (grant_of (sg_gate sh) now r))
    (sh\<lparr>sg_gate := g'\<rparr>, s')"
proof (cases "try_lock sh = LockFree")
  case True
  let ?sh1 = "take_lock t (Attempting now) sh"
  let ?sh2 = "?sh1\<lparr>sg_phase := (sg_phase ?sh1)(t := Returning now g' r)\<rparr>"
  let ?st = "thread_step enc dec t"
  have 1: "?st (sh, s) None (?sh1, s)" using assms(1) True by (rule enters)
  have a: "try_acquire_open_fail_closed LockFree enc dec io (sg_gate ?sh1) s now = (g', s', r)"
    using assms(2) True by (simp add: take_lock_def)
  have 2: "?st (?sh1, s) None (?sh2, s')" by (rule attempts [OF _ a]) (simp add: take_lock_def)
  have 3: "?st (?sh2, s') (grant_of g' now r) (drop_lock t (?sh2\<lparr>sg_gate := g'\<rparr>), s')" by (rule returns) simp
  have "grant_of g' now r = grant_of (sg_gate sh) now r"
    using attempt_cfg [of enc dec io "sg_gate sh" s now g' s' r] assms(2) True
    by (simp add: grant_of_def try_acquire_open_fail_closed_def cong: sum.case_cong open_gate_decision.case_cong)
  moreover have "drop_lock t (?sh2\<lparr>sg_gate := g'\<rparr>) = sh\<lparr>sg_gate := g'\<rparr>"
    using assms(1) True by (simp add: take_lock_def drop_lock_def fun_upd_idem)
  ultimately show ?thesis
    using grants_run_grow [where stp = ?st, OF grants_run_grow [where stp = ?st, OF
        grants_run_grow [where stp = ?st, OF grants_run.start 1] 2] 3]
    by (simp add: grant_list_def)
next
  case False
  from refused [OF assms(1) False assms(2)] show ?thesis
    using grants_run_grow [where stp = "thread_step enc dec t", OF grants_run.start] by fastforce
qed

text \<open>After a panic with the gate nothing is granted until the process ends.\<close>

lemma poisoned_grants_nothing:
  assumes "grants_run (any_step enc dec) (shared_new g, s) gs (sh :: ('t, 'h) shared_gate, s')" and "sg_poisoned sh"
    and "grants_run (any_step enc dec) (sh, s') gs' y"
  shows "gs' = [] \<and> y = (sh, s') \<and>
    try_acquire_open_fail_closed (try_lock sh) enc dec (io :: 'h attempt_io) (sg_gate sh) s' now =
      (sg_gate sh, s', Inl LockPoisoned)"
proof -
  have ex: "mutually_exclusive sh" using any_run_session [OF assms(1)] by simp
  with assms(2) have "try_lock sh = LockIsPoisoned" by (simp add: mutually_exclusive_def try_lock_def)
  with poisoned_run [OF assms(3) ex assms(2)] show ?thesis by (simp add: try_acquire_open_fail_closed_def)
qed

end
