(* ===== verification/Gate_World.thy ===== *)
theory Gate_World
  imports Gate_Threads
begin

text \<open>
  Processes that share a directory of \<open>src/src/durable_open_gate.rs\<close>: the file lock
  (\<open>FileLock\<close>, \<open>_file_lock\<close>), the gate of every process behind its mutex, with the threads of the
  process (\<open>Gate_Threads\<close>), and the disk. Any thread of any process moves next. That the lock excludes
  while it is held is what the operating system promises (\<open>lock_excludes\<close>); that processes then
  follow one another is proved here.
\<close>

section \<open>The world\<close>

record ('p, 't, 'h) world =
  w_lock :: "'p option"
  w_gate :: "'p \<Rightarrow> ('t, 'h) shared_gate option"
  w_store :: store

definition world_new :: "store \<Rightarrow> ('p, 't, 'h) world" where
  "world_new s = \<lparr>w_lock = None, w_gate = (\<lambda>_. None), w_store = s\<rparr>"

text \<open>What the operating system promises of the file lock: while a process holds it, another is refused.\<close>

definition lock_excludes :: "('p, 't, 'h) world \<Rightarrow> 'h open_io \<Rightarrow> bool" where
  "lock_excludes w io \<longleftrightarrow> (w_lock w \<noteq> None \<longrightarrow> oi_try_lock_exclusive io = Some WouldBlock)"

text \<open>
  A process opens the directory (\<open>SharedDurableOpenGate::open\<close>): the gate it then has owns the file
  lock, and an \<open>open\<close> that fails drops the lock it may have taken. A process that is gone, whatever
  its threads were doing, has dropped its gate, and the lock with it. A process that opens twice
  counts as two.
\<close>

definition process_open ::
  "decoder \<Rightarrow> 'h open_io \<Rightarrow> gate_config \<Rightarrow> 'p \<Rightarrow> ('p, 't, 'h) world
    \<Rightarrow> ('p, 't, 'h) world \<times> ('h gate_error + unit)" where
  "process_open dec io cfg p w =
     (case shared_open dec io (w_store w) cfg of
        Inl err \<Rightarrow> (w, Inl err)
      | Inr g \<Rightarrow> (w\<lparr>w_lock := Some p, w_gate := (w_gate w)(p \<mapsto> g)\<rparr>, Inr ()))"

definition process_drop :: "'p \<Rightarrow> ('p, 't, 'h) world \<Rightarrow> ('p, 't, 'h) world" where
  "process_drop p w =
     w\<lparr>w_lock := (if w_lock w = Some p then None else w_lock w), w_gate := (w_gate w)(p := None)\<rparr>"

text \<open>
  Any process may move next, with any failures; a process opens with one of the configurations
  \<open>cfgs\<close>. Nothing is asked of them here: they may fail open, and name different records.
\<close>

inductive world_step ::
  "encoder \<Rightarrow> decoder \<Rightarrow> gate_config set \<Rightarrow> ('p, 't, 'h) world \<Rightarrow> grant option \<Rightarrow> ('p, 't, 'h) world \<Rightarrow> bool"
  for enc dec cfgs where
  opens: "lock_excludes w io \<Longrightarrow> w_gate w p = None \<Longrightarrow> cfg \<in> cfgs \<Longrightarrow>
    process_open dec io cfg p w = (w', r) \<Longrightarrow>
    world_step enc dec cfgs w None w'"
| threads: "w_gate w p = Some sh \<Longrightarrow> thread_step enc dec t (sh, w_store w) gr (sh', s') \<Longrightarrow>
    world_step enc dec cfgs w gr (w\<lparr>w_gate := (w_gate w)(p \<mapsto> sh'), w_store := s'\<rparr>)"
| drops: "world_step enc dec cfgs w None (process_drop p w)"

section \<open>Mutual exclusion\<close>

definition exclusive :: "('p, 't, 'h) world \<Rightarrow> bool" where
  "exclusive w \<longleftrightarrow> (\<forall>p. w_lock w = Some p \<longleftrightarrow> w_gate w p \<noteq> None)"

text \<open>A gate is made only with the lock.\<close>

lemma shared_open_locked:
  "shared_open dec io s cfg = Inr g \<Longrightarrow> oi_try_lock_exclusive io = None"
  by (auto simp: shared_open_def map_sum_def gate_open_def open_environment_def file_lock_acquire_def
      split: sum.splits option.splits if_splits)

lemma process_open_cases:
  assumes "process_open dec io cfg p w = (w', r)" and "lock_excludes w io"
  obtains (failed) err where "w' = w" "r = Inl err"
    | (opened) g where "w_lock w = None" "shared_open dec io (w_store w) cfg = Inr g"
        "w' = w\<lparr>w_lock := Some p, w_gate := (w_gate w)(p \<mapsto> g)\<rparr>" "r = Inr ()"
  using assms shared_open_locked [of dec io "w_store w" cfg]
  by (fastforce simp: process_open_def lock_excludes_def split: sum.splits)

lemma world_step_exclusive:
  assumes "world_step enc dec cfgs w gr w'" and "exclusive w"
  shows "exclusive w'"
  using assms(1)
proof cases
  case (opens io p cfg r)
  from opens(5,2) show ?thesis
    by (cases rule: process_open_cases) (use assms(2) in \<open>auto simp: exclusive_def\<close>)
next
  case (threads p sh t sh' s')
  then show ?thesis using assms(2) by (auto simp: exclusive_def)
next
  case (drops p)
  have "w_gate w q = None" if "w_lock w = Some p" "q \<noteq> p" for q
    using that assms(2) by (metis exclusive_def option.inject)
  with drops assms(2) show ?thesis by (auto simp: exclusive_def process_drop_def)
qed

section \<open>The world is the directory of one process at a time\<close>

definition host_of :: "('p, 't, 'h) world \<Rightarrow> ('t, 'h) shared_gate option \<times> store" where
  "host_of w = (do { p \<leftarrow> w_lock w; w_gate w p }, w_store w)"

lemma world_step_host:
  assumes "world_step enc dec cfgs w gr w'" and ex: "exclusive w"
  shows "host_step enc dec cfgs (host_of w) gr (host_of w') \<or> gr = None \<and> host_of w' = host_of w"
  using assms(1)
proof cases
  case (opens io p cfg r)
  from opens(5,2) show ?thesis
  proof (cases rule: process_open_cases)
    case (opened g)
    with host_step.opened [OF opened(2) opens(4)] opens(1) show ?thesis
      by (auto simp: host_of_def)
  qed (use opens(1) in simp)
next
  case (threads p sh t sh' s')
  then have "w_lock w = Some p" using ex by (simp add: exclusive_def)
  with host_step.thread [OF threads(3), of cfgs] threads(1,2) show ?thesis by (simp add: host_of_def)
next
  case (drops p)
  show ?thesis
  proof (cases "w_lock w = Some p")
    case True
    then obtain g where "w_gate w p = Some g" using ex by (auto simp: exclusive_def)
    with True drops show ?thesis using host_step.killed [of enc dec cfgs g "w_store w"]
      by (simp add: host_of_def process_drop_def)
  next
    case False
    with drops show ?thesis by (auto simp: host_of_def process_drop_def split: bind_splits)
  qed
qed

lemma world_run_host:
  assumes "grants_run (world_step enc dec cfgs) w gs w'" and "exclusive w"
  shows "exclusive w' \<and> grants_run (host_step enc dec cfgs) (host_of w) gs (host_of w')"
  using assms(1)
proof (induction rule: grants_run_split)
  case start
  with assms(2) show ?case by (simp add: grants_run.start)
next
  case (step gs y gr z)
  then have "exclusive z" using world_step_exclusive by blast
  moreover have "grants_run (host_step enc dec cfgs) (host_of w) (gs @ grant_list gr) (host_of z)"
  proof -
    have ex: "exclusive y" and r: "grants_run (host_step enc dec cfgs) (host_of w) gs (host_of y)" using step.IH by simp_all
    from world_step_host [OF step.hyps(2) ex] show ?thesis
      using grants_run_grow [where stp = "host_step enc dec cfgs", OF r, of gr "host_of z"] r
      by (elim disjE conjE) (simp_all add: grant_list_def)
  qed
  ultimately show ?case ..
qed

lemma world_new_facts [simp]: "exclusive (world_new s)" "host_of (world_new s) = (None, s)" "w_gate (world_new s) p = None"
  by (simp_all add: exclusive_def host_of_def world_new_def)


section \<open>Counting grants\<close>

text \<open>Grants whose windows are at least \<open>w\<close> long take up the time they are spaced by.\<close>

lemma spaced_count:
  assumes "spaced gs" and "\<forall>(t, w) \<in> set gs. t0 \<le> unat t \<and> unat t \<le> t1 \<and> w\<^sub>0 \<le> unat w \<and> unat t + unat w < 2 ^ 64"
    and "gs \<noteq> []"
  shows "(length gs - 1) * w\<^sub>0 + t0 \<le> unat (fst (last gs)) \<and> unat (fst (last gs)) \<le> t1"
  using assms
proof (induction gs rule: rev_induct)
  case Nil
  then show ?case by simp
next
  case (snoc gr gs)
  obtain t w where gr: "gr = (t, w)" by fastforce
  show ?case
  proof (cases "gs = []")
    case True
    with snoc.prems(2) gr show ?thesis by auto
  next
    case False
    obtain t' w' where l: "last gs = (t', w')" by fastforce
    have last: "(t', w') \<in> set gs" using l False by (metis last_in_set)
    have "sat_add t' w' \<le> t" using snoc.prems(1) last gr by (auto simp: spaced_def sorted_wrt_append)
    moreover have "w\<^sub>0 \<le> unat w' \<and> unat t' + unat w' < 2 ^ 64" using snoc.prems(2) last by auto
    ultimately have "unat t' + w\<^sub>0 \<le> unat t" by (simp add: word_le_nat_alt unat_sat_add)
    moreover have "(length gs - 1) * w\<^sub>0 + t0 \<le> unat t'"
      using snoc.IH snoc.prems(1,2) False l by (auto simp: spaced_def sorted_wrt_append)
    moreover have "length gs * w\<^sub>0 = (length gs - 1) * w\<^sub>0 + w\<^sub>0" using False by (cases gs) simp_all
    ultimately show ?thesis using snoc.prems(2) gr by auto
  qed
qed

lemma spaced_filter: "spaced gs \<Longrightarrow> spaced (filter P gs)"
  by (simp add: spaced_def sorted_wrt_filter)

lemma spaced_count_between:
  assumes "spaced gs" and "\<forall>(t, w) \<in> set gs. w = W" and "0 < unat W" and "t1 + unat W < 2 ^ 64"
  shows "length (filter (\<lambda>(t, w). t0 \<le> unat t \<and> unat t \<le> t1) gs) \<le> (t1 - t0) div unat W + 1"
proof -
  let ?gs = "filter (\<lambda>(t, w). t0 \<le> unat t \<and> unat t \<le> t1) gs"
  show ?thesis
  proof (cases "?gs = []")
    case False
    have "\<forall>(t, w) \<in> set ?gs. t0 \<le> unat t \<and> unat t \<le> t1 \<and> unat W \<le> unat w \<and> unat t + unat w < 2 ^ 64"
      using assms(2,4) by auto
    from spaced_count [OF spaced_filter [OF assms(1)] this False]
    have "(length ?gs - 1) * unat W \<le> t1 - t0" by linarith
    then have "length ?gs - 1 \<le> (t1 - t0) div unat W" using assms(3) by (simp add: less_eq_div_iff_mult_less_eq)
    then show ?thesis by linarith
  qed simp
qed

section \<open>Two processes\<close>

abbreviation ex_granted :: "(nat, nat, unit) world \<Rightarrow> bool" where
  "ex_granted w \<equiv> grants_run (world_step ex_encode ex_decode {gate_config_default}) (world_new ex_empty)
     [(1000, 1800000)] w \<and> w_gate w 0 \<noteq> None"

lemma any_run_world:
  assumes "grants_run (any_step enc dec) x gs y" and "w_gate w p = Some (fst x)" and "w_store w = snd x"
  shows "\<exists>w'. grants_run (world_step enc dec cfgs) w gs w' \<and> w_gate w' p = Some (fst y) \<and> w_store w' = snd y"
  using assms(1)
proof (induction rule: grants_run_split)
  case start
  with assms(2,3) show ?case by (blast intro: grants_run.start)
next
  case (step gs y gr z)
  then obtain w' where w': "grants_run (world_step enc dec cfgs) w gs w'" "w_gate w' p = Some (fst y)" "w_store w' = snd y"
    by blast
  obtain t where "thread_step enc dec t y gr z" using step.hyps(2) by (auto elim: any_step.cases)
  then have "world_step enc dec cfgs w' gr (w'\<lparr>w_gate := (w_gate w')(p \<mapsto> fst z), w_store := snd z\<rparr>)"
    using w'(2,3) by (intro world_step.threads [of _ _ "fst y" _ _ t]) simp_all
  from grants_run_grow [OF w'(1) this] show ?case by fastforce
qed

lemma ex_world: "\<exists>w. ex_granted w"
proof -
  let ?st = "world_step ex_encode ex_decode {gate_config_default} :: (nat, nat, unit) world \<Rightarrow> _"
  let ?w = "(world_new ex_empty)\<lparr>w_lock := Some 0, w_gate := (w_gate (world_new ex_empty))(0 \<mapsto> shared_new ex_gate)\<rparr>
    :: (nat, nat, unit) world"
  have "?st (world_new ex_empty) None ?w"
    by (rule world_step.opens [where io = ex_opening and cfg = gate_config_default and p = 0 and r = "Inr ()"])
      (simp_all add: process_open_def shared_open_def lock_excludes_def ex_gate_open world_new_def)
  then have o: "grants_run ?st (world_new ex_empty) [] ?w" by (rule grants_run.silent [where stp = ?st, OF grants_run.start])
  obtain sh s where r: "grants_run (any_step ex_encode ex_decode) (shared_new ex_gate, ex_empty) [(1000, 1800000)]
      (sh :: (nat, unit) shared_gate, s)" by (rule ex_threads)
  have "\<exists>w'. grants_run ?st ?w [(1000, 1800000)] w' \<and> w_gate w' 0 = Some sh"
    using any_run_world [OF r, of ?w 0 "{gate_config_default}"] by (auto simp: world_new_def)
  then obtain w' where "grants_run ?st ?w [(1000, 1800000)] w'" "w_gate w' 0 = Some sh" by blast
  with grants_run_append [OF o] show ?thesis by auto
qed

section \<open>What holds across processes\<close>

text \<open>C8: At most one process has a gate on a directory: however processes open it, with any configurations,
  attempt, fail and disappear, a gate is with the holder of the file lock and with no other, and
  whoever else opens the directory gets an error and changes nothing: it is told that the directory
  is already locked, or of the error of opening the lock file when even that fails. Assumed of the
  operating system is only that the lock excludes while it is held (\<open>lock_excludes\<close>).\<close>

theorem one_gate_per_directory:
  assumes "grants_run (world_step enc dec cfgs) (world_new s) gs (w :: ('p, 't, 'h) world)"
    and "w_gate w p = Some g" and "p \<noteq> q"
  shows "w_lock w = Some p \<and> w_gate w q = None \<and>
    (\<forall>io cfg. lock_excludes w io \<longrightarrow>
      process_open dec io cfg q w =
        (w, Inl (case oi_open_lock_file io of Some (OtherIo msg) \<Rightarrow> Io (OtherIo msg) | _ \<Rightarrow> AlreadyLocked)))"
proof -
  have "exclusive w" using world_run_host [OF assms(1)] by simp
  then have l: "w_lock w = Some p" and q: "w_gate w q = None"
    using assms(2,3) by (auto simp: exclusive_def) (metis not_None_eq option.inject)
  show ?thesis
    using l q by (auto simp: lock_excludes_def process_open_def shared_open_def gate_open_def open_environment_def
        file_lock_acquire_def split: option.split io_error.split)
qed

lemma one_gate_per_directory_witness:
  "\<exists>w. ex_granted w \<and> w_lock w = Some 0 \<and>
    process_open ex_decode (ex_opening\<lparr>oi_try_lock_exclusive := Some WouldBlock\<rparr>) gate_config_default 1 w =
      (w, Inl AlreadyLocked)"
proof -
  obtain w g where w: "ex_granted w" "w_gate w 0 = Some g" using ex_world by auto
  let ?io = "ex_opening\<lparr>oi_try_lock_exclusive := Some WouldBlock\<rparr>"
  have io: "lock_excludes w ?io" "oi_open_lock_file ?io = None" by (simp_all add: lock_excludes_def ex_opening_def)
  have "w_lock w = Some 0 \<and> w_gate w 1 = None \<and> (\<forall>io cfg. lock_excludes w io \<longrightarrow>
      process_open ex_decode io cfg 1 w =
        (w, Inl (case oi_open_lock_file io of Some (OtherIo msg) \<Rightarrow> Io (OtherIo msg) | _ \<Rightarrow> AlreadyLocked)))"
    by (rule one_gate_per_directory [OF conjunct1 [OF w(1)] w(2)]) simp
  with io w(1) show ?thesis by fastforce
qed

text \<open>C9: All the threads of all the processes that share a directory refine the life of the directory with one
  gate and one attempt at a time: in every run, from any contents on disk, however calls interleave,
  fail and panic, and wherever in a call a process is killed, even after the record is on disk and
  before the caller has its answer, there is a life of whole attempts, one after the other, that
  leaves the same disk and makes the same grants in the same order, up to grants that reached no
  caller. With a record format that decodes what it encoded (\<open>codec_ok\<close>), the grants that callers
  have seen are therefore spaced by their windows, and the record on disk holds every granted lock.
  All this is for processes whose configurations fail closed and name the same record
  (\<open>agreeing\<close>); a gate that fails open can grant without a trace on disk.\<close>

theorem world_refines_life:
  assumes "grants_run (world_step enc dec cfgs) (world_new s) gs (w :: ('p, 't, 'h) world)"
    and agree: "agreeing slot cfgs"
  shows "(\<exists>og gs'. grants_run (life_step TYPE('h) enc dec slot) (None, s) gs' (og, w_store w) \<and> subseq gs gs') \<and>
    (codec_ok enc dec \<longrightarrow> spaced gs \<and> (\<forall>(t, v) \<in> set gs. sat_add t v \<le> stored_lock dec slot (w_store w)))"
proof -
  have h: "grants_run (host_step enc dec cfgs) (None, s) gs (host_of w)" using world_run_host [OF assms(1)] by simp
  from threads_refine_life [OF h agree] threads_durable [OF _ agree h] show ?thesis by (simp add: host_of_def)
qed

lemma world_refines_life_witness:
  "\<exists>og gs' s. grants_run (life_step TYPE(unit) ex_encode ex_decode ex_slot) (None, ex_empty) gs' (og, s) \<and>
    subseq [(1000, 1800000)] gs' \<and> sat_add 1000 1800000 \<le> stored_lock ex_decode ex_slot s"
proof -
  obtain w where w: "ex_granted w" using ex_world by blast
  from world_refines_life [OF conjunct1 [OF w] ex_agreeing] ex_codec_ok show ?thesis by auto
qed

text \<open>C7: The number of grants is bounded by time: when every process that opens the directory fails closed on
  the same record (\<open>agreeing\<close>), the record format decodes what it encoded (\<open>codec_ok\<close>), and every
  grant is for a window of \<open>W\<close> milliseconds, all threads of all processes together are granted at
  most one open more than the windows that fit into any interval of time. The interval ends a window
  before the 64-bit count of milliseconds does.\<close>

theorem grants_bounded_by_time:
  assumes "grants_run (world_step enc dec cfgs) (world_new s) gs (w :: ('p, 't, 'h) world)" and "codec_ok enc dec"
    and agree: "agreeing slot cfgs"
    and "\<forall>(t, v) \<in> set gs. v = W" and "0 < unat W" and "t1 + unat W < 2 ^ 64"
  shows "length (filter (\<lambda>(t, v). t0 \<le> unat t \<and> unat t \<le> t1) gs) \<le> (t1 - t0) div unat W + 1"
proof -
  have "grants_run (host_step enc dec cfgs) (None, s) gs (host_of w)" using world_run_host [OF assms(1)] by simp
  from threads_durable [OF assms(2) agree this] have "spaced gs" ..
  then show ?thesis using assms(4-6) by (rule spaced_count_between)
qed

lemma grants_bounded_by_time_witness:
  "\<exists>w. ex_granted w \<and>
    length (filter (\<lambda>(t, v). 0 \<le> unat t \<and> unat t \<le> 3600000) [(1000 :: 64 word, 1800000 :: 64 word)]) \<le>
      (3600000 - 0) div unat (1800000 :: 64 word) + 1"
proof -
  obtain w where w: "ex_granted w" using ex_world by blast
  with grants_bounded_by_time [OF conjunct1 [OF w] ex_codec_ok ex_agreeing, of 1800000 3600000 0] show ?thesis
    by (intro exI [of _ w]) simp
qed

end
