(* ===== verification/Gate_Tests.thy ===== *)
theory Gate_Tests
  imports Crate_Tests Gate_World
begin

text \<open>
  The unit tests of the durable open gate with few turns, run in the model with a disk on which
  nothing fails and a record format that decodes.
\<close>

section \<open>The vocabulary of the tests\<close>

text \<open>A format whose bytes are not looked at, only decoded.\<close>

definition record_bytes :: "open_gate_record \<Rightarrow> bytes" where
  "record_bytes r = projr (ex_encode r)"

definition test_encode :: encoder where
  "test_encode r = Inr (record_bytes r)"

lemma test_encode: "test_encode = ex_encode"
  by (simp add: fun_eq_iff test_encode_def record_bytes_def ex_encode_def)

lemma ex_decode_record [eval_simps]: "ex_decode (record_bytes r) = Inr r"
  using ex_codec_ok by (simp add: codec_ok_def flip: test_encode) (simp add: test_encode_def)

text \<open>\<open>open(..).expect(..)\<close> and \<open>try_acquire_open(..).expect(..)\<close>.\<close>

definition opened :: "store \<Rightarrow> gate_config \<Rightarrow> durable_open_gate option" where
  "opened s cfg = unwrap (gate_open ex_decode ex_opening s cfg)"

definition attempted ::
  "durable_open_gate \<Rightarrow> store \<Rightarrow> duration \<Rightarrow> (durable_open_gate \<times> store \<times> open_gate_decision) option" where
  "attempted g s now =
     (let (g', s', r) = try_acquire_open test_encode ex_decode ex_quiet g s now in
      do { d \<leftarrow> unwrap r; Some (g', s', d) })"

definition allowed :: "open_gate_decision \<Rightarrow> bool" where
  "allowed d \<longleftrightarrow> (case d of Allowed _ \<Rightarrow> True | Blocked _ \<Rightarrow> False)"

definition test_gate :: "duration \<Rightarrow> gate_config" where
  "test_gate window = gate_config_default\<lparr>gc_window := window\<rparr>"

lemmas gate_tests_eval [eval_simps] =
  test_encode_def opened_def attempted_def allowed_def test_gate_def ex_opening_def ex_quiet_def ex_empty_def

section \<open>The tests\<close>

definition allows_first_then_blocks_within_window :: "unit option" where
  "allows_first_then_blocks_within_window = do {
     gate \<leftarrow> opened ex_empty (test_gate (from_secs 1800));
     (gate, dir, first) \<leftarrow> attempted gate ex_empty (from_secs 10);
     (gate, dir, second) \<leftarrow> attempted gate dir (from_secs 20);
     check (allowed first);
     check (\<not> allowed second);
     let stats = gate_stats gate;
     check (allowed_total stats = 1);
     check (blocked_total stats = 1);
     check (persist_writes_total stats = 1)
   }"

definition allows_after_window_elapsed_and_persists_across_restart :: "unit option" where
  "allows_after_window_elapsed_and_persists_across_restart = do {
     let cfg = test_gate (from_secs 30);
     gate \<leftarrow> opened ex_empty cfg;
     (gate, dir, first) \<leftarrow> attempted gate ex_empty (from_secs 1);
     check (allowed first);
     restarted \<leftarrow> opened dir cfg;
     (restarted, dir, blocked) \<leftarrow> attempted restarted dir (from_secs 10);
     check (blocked = Blocked (lock_until first));
     (restarted, dir, again) \<leftarrow> attempted restarted dir (from_secs 31);
     check (allowed again)
   }"

text \<open>Attempts one second apart, from the second \<open>i\<close> on.\<close>

primrec attempt_seconds :: "nat \<Rightarrow> nat \<Rightarrow> durable_open_gate \<Rightarrow> store \<Rightarrow> (durable_open_gate \<times> store) option" where
  "attempt_seconds 0 i g s = Some (g, s)"
| "attempt_seconds (Suc n) i g s = do { (g, s, d) \<leftarrow> attempted g s (from_secs i); attempt_seconds n (i + 1) g s }"

lemma attempt_seconds_numeral [eval_simps]:
  "attempt_seconds (numeral n) i g s =
     do { (g, s, d) \<leftarrow> attempted g s (from_secs i); attempt_seconds (pred_numeral n) (i + 1) g s }"
  by (simp add: numeral_eq_Suc)

definition boundary_spam_writes_once_per_window_not_per_attempt :: "unit option" where
  "boundary_spam_writes_once_per_window_not_per_attempt = do {
     gate \<leftarrow> opened ex_empty (test_gate (from_secs 5));
     (gate, dir) \<leftarrow> attempt_seconds 20 0 gate ex_empty;
     let stats = gate_stats gate;
     check (allowed_total stats = 4);
     check (persist_writes_total stats = 4);
     check (attempts_total stats = 20)
   }"

text \<open>
  The threads take the mutex one after the other; their calls are alike, so that every order is
  this one. The value is the number of grants.
\<close>

primrec callers :: "nat \<Rightarrow> duration \<Rightarrow> durable_open_gate \<Rightarrow> store \<Rightarrow> nat option" where
  "callers 0 now g s = Some 0"
| "callers (Suc n) now g s = do {
     (g, s, decision) \<leftarrow> attempted g s now;
     rest \<leftarrow> callers n now g s;
     Some (rest + (if allowed decision then 1 else 0))
   }"

lemma callers_numeral [eval_simps]:
  "callers (numeral n) now g s = do {
     (g, s, decision) \<leftarrow> attempted g s now;
     rest \<leftarrow> callers (pred_numeral n) now g s;
     Some (rest + (if allowed decision then 1 else 0))
   }"
  by (simp add: numeral_eq_Suc)

definition parallel_callers_single_grant_per_window :: "unit option" where
  "parallel_callers_single_grant_per_window = do {
     gate \<leftarrow> opened ex_empty (test_gate (from_secs 60));
     grants \<leftarrow> callers 24 (from_secs 10) gate ex_empty;
     check (grants = 1)
   }"

text \<open>Nor does it matter how the threads interleave: calls at one instant are granted at most once.\<close>

lemma parallel_callers_any_order:
  assumes "grants_run (any_step enc dec) (shared_new g, s) gs (y :: ('t, 'h) shared_gate \<times> store)"
    and "\<forall>(t, w) \<in> set gs. t = T \<and> w = W" and "0 < unat W" and "unat T + unat W < 2 ^ 64"
  shows "length gs \<le> 1"
proof -
  have "spaced gs" using any_run_spaced [OF assms(1)] ..
  moreover have "\<forall>(t, w) \<in> set gs. w = W" using assms(2) by auto
  ultimately have "length (filter (\<lambda>(t, w). unat T \<le> unat t \<and> unat t \<le> unat T) gs) \<le> (unat T - unat T) div unat W + 1"
    using assms(3,4) by (rule spaced_count_between)
  moreover have "filter (\<lambda>(t, w). unat T \<le> unat t \<and> unat t \<le> unat T) gs = gs"
    using assms(2) by (auto simp: filter_id_conv)
  ultimately show ?thesis by simp
qed

text \<open>A gate whose mutex another thread holds blocks.\<close>

definition shared_gate_contention_fails_closed_as_blocked :: "unit option" where
  "shared_gate_contention_fails_closed_as_blocked = do {
     gate \<leftarrow> opened ex_empty (test_gate (from_secs 60));
     let (gate, dir, r) = try_acquire_open_fail_closed LockHeld test_encode ex_decode ex_quiet gate ex_empty (from_secs 5);
     decision \<leftarrow> unwrap r;
     check (\<not> allowed decision)
   }"

lemma gate_tests_pass:
  "allows_first_then_blocks_within_window = Some ()"
  "allows_after_window_elapsed_and_persists_across_restart = Some ()"
  "boundary_spam_writes_once_per_window_not_per_attempt = Some ()"
  "parallel_callers_single_grant_per_window = Some ()"
  "shared_gate_contention_fails_closed_as_blocked = Some ()"
  by (simp add: allows_first_then_blocks_within_window_def eval_simps,
      simp add: allows_after_window_elapsed_and_persists_across_restart_def eval_simps,
      simp add: boundary_spam_writes_once_per_window_not_per_attempt_def eval_simps,
      simp add: parallel_callers_single_grant_per_window_def eval_simps,
      simp add: shared_gate_contention_fails_closed_as_blocked_def eval_simps)

end
