(* ===== verification/Gate_Soak_Tests.thy ===== *)
theory Gate_Soak_Tests
  imports Gate_Tests
begin

text \<open>
  The unit tests of the durable open gate that take a hundred thousand turns and more. They are not
  run: each loop is translated as it stands, and a lemma by induction on its turns shows that the
  gate keeps in step with the reference the test carries along.
\<close>

section \<open>A gate on which nothing fails\<close>

text \<open>A gate that nothing failed on, after \<open>n\<close> attempts of which \<open>k\<close> were granted.\<close>

definition steady :: "durable_open_gate \<Rightarrow> store \<Rightarrow> duration \<Rightarrow> nat \<Rightarrow> nat \<Rightarrow> bool" where
  "steady g s window n k \<longleftrightarrow>
     in_sync ex_decode g s \<and> g_cfg g = test_gate window \<and>
     unat (attempts_total (g_stats g)) = n \<and> unat (allowed_total (g_stats g)) = k \<and>
     unat (persist_writes_total (g_stats g)) = k \<and> unat (blocked_total (g_stats g)) + k = n"

lemma steady_opened:
  assumes "in_sync ex_decode g0 s" and "g_cfg g0 = test_gate window" and "\<not> is_zero window"
  shows "\<exists>g. opened s (test_gate window) = Some g \<and> steady g s window 0 0 \<and>
    g_cached_lock_until_ms g = g_cached_lock_until_ms g0"
proof -
  let ?cfg = "test_gate window"
  have read: "read_lock_until_ms ex_decode None g s = Inr (g_cached_lock_until_ms g0)" if "g_cfg g = ?cfg" for g
    using in_sync_read [OF assms(1)] assms(2) that by (simp add: read_lock_until_ms_def)
  obtain g where opn: "gate_open ex_decode ex_opening s ?cfg = Inr g"
    and cache: "g_cached_lock_until_ms g = g_cached_lock_until_ms g0"
    using assms(3)
    by (auto simp: open_reports_in_order ex_opening_def test_gate_def gate_config_default_def Let_def
        read [unfolded test_gate_def gate_config_default_def] split: sum.splits)
  have "gc_fail_closed ?cfg" by (simp add: test_gate_def gate_config_default_def)
  with opn have "in_sync ex_decode g s" by (rule gate_open_in_sync)
  with opn cache gate_open_restores [OF opn] show ?thesis
    by (simp add: steady_def opened_def unwrap_def)
qed

lemma steady_first:
  assumes "\<not> is_zero window"
  shows "\<exists>g. opened ex_empty (test_gate window) = Some g \<and> steady g ex_empty window 0 0 \<and>
    g_cached_lock_until_ms g = 0"
  using steady_opened [of "\<lparr>g_cfg = test_gate window, g_cached_lock_until_ms = 0, g_stats = stats_default\<rparr>" ex_empty window]
    assms by (simp add: in_sync_def ex_empty_def)

lemma allowed_answer: "is_allowed r \<Longrightarrow> \<exists>d. r = Inr d \<and> allowed d" "is_blocked r \<Longrightarrow> \<exists>d. r = Inr d \<and> \<not> allowed d"
  by (auto simp: is_allowed_def is_blocked_def allowed_def)

lemma steady_attempt:
  assumes "steady g s window n k" and "n + 1 < 2 ^ 64"
  shows "\<exists>g' s' d. attempted g s now = Some (g', s', d) \<and>
    allowed d = (g_cached_lock_until_ms g \<le> duration_to_millis now) \<and>
    steady g' s' window (n + 1) (k + of_bool (allowed d)) \<and>
    g_cached_lock_until_ms g' =
      (if allowed d then sat_add (duration_to_millis now) (duration_to_millis window) else g_cached_lock_until_ms g)"
proof -
  have sync: "in_sync ex_decode g s" and cfg: "g_cfg g = test_gate window" using assms(1) by (auto simp: steady_def)
  obtain g' s' r where a: "try_acquire_open test_encode ex_decode ex_quiet g s now = (g', s', r)" by (metis prod_cases3)
  have "quiet ex_quiet" "codec_ok test_encode ex_decode" "\<forall>r. \<exists>b. test_encode r = Inr b"
    using ex_codec_ok by (simp_all add: quiet_def ex_quiet_def test_encode ex_encode_def)
  note q = quiet_attempt [OF sync this a]
  have w: "gc_window (g_cfg g) = window" "gc_fail_closed (g_cfg g)"
    by (simp_all add: cfg test_gate_def gate_config_default_def)
  obtain b where b: "persist_writes_total (g_stats g') = bump b (persist_writes_total (g_stats g))"
    and bw: "b = is_allowed r" using attempt_counts(4) [OF a] w(2) by blast
  obtain d where d: "r = Inr d" and al: "allowed d = (g_cached_lock_until_ms g \<le> duration_to_millis now)"
    using q allowed_answer [of r] by (auto split: if_splits)
  have ia: "is_allowed r = allowed d" "is_blocked r = (\<not> allowed d)"
    by (cases d; simp add: d allowed_def)+
  have "attempted g s now = Some (g', s', d)" using a d by (simp add: attempted_def unwrap_def)
  moreover have "steady g' s' window (n + 1) (k + of_bool (allowed d))"
    using assms q attempt_counts(1-3) [OF a] b bw cfg
    by (simp add: steady_def ia unat_bump unat_sat_add split: if_splits)
  moreover have "g_cached_lock_until_ms g' =
      (if allowed d then sat_add (duration_to_millis now) (duration_to_millis window) else g_cached_lock_until_ms g)"
    using q by (simp add: al w)
  ultimately show ?thesis using al by blast
qed

lemma unat_of_nat_eq: "unat (x :: u64) = n \<Longrightarrow> x = of_nat n"
  by auto

section \<open>Spam\<close>

text \<open>Blocked attempts at one instant.\<close>

primrec blocked_attempts :: "nat \<Rightarrow> duration \<Rightarrow> durable_open_gate \<Rightarrow> store \<Rightarrow> (durable_open_gate \<times> store) option" where
  "blocked_attempts 0 now g s = Some (g, s)"
| "blocked_attempts (Suc n) now g s = do {
     (g, s, decision) \<leftarrow> attempted g s now;
     check (\<not> allowed decision);
     blocked_attempts n now g s
   }"

lemma blocked_attempts_steady:
  assumes "steady g s window n k" and "n + m < 2 ^ 64" and "duration_to_millis now < g_cached_lock_until_ms g"
  shows "\<exists>g' s'. blocked_attempts m now g s = Some (g', s') \<and> steady g' s' window (n + m) k"
  using assms
proof (induction m arbitrary: g s n)
  case 0
  then show ?case by simp
next
  case (Suc m)
  obtain g' s' d where a: "attempted g s now = Some (g', s', d)" "\<not> allowed d" "steady g' s' window (n + 1) k"
    "g_cached_lock_until_ms g' = g_cached_lock_until_ms g"
    using steady_attempt [OF Suc.prems(1), of now] Suc.prems(2,3) by (auto simp flip: not_less)
  show ?case
    using Suc.IH [OF a(3)] Suc.prems(2,3) a by (simp add: check_def)
qed

definition spam_blocked_attempts_do_not_write_every_attempt :: "unit option" where
  "spam_blocked_attempts_do_not_write_every_attempt = do {
     gate \<leftarrow> opened ex_empty (test_gate (from_secs 300));
     (gate, dir, seed) \<leftarrow> attempted gate ex_empty (from_secs 0);
     (gate, dir) \<leftarrow> blocked_attempts 200000 (from_secs 1) gate dir;
     let stats = gate_stats gate;
     check (allowed_total stats = 1);
     check (blocked_total stats = 200000);
     check (persist_writes_total stats = 1)
   }"

lemma spam_test_passes:
  "spam_blocked_attempts_do_not_write_every_attempt = Some ()"
proof -
  let ?w = "from_secs 300"
  obtain g where g: "opened ex_empty (test_gate ?w) = Some g" "steady g ex_empty ?w 0 0" "g_cached_lock_until_ms g = 0"
    using steady_first [of ?w] by (auto simp: eval_simps)
  obtain g1 s1 d where a: "attempted g ex_empty (from_secs 0) = Some (g1, s1, d)"
    and st: "steady g1 s1 ?w 1 1" and c: "g_cached_lock_until_ms g1 = 300000"
    using steady_attempt [OF g(2), of "from_secs 0"] g(3) by (auto simp: eval_simps)
  have "duration_to_millis (from_secs 1) < g_cached_lock_until_ms g1" by (simp add: c eval_simps)
  then obtain g2 s2 where b: "blocked_attempts 200000 (from_secs 1) g1 s1 = Some (g2, s2)" and st2: "steady g2 s2 ?w 200001 1"
    using blocked_attempts_steady [OF st, of 200000 "from_secs 1"] by auto
  have "allowed_total (g_stats g2) = 1" "blocked_total (g_stats g2) = 200000" "persist_writes_total (g_stats g2) = 1"
    using st2 by (auto simp: steady_def dest!: unat_of_nat_eq)
  with g(1) a b show ?thesis
    by (simp add: spam_blocked_attempts_do_not_write_every_attempt_def check_def gate_stats_def Let_def)
qed

section \<open>The soak\<close>

text \<open>One turn of the soak loops: the reference, the attempt, and the count of what is allowed.\<close>

type_synonym soak = "u64 \<times> u64 \<times> u64 \<times> durable_open_gate \<times> store"

definition soak_turn :: "u64 \<Rightarrow> u64 \<Rightarrow> soak \<Rightarrow> soak option" where
  "soak_turn window now_ms = (\<lambda>(expected_allowed, expected_next_open_ms, observed_allowed, gate, dir). do {
     let (expected_allowed, expected_next_open_ms) =
       (if expected_next_open_ms \<le> now_ms then (sat_add expected_allowed 1, sat_add now_ms window)
        else (expected_allowed, expected_next_open_ms));
     (gate, dir, decision) \<leftarrow> attempted gate dir (from_millis now_ms);
     let observed_allowed = (if allowed decision then sat_add observed_allowed 1 else observed_allowed);
     Some (expected_allowed, expected_next_open_ms, observed_allowed, gate, dir)
   })"

text \<open>The reference and the gate agree, with \<open>n\<close> attempts and \<open>k\<close> grants of this gate and \<open>a\<close> grants in all.\<close>

definition keeps_step :: "soak \<Rightarrow> u64 \<Rightarrow> nat \<Rightarrow> nat \<Rightarrow> nat \<Rightarrow> bool" where
  "keeps_step = (\<lambda>(ea, en, oa, g, s) window n k a.
     steady g s (from_millis window) n k \<and> en = g_cached_lock_until_ms g \<and> ea = oa \<and> unat ea = a)"

lemma millis_of_millis [simp]: "duration_to_millis (from_millis ms) = ms"
proof -
  have "unat ms * 1000000 \<le> max_nanos" using unat_word_less [of ms] by (simp add: max_nanos_def nanos_per_sec_def)
  then have "as_millis (from_millis ms) = ucast ms" by (simp add: as_millis_def from_millis_def)
  moreover have "(ucast ms :: 128 word) \<le> ucast (- 1 :: u64)"
    using unat_word_less [of ms] by (simp add: word_le_nat_alt unat_ucast_wide)
  moreover have "ucast (ucast ms :: 128 word) = ms" by (transfer, simp)
  ultimately show ?thesis by (simp add: duration_to_millis_def min_def)
qed

lemma soak_turn_keeps_step:
  assumes "keeps_step x window n k a" and "n + 1 < 2 ^ 64" and "a + 1 < 2 ^ 64"
  shows "\<exists>x' b. soak_turn window now_ms x = Some x' \<and> keeps_step x' window (n + 1) (k + of_bool b) (a + of_bool b)"
proof -
  obtain ea en oa g s where x: "x = (ea, en, oa, g, s)" by (metis prod_cases5)
  have st: "steady g s (from_millis window) n k" and eq: "en = g_cached_lock_until_ms g" "oa = ea" "unat ea = a"
    using assms(1) by (auto simp: keeps_step_def x)
  obtain g' s' d where at: "attempted g s (from_millis now_ms) = Some (g', s', d)"
    and al: "allowed d = (g_cached_lock_until_ms g \<le> now_ms)"
    and st': "steady g' s' (from_millis window) (n + 1) (k + of_bool (allowed d))"
    and c: "g_cached_lock_until_ms g' = (if allowed d then sat_add now_ms window else g_cached_lock_until_ms g)"
    using steady_attempt [OF st assms(2), of "from_millis now_ms"] by auto
  have inc: "unat (sat_add ea 1) = a + 1" using eq(3) assms(3) by (simp add: unat_sat_add)
  show ?thesis
  proof (cases "g_cached_lock_until_ms g \<le> now_ms")
    case True
    with st' al c inc show ?thesis
      by (intro exI [of _ True] exI) (auto simp: soak_turn_def x at eq keeps_step_def)
  next
    case False
    with st' al c eq(3) show ?thesis
      by (intro exI [of _ False] exI) (auto simp: soak_turn_def x at eq keeps_step_def)
  qed
qed

text \<open>The instants of the soak test, and its loop over \<open>i\<close>.\<close>

definition soak_now :: "u64 \<Rightarrow> u64 \<Rightarrow> u64 \<Rightarrow> u64" where
  "soak_now window i now_ms =
     (if i mod 2000 = 0 then sat_add now_ms (window + 13)
      else sat_add now_ms (drop_bit 16 (i * 1103515245 + 12345) mod 11))"

primrec soak_loop :: "nat \<Rightarrow> u64 \<Rightarrow> u64 \<Rightarrow> u64 \<Rightarrow> soak \<Rightarrow> soak option" where
  "soak_loop 0 window i now_ms x = Some x"
| "soak_loop (Suc n) window i now_ms x = do {
     let now_ms = soak_now window i now_ms;
     x \<leftarrow> soak_turn window now_ms x;
     soak_loop n window (i + 1) now_ms x
   }"

lemma soak_loop_keeps_step:
  assumes "keeps_step x window n k a" and "n + m < 2 ^ 64" and "a + m < 2 ^ 64"
  shows "\<exists>x' j. soak_loop m window i now_ms x = Some x' \<and> keeps_step x' window (n + m) (k + j) (a + j)"
  using assms
proof (induction m arbitrary: x n k a i now_ms)
  case 0
  then show ?case by (auto intro: exI [of _ 0])
next
  case (Suc m)
  let ?t = "soak_now window i now_ms"
  obtain x1 b where x1: "soak_turn window ?t x = Some x1"
    and st: "keeps_step x1 window (n + 1) (k + of_bool b) (a + of_bool b)"
    using soak_turn_keeps_step [OF Suc.prems(1), of ?t] Suc.prems(2,3) by auto
  obtain x' j where "soak_loop m window (i + 1) ?t x1 = Some x'"
    "keeps_step x' window (n + 1 + m) (k + of_bool b + j) (a + of_bool b + j)"
    using Suc.IH [OF st, of "i + 1" ?t] Suc.prems(2,3) by (cases b) auto
  then show ?case by (intro exI [of _ x'] exI [of _ "of_bool b + j"]) (simp add: x1 Let_def add.assoc)
qed

definition long_mixed_frequency_soak_maintains_single_grant_per_window :: "unit option" where
  "long_mixed_frequency_soak_maintains_single_grant_per_window = do {
     let window = 750;
     gate \<leftarrow> opened ex_empty (test_gate (from_millis window));
     let iterations = 100000;
     (expected_allowed, expected_next_open_ms, observed_allowed, gate, dir) \<leftarrow>
       soak_loop iterations window 0 0 (0, 0, 0, gate, ex_empty);
     let stats = gate_stats gate;
     check (attempts_total stats = of_nat iterations);
     check (observed_allowed = expected_allowed);
     check (allowed_total stats = expected_allowed);
     check (persist_writes_total stats = expected_allowed);
     check (blocked_total stats = sat_sub (of_nat iterations) expected_allowed)
   }"

lemma soak_test_passes:
  "long_mixed_frequency_soak_maintains_single_grant_per_window = Some ()"
proof -
  obtain g where g: "opened ex_empty (test_gate (from_millis 750)) = Some g"
    "steady g ex_empty (from_millis 750) 0 0" "g_cached_lock_until_ms g = 0"
    using steady_first [of "from_millis 750"] by (auto simp: eval_simps)
  then have "keeps_step (0, 0, 0, g, ex_empty) 750 0 0 0" by (simp add: keeps_step_def)
  then obtain x j where l: "soak_loop 100000 750 0 0 (0, 0, 0, g, ex_empty) = Some x" and x: "keeps_step x 750 100000 j j"
    using soak_loop_keeps_step [of "(0, 0, 0, g, ex_empty)" 750 0 0 0 100000 0 0] by auto
  obtain ea en oa g' s' where xs: "x = (ea, en, oa, g', s')" by (metis prod_cases5)
  have st: "unat (attempts_total (g_stats g')) = 100000" "unat (allowed_total (g_stats g')) = j"
    "unat (persist_writes_total (g_stats g')) = j" "unat (blocked_total (g_stats g')) + j = 100000" "oa = ea" "unat ea = j"
    using x by (auto simp: xs keeps_step_def steady_def)
  have eqs: "attempts_total (g_stats g') = 100000" "allowed_total (g_stats g') = ea" "persist_writes_total (g_stats g') = ea"
    using st unat_of_nat_eq [OF st(1)] by (simp_all add: word_unat_eq_iff)
  have "unat (sat_sub 100000 ea) = 100000 - j" using st by (simp add: unat_sat_sub)
  then have "blocked_total (g_stats g') = sat_sub 100000 ea" using st by (simp add: word_unat_eq_iff)
  with g(1) l eqs st(5) show ?thesis
    by (simp add: long_mixed_frequency_soak_maintains_single_grant_per_window_def xs check_def gate_stats_def Let_def)
qed


section \<open>The bound on grants\<close>

text \<open>The loop of the bound test, one attempt per millisecond from \<open>now_ms\<close> on.\<close>

primrec bound_loop ::
  "nat \<Rightarrow> u64 \<Rightarrow> u64 option \<Rightarrow> u64 \<Rightarrow> u64 \<Rightarrow> durable_open_gate \<Rightarrow> store \<Rightarrow> (u64 option \<times> u64 \<times> u64) option" where
  "bound_loop 0 now_ms first_ms last_ms allowed_n gate dir = Some (first_ms, last_ms, allowed_n)"
| "bound_loop (Suc n) now_ms first_ms last_ms allowed_n gate dir = do {
     let first_ms = (if first_ms = None then Some now_ms else first_ms);
     let last_ms = now_ms;
     (gate, dir, decision) \<leftarrow> attempted gate dir (from_millis now_ms);
     let allowed_n = (if allowed decision then sat_add allowed_n 1 else allowed_n);
     bound_loop n (now_ms + 1) first_ms last_ms allowed_n gate dir
   }"

definition allows_never_exceed_theoretical_window_bound :: "unit option" where
  "allows_never_exceed_theoretical_window_bound = do {
     let win_ms = 1000;
     gate \<leftarrow> opened ex_empty (test_gate (from_millis win_ms));
     (first_ms, last_ms, allowed_n) \<leftarrow> bound_loop 120001 0 None 0 0 gate ex_empty;
     start_ms \<leftarrow> first_ms;
     let span_ms = sat_sub last_ms start_ms;
     let max_theoretical = span_ms div win_ms + 1;
     check (allowed_n \<le> max_theoretical)
   }"


text \<open>Every grant of the loop moves the lock on by at least the window.\<close>

lemma bound_loop_bounded:
  assumes "steady g s (from_millis w) n k" and "unat m * unat w \<le> unat (g_cached_lock_until_ms g)"
    and "m = 0 \<or> unat (g_cached_lock_until_ms g) \<le> unat last_ms + unat w" and "last_ms \<le> now"
    and "n + i < 2 ^ 64" and "unat now + i + unat w < 2 ^ 64" and "unat m + i < 2 ^ 64"
  shows "\<exists>first' last' m'. bound_loop i now first last_ms m g s = Some (first', last', m') \<and>
    first' = (if first = None \<and> 0 < i then Some now else first) \<and>
    (m' = 0 \<or> unat m' * unat w \<le> unat last' + unat w)"
  using assms
proof (induction i arbitrary: now first last_ms m g s n k)
  case 0
  then show ?case by auto
next
  case (Suc i)
  let ?f = "if first = None then Some now else first"
  obtain g' s' d where a: "attempted g s (from_millis now) = Some (g', s', d)"
    and al: "allowed d = (g_cached_lock_until_ms g \<le> now)"
    and st: "steady g' s' (from_millis w) (n + 1) (k + of_bool (allowed d))"
    and c: "g_cached_lock_until_ms g' = (if allowed d then sat_add now w else g_cached_lock_until_ms g)"
    using steady_attempt [OF Suc.prems(1), of "from_millis now"] Suc.prems(5) by auto
  let ?m = "if allowed d then sat_add m 1 else m"
  have inc: "unat (sat_add m 1) = unat m + 1" using Suc.prems(7) by (simp add: unat_sat_add)
  then have m: "unat ?m = unat m + of_bool (allowed d)" and lock: "unat (sat_add now w) = unat now + unat w"
    and nxt: "unat (now + 1) = unat now + 1"
    using Suc.prems(6,7) by (auto simp: unat_sat_add unat_plus_fits)
  have 1: "unat ?m * unat w \<le> unat (g_cached_lock_until_ms g')"
    using Suc.prems(2) by (auto simp: inc c lock al word_le_nat_alt add_mult_distrib)
  have 2: "?m = 0 \<or> unat (g_cached_lock_until_ms g') \<le> unat now + unat w"
    using Suc.prems(3,4) by (auto simp: c lock word_le_nat_alt)
  have 3: "now \<le> now + 1" "n + 1 + i < 2 ^ 64" "unat (now + 1) + i + unat w < 2 ^ 64" "unat ?m + i < 2 ^ 64"
    using Suc.prems(5-7) by (auto simp: m nxt word_le_nat_alt)
  show ?case
    using Suc.IH [OF st 1 2 3, of ?f] by (auto simp: a Let_def)
qed

lemma bound_test_passes:
  "allows_never_exceed_theoretical_window_bound = Some ()"
proof -
  obtain g where g: "opened ex_empty (test_gate (from_millis 1000)) = Some g"
    "steady g ex_empty (from_millis 1000) 0 0" "g_cached_lock_until_ms g = 0"
    using steady_first [of "from_millis 1000"] by (auto simp: eval_simps)
  obtain t m where l: "bound_loop 120001 0 None 0 0 g ex_empty = Some (Some 0, t, m)"
    and m: "m = 0 \<or> unat m * 1000 \<le> unat t + 1000"
    using bound_loop_bounded [OF g(2), of 0 0 0 120001 None] by auto
  have "unat (t div 1000) = unat t div 1000" by (simp add: unat_div)
  moreover have "unat (t div 1000 + 1) = unat (t div 1000) + 1"
    using unat_word_less [of t] by (simp add: unat_plus_fits unat_div)
  ultimately have "m \<le> sat_sub t 0 div 1000 + 1" using m by (auto simp: word_le_nat_alt sat_sub_def)
  with g(1) l show ?thesis by (simp add: allows_never_exceed_theoretical_window_bound_def check_def Let_def)
qed

section \<open>The test of restarts\<close>

primrec traffic_loop :: "nat \<Rightarrow> u64 \<Rightarrow> u64 \<Rightarrow> soak \<Rightarrow> (u64 \<times> soak) option" where
  "traffic_loop 0 window now_ms x = Some (now_ms, x)"
| "traffic_loop (Suc n) window now_ms x = do {
     x \<leftarrow> soak_turn window now_ms x;
     traffic_loop n window (sat_add now_ms 10) x
   }"

primrec restart_loop ::
  "nat \<Rightarrow> u64 \<Rightarrow> u64 \<Rightarrow> u64 \<Rightarrow> u64 \<Rightarrow> u64 \<Rightarrow> u64 \<Rightarrow> u64 \<Rightarrow> store \<Rightarrow> (u64 \<times> u64 \<times> u64 \<times> u64) option" where
  "restart_loop 0 window now_ms ea en oa aggregate_attempts aggregate_writes dir =
     Some (ea, oa, aggregate_attempts, aggregate_writes)"
| "restart_loop (Suc n) window now_ms ea en oa aggregate_attempts aggregate_writes dir = do {
     gate \<leftarrow> opened dir (test_gate (from_millis window));
     (now_ms, ea, en, oa, gate, dir) \<leftarrow> traffic_loop 200 window now_ms (ea, en, oa, gate, dir);
     let stats = gate_stats gate;
     let aggregate_attempts = sat_add aggregate_attempts (attempts_total stats);
     let aggregate_writes = sat_add aggregate_writes (persist_writes_total stats);
     restart_loop n window now_ms ea en oa aggregate_attempts aggregate_writes dir
   }"

definition restart_under_heavy_traffic_preserves_lock_state_and_limits_writes :: "unit option" where
  "restart_under_heavy_traffic_preserves_lock_state_and_limits_writes = do {
     (expected_allowed, observed_allowed, aggregate_attempts, aggregate_writes) \<leftarrow>
       restart_loop 50 1000 0 0 0 0 0 0 ex_empty;
     check (aggregate_attempts = 10000);
     check (observed_allowed = expected_allowed);
     check (aggregate_writes = expected_allowed)
   }"

lemma traffic_loop_keeps_step:
  assumes "keeps_step x window n k a" and "n + m < 2 ^ 64" and "a + m < 2 ^ 64"
  shows "\<exists>now' x' j. traffic_loop m window now_ms x = Some (now', x') \<and> keeps_step x' window (n + m) (k + j) (a + j) \<and> j \<le> m"
  using assms
proof (induction m arbitrary: x n k a now_ms)
  case 0
  then show ?case by (auto intro: exI [of _ 0])
next
  case (Suc m)
  obtain x1 b where x1: "soak_turn window now_ms x = Some x1"
    and st: "keeps_step x1 window (n + 1) (k + of_bool b) (a + of_bool b)"
    using soak_turn_keeps_step [OF Suc.prems(1), of now_ms] Suc.prems(2,3) by auto
  obtain now' x' j where "traffic_loop m window (sat_add now_ms 10) x1 = Some (now', x')" "j \<le> m"
    "keeps_step x' window (n + 1 + m) (k + of_bool b + j) (a + of_bool b + j)"
    using Suc.IH [OF st, of "sat_add now_ms 10"] Suc.prems(2,3) by (cases b) auto
  then show ?case by (intro exI [of _ now'] exI [of _ x'] exI [of _ "of_bool b + j"]) (simp add: x1 Let_def add.assoc)
qed

lemma restart_loop_keeps_step:
  assumes "in_sync ex_decode g0 dir" and "g_cfg g0 = test_gate (from_millis window)" and "en = g_cached_lock_until_ms g0"
    and "unat aa + 200 * n < 2 ^ 64" and "unat ea + 200 * n < 2 ^ 64" and "\<not> is_zero (from_millis window)"
  shows "\<exists>ea' aa'. restart_loop n window now_ms ea en ea aa ea dir = Some (ea', ea', aa', ea') \<and> unat aa' = unat aa + 200 * n"
  using assms
proof (induction n arbitrary: g0 dir now_ms ea en aa)
  case 0
  then show ?case by simp
next
  case (Suc n)
  obtain g where g: "opened dir (test_gate (from_millis window)) = Some g" "steady g dir (from_millis window) 0 0"
    "g_cached_lock_until_ms g = en"
    using steady_opened [OF Suc.prems(1,2,6)] Suc.prems(3) by auto
  then have "keeps_step (ea, en, ea, g, dir) window 0 0 (unat ea)" by (simp add: keeps_step_def)
  then obtain now' x' j where l: "traffic_loop 200 window now_ms (ea, en, ea, g, dir) = Some (now', x')"
    and x': "keeps_step x' window 200 j (unat ea + j)" and j: "j \<le> 200"
    using traffic_loop_keeps_step [of "(ea, en, ea, g, dir)" window 0 0 "unat ea" 200 now_ms] Suc.prems(5) by auto
  obtain ea' en' oa' g' dir' where xs: "x' = (ea', en', oa', g', dir')" by (metis prod_cases5)
  have st: "unat (attempts_total (g_stats g')) = 200" "unat (persist_writes_total (g_stats g')) = j"
    "oa' = ea'" "unat ea' = unat ea + j" "en' = g_cached_lock_until_ms g'"
    "in_sync ex_decode g' dir'" "g_cfg g' = test_gate (from_millis window)"
    using x' by (auto simp: xs keeps_step_def steady_def)
  have aa: "unat (sat_add aa (attempts_total (g_stats g'))) = unat aa + 200"
    using Suc.prems(4) st(1) by (simp add: unat_sat_add)
  have "unat (sat_add ea (persist_writes_total (g_stats g'))) = unat ea'"
    using Suc.prems(5) st(2,4) j by (simp add: unat_sat_add)
  then have w: "sat_add ea (persist_writes_total (g_stats g')) = ea'" by (simp add: word_unat_eq_iff)
  show ?case
    using Suc.IH [OF st(6,7,5), of "sat_add aa (attempts_total (g_stats g'))" ea' now'] Suc.prems(4-6) aa st(3,4) j
    by (auto simp: g(1) l xs w gate_stats_def Let_def)
qed

lemma restart_test_passes:
  "restart_under_heavy_traffic_preserves_lock_state_and_limits_writes = Some ()"
proof -
  have "\<exists>ea aa. restart_loop 50 1000 0 0 0 0 0 0 ex_empty = Some (ea, ea, aa, ea) \<and> unat aa = 10000"
    using restart_loop_keeps_step [of "\<lparr>g_cfg = test_gate (from_millis 1000), g_cached_lock_until_ms = 0, g_stats = stats_default\<rparr>"
        ex_empty 1000 0 0 50 0 0]
    by (simp add: in_sync_def ex_empty_def eval_simps)
  then obtain ea aa where "restart_loop 50 1000 0 0 0 0 0 0 ex_empty = Some (ea, ea, aa, ea)" "unat aa = 10000" by blast
  then show ?thesis
    using unat_of_nat_eq [of aa 10000]
    by (simp add: restart_under_heavy_traffic_preserves_lock_state_and_limits_writes_def check_def)
qed

end
