(* ===== verification/Gate_Process_Test.thy ===== *)
theory Gate_Process_Test
  imports Gate_Tests
begin

text \<open>
  The unit test of the durable open gate that starts a second process
  (\<open>multi_process_lock_is_exclusive\<close> and \<open>child_process_hold_lock_for_test\<close>). The two processes signal
  each other by files and wait by polling; each is a function that makes its next move, and a
  schedule says who moves. The child has its three environment variables set.
\<close>

section \<open>The two processes\<close>

datatype child_at = ChildOpens | ChildReports | ChildPolls | ChildAsserts | ChildEnded bool

datatype parent_at = ParentPolls | ParentAsserts | ParentOpens | ParentReleases | ParentJoins | ParentEnded bool

record process_test =
  pt_world :: "(nat, nat, unit) world"
  pt_ready :: bool
  pt_release :: bool
  pt_child :: child_at
  pt_child_waited :: u32
  pt_parent :: parent_at
  pt_parent_waited :: u32

definition process_test_start :: process_test where
  "process_test_start = \<lparr>pt_world = world_new ex_empty, pt_ready = False, pt_release = False,
     pt_child = ChildOpens, pt_child_waited = 0, pt_parent = ParentPolls, pt_parent_waited = 0\<rparr>"

text \<open>What the file lock answers, as the operating system promises it.\<close>

definition open_io_in :: "('p, 't, unit) world \<Rightarrow> unit open_io" where
  "open_io_in w = ex_opening\<lparr>oi_try_lock_exclusive := (if w_lock w = None then None else Some WouldBlock)\<rparr>"

lemma open_io_in_excludes: "lock_excludes w (open_io_in w)"
  by (simp add: lock_excludes_def open_io_in_def)

text \<open>A process that ends, by an assertion that fails too, drops its gate.\<close>

definition child_process_hold_lock_for_test :: "process_test \<Rightarrow> process_test" where
  "child_process_hold_lock_for_test r =
     (case pt_child r of
        ChildOpens \<Rightarrow>
          let (w, gate) = process_open ex_decode (open_io_in (pt_world r)) (test_gate (from_secs 60)) 1 (pt_world r)
          in r\<lparr>pt_world := w, pt_child := (if gate = Inr () then ChildReports else ChildEnded False)\<rparr>
      | ChildReports \<Rightarrow> r\<lparr>pt_ready := True, pt_child := ChildPolls\<rparr>
      | ChildPolls \<Rightarrow>
          if \<not> pt_release r \<and> pt_child_waited r < 1000
          then r\<lparr>pt_child_waited := sat_add (pt_child_waited r) 1\<rparr>
          else r\<lparr>pt_child := ChildAsserts\<rparr>
      | ChildAsserts \<Rightarrow> r\<lparr>pt_world := process_drop 1 (pt_world r), pt_child := ChildEnded (pt_release r)\<rparr>
      | ChildEnded ok \<Rightarrow> r)"

definition multi_process_lock_is_exclusive :: "process_test \<Rightarrow> process_test" where
  "multi_process_lock_is_exclusive r =
     (case pt_parent r of
        ParentPolls \<Rightarrow>
          if \<not> pt_ready r \<and> pt_parent_waited r < 1000
          then r\<lparr>pt_parent_waited := sat_add (pt_parent_waited r) 1\<rparr>
          else r\<lparr>pt_parent := ParentAsserts\<rparr>
      | ParentAsserts \<Rightarrow> r\<lparr>pt_parent := (if pt_ready r then ParentOpens else ParentEnded False)\<rparr>
      | ParentOpens \<Rightarrow>
          let (w, second) = process_open ex_decode (open_io_in (pt_world r)) (test_gate (from_secs 60)) 0 (pt_world r)
          in r\<lparr>pt_world := w, pt_parent := (if second = Inl AlreadyLocked then ParentReleases else ParentEnded False)\<rparr>
      | ParentReleases \<Rightarrow> r\<lparr>pt_release := True, pt_parent := ParentJoins\<rparr>
      | ParentJoins \<Rightarrow> (case pt_child r of ChildEnded ok \<Rightarrow> r\<lparr>pt_parent := ParentEnded ok\<rparr> | _ \<Rightarrow> r)
      | ParentEnded ok \<Rightarrow> r)"

text \<open>A schedule: who makes the next move.\<close>

definition process_move :: "process_test \<Rightarrow> bool \<Rightarrow> process_test" where
  "process_move r child = (if child then child_process_hold_lock_for_test r else multi_process_lock_is_exclusive r)"

definition process_test_run :: "bool list \<Rightarrow> process_test" where
  "process_test_run = foldl process_move process_test_start"

section \<open>No order of the moves fails the test\<close>

text \<open>What holds as long as neither process has used up the waits it allows itself.\<close>

definition patient_so_far :: "process_test \<Rightarrow> bool" where
  "patient_so_far r \<longleftrightarrow> pt_child_waited r < 1000 \<and> pt_parent_waited r < 1000"

definition on_track :: "process_test \<Rightarrow> bool" where
  "on_track r \<longleftrightarrow>
     (case pt_child r of
        ChildOpens \<Rightarrow> w_lock (pt_world r) = None \<and> w_store (pt_world r) = ex_empty \<and> \<not> pt_ready r
      | ChildReports \<Rightarrow> w_lock (pt_world r) = Some 1 \<and> \<not> pt_ready r
      | ChildPolls \<Rightarrow> w_lock (pt_world r) = Some 1 \<and> pt_ready r
      | ChildAsserts \<Rightarrow> pt_ready r \<and> pt_release r
      | ChildEnded ok \<Rightarrow> ok \<and> pt_ready r \<and> pt_release r) \<and>
     (case pt_parent r of
        ParentPolls \<Rightarrow> \<not> pt_release r
      | ParentAsserts \<Rightarrow> \<not> pt_release r \<and> pt_ready r
      | ParentOpens \<Rightarrow> \<not> pt_release r \<and> pt_ready r
      | ParentReleases \<Rightarrow> \<not> pt_release r \<and> pt_ready r
      | ParentJoins \<Rightarrow> pt_release r \<and> pt_ready r
      | ParentEnded ok \<Rightarrow> ok \<and> pt_release r \<and> pt_ready r)"

lemma process_open_locked:
  "w_lock w \<noteq> None \<Longrightarrow> process_open dec (open_io_in w) cfg p w = (w, Inl AlreadyLocked)"
  by (cases "w_lock w") (simp_all add: process_open_def shared_open_def gate_open_def open_environment_def
      file_lock_acquire_def open_io_in_def ex_opening_def)

lemma process_open_fresh:
  "w_lock w = None \<Longrightarrow> w_store w = ex_empty \<Longrightarrow>
    \<exists>g. process_open ex_decode (open_io_in w) (test_gate (from_secs 60)) p w =
      (w\<lparr>w_lock := Some p, w_gate := (w_gate w)(p \<mapsto> g)\<rparr>, Inr ())"
  by (simp add: process_open_def shared_open_def open_io_in_def eval_simps) (rule exI, rule refl)

lemma process_move_on_track:
  assumes "patient_so_far r \<Longrightarrow> on_track r" and p: "patient_so_far (process_move r child)"
  shows "on_track (process_move r child)"
proof -
  have "patient_so_far r"
    using p by (auto simp: patient_so_far_def process_move_def child_process_hold_lock_for_test_def
        multi_process_lock_is_exclusive_def Let_def split: child_at.splits parent_at.splits if_splits prod.splits)
  then have o: "on_track r" and w: "pt_child_waited r < 1000" "pt_parent_waited r < 1000"
    using assms(1) by (auto simp: patient_so_far_def)
  show ?thesis
  proof (cases child)
    case True
    have opens: "\<exists>g. process_open ex_decode (open_io_in (pt_world r)) (test_gate (from_secs 60)) 1 (pt_world r) =
          ((pt_world r)\<lparr>w_lock := Some 1, w_gate := (w_gate (pt_world r))(1 \<mapsto> g)\<rparr>, Inr ())"
      if "pt_child r = ChildOpens"
      using that o process_open_fresh [of "pt_world r" 1] by (simp add: on_track_def)
    show ?thesis
    proof (cases "pt_child r")
      case ChildOpens
      with opens o True show ?thesis
        by (auto simp: on_track_def process_move_def child_process_hold_lock_for_test_def split: parent_at.splits)
    qed (use o w True in \<open>auto simp: on_track_def process_move_def child_process_hold_lock_for_test_def
        split: parent_at.splits\<close>)
  next
    case False
    with o w show ?thesis
      by (cases "pt_parent r"; cases "pt_child r")
        (auto simp: on_track_def process_move_def multi_process_lock_is_exclusive_def process_open_locked)
  qed
qed

lemma process_test_on_track: "patient_so_far (process_test_run xs) \<Longrightarrow> on_track (process_test_run xs)"
proof (induction xs rule: rev_induct)
  case Nil
  show ?case by (simp add: process_test_run_def on_track_def process_test_start_def world_new_def)
next
  case (snoc x xs)
  then show ?case
    using process_move_on_track [of "process_test_run xs" x] by (simp add: process_test_run_def)
qed

text \<open>The test fails only when a process has waited for its thousand turns, and it can pass.\<close>

lemma process_test_fails_only_by_waiting:
  assumes "pt_parent (process_test_run xs) = ParentEnded False"
  shows "pt_child_waited (process_test_run xs) \<ge> 1000 \<or> pt_parent_waited (process_test_run xs) \<ge> 1000"
proof (rule ccontr)
  assume "\<not> ?thesis"
  then have "on_track (process_test_run xs)" by (intro process_test_on_track) (auto simp: patient_so_far_def)
  with assms show False by (simp add: on_track_def)
qed

lemma process_test_passes:
  "pt_parent (process_test_run [True, True, False, False, False, False, True, True, False]) = ParentEnded True"
proof -
  let ?w = "world_new ex_empty :: (nat, nat, unit) world"
  obtain g where "process_open ex_decode (open_io_in ?w) (test_gate (from_secs 60)) 1 ?w =
      (?w\<lparr>w_lock := Some 1, w_gate := (w_gate ?w)(1 \<mapsto> g)\<rparr>, Inr ())"
    using process_open_fresh [of ?w 1] by (auto simp: world_new_def)
  then show ?thesis
    by (simp add: process_test_run_def process_test_start_def process_move_def child_process_hold_lock_for_test_def
        multi_process_lock_is_exclusive_def process_open_locked)
qed

end
