(* ===== verification/Integration_Tests.thy ===== *)
theory Integration_Tests
  imports Crate_Tests Server_Model
begin

text \<open>
  The integration tests of \<open>src/tests\<close>, which use the public interface only, run in the model: the
  limits of providers, feedback, and the cases of the deterministic server.
\<close>

section \<open>Fixed windows with many sends\<close>

text \<open>Sending \<open>n\<close> times at one instant in a window that has room spends them one after the other.\<close>

lemma send_many_window:
  assumes one: "cost_get c = 1" and "cfg_algorithm (l_cfg rl) = CfgFixedWindow mx window" and "cfg_slow_start (l_cfg rl) = None"
    and "l_global_blocked_until rl = None" and "fmlookup (l_route_map rl) k = None"
    and "fmlookup (l_buckets rl) k = Some \<lparr>blocked_until = None, algo = AlgoFixedWindow
      \<lparr>fw_window_start = start, fw_reserved = 0, fw_spent = m\<rparr>\<rparr>"
    and "\<not> saturating_add start window \<le> now" and "unat m + n \<le> unat mx"
  shows "send_many dbg n rl k c Confirmed now = Some (rl\<lparr>l_buckets :=
    fmupd k \<lparr>blocked_until = None, algo = AlgoFixedWindow
      \<lparr>fw_window_start = start, fw_reserved = 0, fw_spent = m + of_nat n\<rparr>\<rparr> (l_buckets rl)\<rparr>)"
  using assms(2-)
proof (induction n arbitrary: rl m)
  case 0
  then have "fmupd k \<lparr>blocked_until = None, algo = AlgoFixedWindow
      \<lparr>fw_window_start = start, fw_reserved = 0, fw_spent = m\<rparr>\<rparr> (l_buckets rl) = l_buckets rl"
    by (intro fmap_ext) auto
  then show ?case by simp
next
  case (Suc n)
  have m: "unat m + 1 \<le> unat mx" using Suc.prems(7) by simp
  then have mx: "mx \<noteq> 0" "\<not> mx < 1" "\<not> sat_sub mx m < 1"
    by (auto simp: word_less_nat_alt unat_sat_sub)
  have add: "sat_add m 1 = m + 1" and um: "unat (m + 1) = unat m + 1"
    using m unat_word_less [of mx] by (simp_all add: word_unat_eq_iff unat_sat_add unat_plus_fits)
  have z: "sat_add 0 1 = (1 :: u32)" "sat_sub 1 1 = (0 :: u32)" by (simp_all add: sat_add_def sat_sub_def)
  let ?b = "\<lparr>blocked_until = None, algo = AlgoFixedWindow \<lparr>fw_window_start = start, fw_reserved = 0, fw_spent = m + 1\<rparr>\<rparr>"
  have step: "send_many dbg (Suc n) rl k c Confirmed now =
      send_many dbg n (rl\<lparr>l_buckets := fmupd k ?b (l_buckets rl)\<rparr>) k c Confirmed now"
    using Suc.prems mx add
    by (simp add: acquired_def try_acquire_def global_wait_def effective_algorithm_def slow_start_pre_deny_def
        ensure_bucket_capacity_def resolve_bucket_key_def reserve_entry_def bucket_try_reserve_def
        clear_expired_block_def bucket_decide_def fw_try_reserve_def fw_maybe_reset_window_def one
        unwrap_def commit_def outcome_backoff_def bucket_commit_def fw_commit_def z Let_def)
  have "m + of_nat (Suc n) = m + 1 + of_nat n" by (simp add: algebra_simps)
  moreover have "unat (m + 1) + n \<le> unat mx" using Suc.prems(7) by (simp add: um)
  ultimately show ?case
    using Suc.IH [of "rl\<lparr>l_buckets := fmupd k ?b (l_buckets rl)\<rparr>" "m + 1"] Suc.prems(1-4,6) step by (simp add: add.assoc)
qed

section \<open>tests/bybit_rate_limits.rs\<close>

definition bybit_http_ip_rate_limit_600_per_5s :: "bool \<Rightarrow> unit option" where
  "bybit_http_ip_rate_limit_600_per_5s dbg = do {
     cfg \<leftarrow> unwrap (fixed_window 600 (from_secs 5));
     let rl = limiter_new cfg;
     let now = from_secs 0;
     rl \<leftarrow> send_many dbg 600 rl 1 cost_one Confirmed now;
     (rl, d) \<leftarrow> denied dbg rl 1 cost_one now;
     check (retry_after d = from_secs 5);
     (rl, p) \<leftarrow> acquired dbg rl 1 cost_one (from_secs 5);
     rl \<leftarrow> commit dbg rl p Confirmed (from_secs 5);
     Some ()
   }"

definition bybit_ws_ip_connect_limit_500_per_5m :: "bool \<Rightarrow> unit option" where
  "bybit_ws_ip_connect_limit_500_per_5m dbg = do {
     cfg \<leftarrow> unwrap (fixed_window 500 (from_secs 300));
     let rl = limiter_new cfg;
     let now = from_secs 0;
     rl \<leftarrow> send_many dbg 500 rl 2 cost_one Confirmed now;
     (rl, d) \<leftarrow> denied dbg rl 2 cost_one now;
     check (retry_after d = from_secs 300);
     (rl, p) \<leftarrow> acquired dbg rl 2 cost_one (from_secs 300);
     rl \<leftarrow> commit dbg rl p Confirmed (from_secs 300);
     Some ()
   }"

definition bybit_http_ban_feedback_blocks_for_10_minutes :: "bool \<Rightarrow> unit option" where
  "bybit_http_ban_feedback_blocks_for_10_minutes dbg = do {
     cfg \<leftarrow> unwrap (fixed_window 10 (from_secs 1));
     let rl = limiter_new cfg;
     rl \<leftarrow> apply_feedback dbg rl 0 (feedback_new (from_secs 600) FbGlobal) (from_secs 0);
     (rl, d) \<leftarrow> denied dbg rl 123 cost_one (from_secs 599);
     check (retry_after d = from_secs 1)
   }"

lemma send_first_of:
  "send_many dbg 600 rl k c out now =
    do { (rl, p) \<leftarrow> acquired dbg rl k c now; rl \<leftarrow> commit dbg rl p out now; send_many dbg 599 rl k c out now }"
  "send_many dbg 500 rl k c out now =
    do { (rl, p) \<leftarrow> acquired dbg rl k c now; rl \<leftarrow> commit dbg rl p out now; send_many dbg 499 rl k c out now }"
  using send_many.simps(2) [of dbg 599 rl k c out now] send_many.simps(2) [of dbg 499 rl k c out now]
  by (simp_all del: send_many.simps)

lemma bybit_tests_pass:
  "bybit_http_ip_rate_limit_600_per_5s dbg = Some ()"
  "bybit_ws_ip_connect_limit_500_per_5m dbg = Some ()"
  "bybit_http_ban_feedback_blocks_for_10_minutes dbg = Some ()"
  by (simp add: bybit_http_ip_rate_limit_600_per_5s_def eval_simps send_first_of
        send_many_window [where start = "dur 0" and m = 1 and window = "dur 5000000000"] del: send_many_numeral,
      simp add: bybit_ws_ip_connect_limit_500_per_5m_def eval_simps send_first_of
        send_many_window [where start = "dur 0" and m = 1 and window = "dur 300000000000"] del: send_many_numeral,
      simp add: bybit_http_ban_feedback_blocks_for_10_minutes_def eval_simps)

section \<open>tests/deribit_rate_limits.rs\<close>

definition deribit_non_matching_engine_credit_pool_defaults :: "bool \<Rightarrow> unit option" where
  "deribit_non_matching_engine_credit_pool_defaults dbg = do {
     let rl = limiter_new (token_bucket 50000 10000);
     let now = from_secs 0;
     cost \<leftarrow> cost_new 500;
     rl \<leftarrow> send_many dbg 100 rl 1 cost SentNoConfirm now;
     (rl, d) \<leftarrow> denied dbg rl 1 cost now;
     check (retry_after d = from_millis 50);
     (rl, p) \<leftarrow> acquired dbg rl 1 cost (from_millis 50);
     rl \<leftarrow> commit dbg rl p SentNoConfirm (from_millis 50);
     Some ()
   }"

definition deribit_subscribe_credit_pool_limits :: "bool \<Rightarrow> unit option" where
  "deribit_subscribe_credit_pool_limits dbg = do {
     let rl = limiter_new (token_bucket 30000 10000);
     let now = from_secs 0;
     cost \<leftarrow> cost_new 3000;
     rl \<leftarrow> send_many dbg 10 rl 2 cost SentNoConfirm now;
     (rl, d) \<leftarrow> denied dbg rl 2 cost now;
     check (retry_after d = from_millis 300);
     (rl, p) \<leftarrow> acquired dbg rl 2 cost (from_millis 300);
     rl \<leftarrow> commit dbg rl p SentNoConfirm (from_millis 300);
     Some ()
   }"

lemma deribit_tests_pass:
  "deribit_non_matching_engine_credit_pool_defaults dbg = Some ()"
  "deribit_subscribe_credit_pool_limits dbg = Some ()"
  by (simp add: deribit_non_matching_engine_credit_pool_defaults_def eval_simps send_first send_many_pool
        del: send_many_numeral,
      simp add: deribit_subscribe_credit_pool_limits_def eval_simps)

section \<open>tests/discord_rate_limits.rs\<close>

definition discord_route_bucket_remaining_zero_blocks_until_reset_after :: "bool \<Rightarrow> unit option" where
  "discord_route_bucket_remaining_zero_blocks_until_reset_after dbg = do {
     cfg \<leftarrow> unwrap (fixed_window 10 (from_secs 10));
     let rl = limiter_new cfg;
     let fb = \<lparr>fb_retry_after = dur_zero, fb_scope = FbKey, fb_remaining = Some 0,
       fb_reset_after = Some (from_secs 2), fb_bucket_remap = None\<rparr>;
     rl \<leftarrow> apply_feedback dbg rl 9 fb (from_secs 0);
     (rl, d) \<leftarrow> denied dbg rl 9 cost_one (from_secs 1);
     check (retry_after d = from_secs 1);
     (rl, p) \<leftarrow> acquired dbg rl 9 cost_one (from_secs 2);
     Some ()
   }"

definition discord_global_429_blocks_all_keys :: "bool \<Rightarrow> unit option" where
  "discord_global_429_blocks_all_keys dbg = do {
     cfg \<leftarrow> unwrap (fixed_window 10 (from_secs 10));
     let rl = limiter_new cfg;
     rl \<leftarrow> apply_feedback dbg rl 0 (feedback_new (from_secs 3) FbGlobal) (from_secs 0);
     (rl, d) \<leftarrow> denied dbg rl 123 cost_one (from_secs 1);
     check (retry_after d = from_secs 2)
   }"

lemma discord_tests_pass:
  "discord_route_bucket_remaining_zero_blocks_until_reset_after dbg = Some ()"
  "discord_global_429_blocks_all_keys dbg = Some ()"
  by (simp add: discord_route_bucket_remaining_zero_blocks_until_reset_after_def eval_simps,
      simp add: discord_global_429_blocks_all_keys_def eval_simps)

section \<open>tests/feedback.rs\<close>

definition feedback_global_blocks_all_keys_and_does_not_shorten_existing_backoff :: "bool \<Rightarrow> unit option" where
  "feedback_global_blocks_all_keys_and_does_not_shorten_existing_backoff dbg = do {
     cfg \<leftarrow> unwrap (fixed_window 10 (from_secs 10));
     let rl = limiter_new cfg;
     rl \<leftarrow> apply_feedback dbg rl 1 (feedback_new (from_secs 3) FbGlobal) (from_secs 0);
     (rl, d) \<leftarrow> denied dbg rl 2 cost_one (from_secs 1);
     check (retry_after d = from_secs 2);
     rl \<leftarrow> apply_feedback dbg rl 1 (feedback_new (from_secs 1) FbGlobal) (from_secs 0);
     (rl, d2) \<leftarrow> denied dbg rl 2 cost_one (from_secs 1);
     check (retry_after d2 = from_secs 2)
   }"

definition feedback_key_scope_uses_reset_after_when_remaining_is_zero :: "bool \<Rightarrow> unit option" where
  "feedback_key_scope_uses_reset_after_when_remaining_is_zero dbg = do {
     cfg \<leftarrow> unwrap (fixed_window 10 (from_secs 10));
     let rl = limiter_new cfg;
     let fb = \<lparr>fb_retry_after = from_secs 1, fb_scope = FbKey, fb_remaining = Some 0,
       fb_reset_after = Some (from_secs 5), fb_bucket_remap = None\<rparr>;
     rl \<leftarrow> apply_feedback dbg rl 7 fb (from_secs 0);
     (rl, d) \<leftarrow> denied dbg rl 7 cost_one (from_secs 1);
     check (retry_after d = from_secs 4)
   }"

definition outcome_rate_limited_feedback_global_blocks_all_keys :: "bool \<Rightarrow> unit option" where
  "outcome_rate_limited_feedback_global_blocks_all_keys dbg = do {
     cfg \<leftarrow> unwrap (fixed_window 10 (from_secs 10));
     let rl = limiter_new cfg;
     (rl, p) \<leftarrow> acquired dbg rl 1 cost_one (from_secs 0);
     rl \<leftarrow> commit dbg rl p (RateLimitedFeedback (from_secs 3) ScopeGlobal None) (from_secs 0);
     (rl, d) \<leftarrow> denied dbg rl 2 cost_one (from_secs 1);
     check (retry_after d = from_secs 2)
   }"

lemma public_feedback_tests_pass:
  "feedback_global_blocks_all_keys_and_does_not_shorten_existing_backoff dbg = Some ()"
  "feedback_key_scope_uses_reset_after_when_remaining_is_zero dbg = Some ()"
  "outcome_rate_limited_feedback_global_blocks_all_keys dbg = Some ()"
  by (simp add: feedback_global_blocks_all_keys_and_does_not_shorten_existing_backoff_def eval_simps,
      simp add: feedback_key_scope_uses_reset_after_when_remaining_is_zero_def eval_simps,
      simp add: outcome_rate_limited_feedback_global_blocks_all_keys_def eval_simps)

section \<open>tests/deterministic_server_model.rs\<close>

definition fixed_window_deterministic_just_under_just_over_boundary :: "bool \<Rightarrow> unit option" where
  "fixed_window_deterministic_just_under_just_over_boundary dbg = do {
     cfg \<leftarrow> unwrap (fixed_window 3 (from_secs 10));
     let client = limiter_new cfg;
     let server = server_new (SrvFixedWindow 3 (from_secs 10));
     let attempts = [(from_secs 0, cost_one), (from_secs 0, cost_one), (from_secs 0, cost_one), (from_secs 0, cost_one),
       (from_secs 9, cost_one), (dur 9999999999, cost_one), (from_secs 10, cost_one)];
     x \<leftarrow> drive_trace dbg client server 42 attempts;
     Some ()
   }"

definition fixed_window_unachievable_cost_is_permanent_deny :: "bool \<Rightarrow> unit option" where
  "fixed_window_unachievable_cost_is_permanent_deny dbg = do {
     cfg \<leftarrow> unwrap (fixed_window 5 (from_secs 10));
     let client = limiter_new cfg;
     let server = server_new (SrvFixedWindow 5 (from_secs 10));
     let now = from_secs 0;
     cost \<leftarrow> cost_new 6;
     (server, server_decision) \<leftarrow> decide dbg server 1 cost now;
     (client, client_res) \<leftarrow> try_acquire dbg client 1 cost now;
     (case (client_res, server_decision) of
        (Inl d, ServerRateLimited ra _) \<Rightarrow> check (retry_after d = ra)
      | _ \<Rightarrow> None)
   }"

definition token_bucket_deterministic_burst_then_minimal_backoff :: "bool \<Rightarrow> unit option" where
  "token_bucket_deterministic_burst_then_minimal_backoff dbg = do {
     let client = limiter_new (token_bucket 10 10);
     let server = server_new (SrvTokenBucket 10 10);
     let attempts = replicate 10 (from_secs 0, cost_one) @
       [(from_secs 0, cost_one), (from_millis 99, cost_one), (from_millis 100, cost_one)];
     x \<leftarrow> drive_trace dbg client server 7 attempts;
     Some ()
   }"

definition slow_start_is_conservative_and_never_violates_server_fixed_window :: "bool \<Rightarrow> unit option" where
  "slow_start_is_conservative_and_never_violates_server_fixed_window dbg = do {
     cfg0 \<leftarrow> unwrap (fixed_window 10 (from_secs 10));
     let cfg = with_slow_start cfg0 (slow_start_new (from_secs 10));
     let client = limiter_new_at cfg (from_secs 0);
     let server = server_new (SrvFixedWindow 10 (from_secs 10));
     x \<leftarrow> send_trace dbg 1 (map (\<lambda>t. (from_secs t, cost_one)) [0..<21]) (client, server);
     Some ()
   }"

definition feedback_backoff_converges_when_client_is_too_optimistic :: "bool \<Rightarrow> unit option" where
  "feedback_backoff_converges_when_client_is_too_optimistic dbg = do {
     cfg \<leftarrow> unwrap (fixed_window 4 (from_secs 10));
     let client = limiter_new cfg;
     let server = server_new (SrvFixedWindow 3 (from_secs 10));
     let attempts = [(from_secs 0, cost_one), (from_secs 0, cost_one), (from_secs 0, cost_one), (from_secs 0, cost_one),
       (from_secs 1, cost_one), (from_secs 10, cost_one)];
     x \<leftarrow> drive_trace dbg client server 99 attempts;
     Some ()
   }"

definition refund_not_sent_keeps_client_and_server_in_sync :: "bool \<Rightarrow> unit option" where
  "refund_not_sent_keeps_client_and_server_in_sync dbg = do {
     cfg \<leftarrow> unwrap (fixed_window 1 (from_secs 10));
     let client = limiter_new cfg;
     let server = server_new (SrvFixedWindow 1 (from_secs 10));
     let now = from_secs 0;
     (client, p) \<leftarrow> acquired dbg client 1 cost_one now;
     client \<leftarrow> refund dbg client p now;
     (client, p2) \<leftarrow> acquired dbg client 1 cost_one now;
     (server, sd) \<leftarrow> decide dbg server 1 cost_one now;
     check (sd = ServerOk);
     server \<leftarrow> apply_outcome dbg server 1 cost_one Confirmed now;
     client \<leftarrow> commit dbg client p2 Confirmed now;
     Some ()
   }"

lemma replicate_numeral: "replicate (numeral n) x = x # replicate (pred_numeral n) x"
  by (simp add: numeral_eq_Suc)

lemma server_tests_pass:
  "fixed_window_deterministic_just_under_just_over_boundary dbg = Some ()"
  "fixed_window_unachievable_cost_is_permanent_deny dbg = Some ()"
  "token_bucket_deterministic_burst_then_minimal_backoff dbg = Some ()"
  "slow_start_is_conservative_and_never_violates_server_fixed_window dbg = Some ()"
  "feedback_backoff_converges_when_client_is_too_optimistic dbg = Some ()"
  "refund_not_sent_keeps_client_and_server_in_sync dbg = Some ()"
  by (simp add: fixed_window_deterministic_just_under_just_over_boundary_def eval_simps,
      simp add: fixed_window_unachievable_cost_is_permanent_deny_def eval_simps,
      simp add: token_bucket_deterministic_burst_then_minimal_backoff_def replicate_numeral eval_simps,
      simp add: slow_start_is_conservative_and_never_violates_server_fixed_window_def upt_conv_Cons eval_simps,
      simp add: feedback_backoff_converges_when_client_is_too_optimistic_def eval_simps,
      simp add: refund_not_sent_keeps_client_and_server_in_sync_def eval_simps)

end
