(* ===== verification/Doc_Tests.thy ===== *)
theory Doc_Tests
  imports Crate_Tests
begin

text \<open>
  The examples of the crate's documentation (\<open>src/lib.rs\<close>), which its build compiles and runs, in
  order: they return. The last, on linear permits, must not compile.
\<close>

definition doc_retry_after :: "bool \<Rightarrow> unit option" where
  "doc_retry_after dbg = do {
     cfg \<leftarrow> unwrap (fixed_window 10 (from_secs 10));
     let limiter = limiter_new cfg;
     let now = from_secs 0;
     limiter \<leftarrow> apply_feedback dbg limiter 42 (feedback_new (from_secs 2) FbKey) now;
     (limiter, r) \<leftarrow> try_acquire dbg limiter 42 cost_one (from_secs 1);
     check (isl r)
   }"

definition doc_credit_pool :: "bool \<Rightarrow> unit option" where
  "doc_credit_pool dbg = do {
     let cfg = token_bucket 50000 10000;
     let limiter = limiter_new cfg;
     let now = from_secs 0;
     c \<leftarrow> cost_new 500;
     (limiter, r) \<leftarrow> try_acquire dbg limiter 42 c now;
     p \<leftarrow> unwrap r;
     limiter \<leftarrow> commit dbg limiter p SentNoConfirm now;
     Some ()
   }"

definition doc_update_config :: "bool \<Rightarrow> unit option" where
  "doc_update_config dbg = do {
     let limiter = limiter_new (token_bucket 10 10);
     (limiter, r) \<leftarrow> update_config dbg limiter (token_bucket 20 10) (from_secs 0);
     unwrap r
   }"

definition doc_fixed_window :: "bool \<Rightarrow> unit option" where
  "doc_fixed_window dbg = do {
     cfg \<leftarrow> unwrap (fixed_window 3 (from_secs 10));
     let limiter = limiter_new cfg;
     let now = from_secs 0;
     (limiter, r) \<leftarrow> try_acquire dbg limiter 42 cost_one now;
     p \<leftarrow> unwrap r;
     limiter \<leftarrow> commit dbg limiter p Confirmed now;
     Some ()
   }"

lemma doc_tests_pass:
  "doc_retry_after dbg = Some ()"
  "doc_credit_pool dbg = Some ()"
  "doc_update_config dbg = Some ()"
  "doc_fixed_window dbg = Some ()"
  by (simp add: doc_retry_after_def eval_simps,
      simp add: doc_credit_pool_def eval_simps,
      simp add: doc_update_config_def eval_simps,
      simp add: doc_fixed_window_def eval_simps)

text \<open>
  The example that must not compile. A variable whose value is moved out is empty afterwards, and a
  use of it ends the computation: the second use of the permit is what the compiler refuses.
\<close>

fun moved :: "'a option \<Rightarrow> ('a \<times> 'a option) option" where
  "moved (Some x) = Some (x, None)"
| "moved None = None"

definition doc_linear_permits :: "bool \<Rightarrow> (limiter \<times> unit option) option" where
  "doc_linear_permits dbg = do {
     cfg \<leftarrow> unwrap (fixed_window 1 (from_secs 1));
     let limiter = limiter_new cfg;
     let now = from_secs 0;
     (limiter, r) \<leftarrow> try_acquire dbg limiter 1 cost_one now;
     p \<leftarrow> unwrap r;
     (arg, p) \<leftarrow> moved (Some p);
     limiter \<leftarrow> refund dbg limiter arg now;
     Some (limiter, do {
       (arg, p) \<leftarrow> moved p;
       limiter \<leftarrow> commit dbg limiter arg Confirmed now;
       Some ()
     })
   }"

lemma doc_linear_permits_refused: "\<exists>limiter. doc_linear_permits dbg = Some (limiter, None)"
  by (simp add: doc_linear_permits_def eval_simps)

text \<open>
  Why it must not: in a release build a permit that was given back twice takes the reservation of
  another with it, and a window of one unit has two permits out at once.
\<close>

lemma permits_must_be_linear:
  "\<exists>l1 l2 l3 l4 l5 p q r.
    try_acquire False (limiter_new \<lparr>cfg_algorithm = CfgFixedWindow 1 (from_secs 1), cfg_max_keys = None,
      cfg_overflow_policy = DenyNewKey, cfg_slow_start = None\<rparr>) 1 cost_one (from_secs 0) = Some (l1, Inr p) \<and>
    refund False l1 p (from_secs 0) = Some l2 \<and>
    try_acquire False l2 1 cost_one (from_secs 0) = Some (l3, Inr q) \<and>
    refund False l3 p (from_secs 0) = Some l4 \<and>
    try_acquire False l4 1 cost_one (from_secs 0) = Some (l5, Inr r)"
  by (simp add: eval_simps)

end
