(* ===== verification/Spec2Isabelle.thy ===== *)
theory Spec2Isabelle
  imports Pool_Properties Ramp_Properties Permits_In_Flight Limiter_Profiles Isolation Messages
    Trailing_Client Optimistic_Client Patient_Client Gate_Soak_Tests Gate_Process_Test Integration_Tests Doc_Tests
begin

text \<open>
  A verification development for the rate limiter crate (\<open>src/src\<close>): a synchronous limiter with
  two-phase permits, its configuration, slow start and server feedback, a table that deduplicates
  operations in flight, a durable gate that lets one open through per window, and the independent
  server the crate's tests compare the limiter with (\<open>src/tests\<close>).

  \<^bold>\<open>The parts and how they interact.\<close> A client asks \<open>RateLimiter::try_acquire\<close> for a route key and a
  cost. The limiter resolves the key (route remaps), checks the global backoff, slow start and the
  bound on tracked keys, and reserves in the key's bucket, a fixed window or a credit pool; it
  answers with a permit or with a denial that advises a wait, and tells the observer of denials.
  The client later commits or refunds the permit; what the server says (a feedback, or an outcome
  of a commit) installs backoffs on a key or globally. \<open>InFlightTable\<close> and \<open>LimiterInFlight\<close> keep the
  waiters and permits of operations under way; \<open>DurableOpenGate\<close> stands alone, with its directory
  and the other processes that open it. Time is an argument
  of every call, and only the theorems that compare a client with a server of other limits
  (\<open>Trailing_Client\<close>, \<open>Optimistic_Client\<close>) assume that it does not go back.

  \<^bold>\<open>Theories and sources.\<close>
  \<^item> \<open>Prelude\<close>: Rust's saturating and ceiling operations on words, calls that may panic (option, with
    the build profile \<open>dbg\<close> deciding what an overflow or a failed \<open>debug_assert!\<close> does), finite maps.
  \<^item> \<open>Duration\<close>: \<open>std::time::Duration\<close> as a bounded number of nanoseconds; \<open>Clock\<close>: \<open>clock.rs\<close>, a
    locale of clocks that do not go back, interpreted for both.
  \<^item> \<open>Types\<close>, \<open>Config\<close>, \<open>Slow_Start\<close>, \<open>Token_Bucket\<close>, \<open>Bucket\<close>, \<open>Limiter\<close>: \<open>types.rs\<close>, \<open>feedback.rs\<close>,
    \<open>observer.rs\<close>, \<open>config.rs\<close>, \<open>slow_start.rs\<close>, \<open>token_bucket.rs\<close>, \<open>bucket.rs\<close>, \<open>limiter.rs\<close>, method
    by method. A method that is long is split where its \<open>match\<close> is (\<open>fw_try_reserve\<close> and
    \<open>token_try_reserve\<close> for \<open>BucketState::try_reserve\<close>).
  \<^item> \<open>Bucket_Pool\<close>: the contract of a pool of reservations, a locale, and what both algorithms of a
    bucket promise under it.
  \<^item> \<open>Limiter_Invariant\<close>: one step of the public interface by a client that holds permits, the states
    it reaches, and the invariant that ties every bucket to the permits held.
  \<^item> \<open>Limiter_Safety\<close>, \<open>Limiter_Events\<close>: reservations, panics, eviction, bounds, updates; events,
    remaps, and the two ways to give a permit back.
  \<^item> \<open>Limiter_Profiles\<close>: every bucket and permit is of the kind of the configured algorithm, and runs
    are the same in both build profiles. \<open>Isolation\<close>: calls on other keys cannot be seen on a key.
  \<^item> \<open>Backoff\<close>: what feedback and rate-limited outcomes block, over a locale of backoffs.
  \<^item> \<open>Ledger\<close>, \<open>Throughput\<close>: runs of the limiter with a ledger of what was committed, and the two
    bounds on throughput, a credit pool's over any interval and a fixed window's per window.
  \<^item> \<open>Pool_Properties\<close>, \<open>Window_Properties\<close>, \<open>Ramp_Properties\<close>: the exactness of advised waits, of
    decisions and of the ramp, and where they fall short. \<open>Patient_Client\<close>: a client that waits as it is
    advised is served with its fourth call at the latest, or its fifth under slow start; a locale for what
    a bucket and the ramp must promise it, interpreted for both algorithms.
  \<^item> \<open>In_Flight\<close>, \<open>In_Flight_Properties\<close>: \<open>in_flight.rs\<close>; the heap is a priority queue behind a locale.
    \<open>Permits_In_Flight\<close>: runs of a client that keeps its permits in \<open>LimiterInFlight\<close> entries, with the
    limiter behind them.
  \<^item> \<open>Open_Gate\<close>, \<open>Open_Gate_Properties\<close>: \<open>durable_open_gate.rs\<close>; a locale of locks that only grow is
    interpreted on the gate of one process and on the life of its directory. A gate on which nothing
    fails is shown to be the plain lock its tests keep as a reference. \<open>Gate_Threads\<close>: the threads of a
    process that share its gate through the mutex, with panics and kills inside a call, which refine
    the life of the directory. \<open>Gate_World\<close>: any number of such processes, the file lock and the disk,
    which refine that life too.
  \<^item> \<open>Server_Model\<close>, \<open>Server_Properties\<close>: the independent server and the driver of
    \<open>tests/deterministic_server_model.rs\<close>; a locale for a client's bucket and a server's key in step,
    interpreted for both algorithms, gives that the driver never panics, for every trace.
  \<^item> \<open>Trailing_Client\<close>: a client whose limits are scaled down by slow start, or that lost credits to
    rounding, sends only what that server accepts; a locale for a bucket that trails the server's
    key, interpreted for both algorithms. \<open>Optimistic_Client\<close>: a client whose limit is above the
    server's backs off as the server's refusals tell it.
  \<^item> \<open>Messages\<close>: what the errors print.
  \<^item> \<open>Crate_Tests\<close>, \<open>Gate_Tests\<close>, \<open>Gate_Soak_Tests\<close>, \<open>Gate_Process_Test\<close>, \<open>Integration_Tests\<close>, \<open>Doc_Tests\<close>: the tests of the
    crate, under the names they have there, and the examples of its documentation, translated into computations of the model and shown to pass in both
    build profiles; the loops of up to 200000 turns by induction on the turns, and the test with a second process for
    every schedule of the two.
  \<^item> \<open>Example_Run\<close>: concrete limiters and permits that the witnesses use.

  \<^bold>\<open>Bounds and hypotheses.\<close> A client holds at most \<open>2^32\<close> permits at a time, so that the sums of
  their costs fit the 64-bit counters. Every configuration the constructors build (\<open>built\<close>) can be
  installed, and the invariant holds for all of them. That a refund returns is a statement of its
  own: in a build with overflow checks the unchecked addition of the credit pool's \<open>refund\<close> must
  fit, which a capacity of at most \<open>2^64 - 2^32\<close> gives (\<open>refund_safe\<close>) and a larger one does not
  (\<open>refund_overflows\<close>). Statements on the 64-bit ramp need a ramp below \<open>2^64\<close> nanoseconds, some five
  hundred years. The throughput bounds are for one configuration that does not evict
  (\<open>never_evicts\<close>): an evicted key forgets what it spent (\<open>eviction_forgets_what_was_spent\<close>) and the
  backoff imposed on it (\<open>eviction_unblocks_the_key\<close>); the backoff of a key is therefore shown to last
  over calls that keep its bucket (\<open>keeping_call\<close>). A run of the in-flight table begins fewer than \<open>2^64\<close> entries. The open gate is
  given what the file system, LMDB and the record format answer as arguments; only the statements
  across restarts assume anything of them, that a record decodes to what was encoded (\<open>codec_ok\<close>).
  Processes open the directory with any configurations; what outlasts a process needs that these
  fail closed and name the same record (\<open>agreeing\<close>). The in-flight table counts in natural numbers,
  so the threshold of its compaction differs from the code's within a factor of four of \<open>usize::MAX\<close>
  entries.
  Client and server agree below the largest 32-bit limit, where the server's saturating sum stops
  telling, and for costs a pool can hold: before it denies one it cannot, the client refills and
  loses a fraction (\<open>unachievable_cost_loses_credit\<close>). That a client sends only what the server
  accepts needs neither, but needs that time does not go back, as \<open>architecture.md\<close> asks of callers
  (\<open>going_back_oversends\<close>).
  All recursion is structural or has a measure, and no definition uses fuel.

  The patient client of a credit pool starts some 136 years before the last instant a \<open>Duration\<close> can
  hold, so that no wait for credits is cut short, and after the ramp, during which a pool may advise
  to wait for ever (\<open>ramp_advises_never\<close>); that of a fixed window needs neither. Without slow start the
  fourth call is the bound of that theorem, and sometimes needed.
  Of the operating system only two promises are used: the counter a \<open>SystemClock\<close> reads does not
  decrease, and the file lock excludes others while it is held (\<open>lock_excludes\<close>). That keys are
  isolated needs a table that does not fill: keys compete for a full one (\<open>bounded_keys_interfere\<close>).

  \<^bold>\<open>Not modelled.\<close> \<open>Debug\<close>, the hasher (\<open>hash.rs\<close>), module declarations, and the observers of applications,
  of which the model records the calls.
\<close>

end
